(* ===== verification/Prelude.thy ===== *)
theory Prelude
  imports Main "HOL-Library.Word" "HOL-Library.Monad_Syntax"
begin

text \<open>
  What every component theory of the kernel model shares: the machine types of
  \<^verbatim>\<open>kernel/stdint.h\<close>, byte buffers with checked accesses, the total-correctness
  predicate \<open>ok\<close> on computations that can fault, and the lemmas on words and lists the
  component proofs rest on.

  A computation that can run into undefined behaviour (an access outside an object, a
  null dereference) or into \<^verbatim>\<open>PANIC\<close> is an option: \<open>None\<close> is the fault, after which
  the kernel does not go on. A statement \<open>ok m Q\<close> therefore says both that \<open>m\<close> does not
  fault and that its result satisfies \<open>Q\<close>.
\<close>

unbundle bit_operations_syntax

section \<open>Machine types\<close>

type_synonym u8 = "8 word"
type_synonym u16 = "16 word"
type_synonym u32 = "32 word"

text \<open>A signed 32-bit result is kept as its bit pattern; \<open>sint\<close> reads it.\<close>

type_synonym i32 = "32 word"

text \<open>A pointer is an address; \<open>0\<close> is \<^verbatim>\<open>NULL\<close>.\<close>

type_synonym ptr = "32 word"

section \<open>Faulting computations\<close>

named_theorems wp \<open>rules that push the predicate ok through a computation\<close>

definition ok :: "'a option \<Rightarrow> ('a \<Rightarrow> bool) \<Rightarrow> bool" where
  "ok m Q = (case m of None \<Rightarrow> False | Some x \<Rightarrow> Q x)"

text \<open>Checked accesses to a byte (or word) object: \<open>None\<close> outside the object.\<close>

definition rd :: "'a list \<Rightarrow> nat \<Rightarrow> 'a option" where
  "rd xs i = (if i < length xs then Some (xs ! i) else None)"

definition wr :: "'a list \<Rightarrow> nat \<Rightarrow> 'a \<Rightarrow> 'a list option" where
  "wr xs i v = (if i < length xs then Some (xs[i := v]) else None)"

lemma ok_None [wp, simp]: "ok None Q = False"
  by (simp add: ok_def)

lemma ok_Some [wp, simp]: "ok (Some x) Q = Q x"
  by (simp add: ok_def)

lemma ok_bind [wp]: "ok (Option.bind m f) Q = ok m (\<lambda>x. ok (f x) Q)"
  by (cases m) simp_all

lemma ok_if [wp]: "ok (if b then m else n) Q = (if b then ok m Q else ok n Q)"
  by simp

lemma ok_rd [wp]: "ok (rd xs i) Q = (i < length xs \<and> Q (xs ! i))"
  by (simp add: rd_def)

lemma ok_wr [wp]: "ok (wr xs i v) Q = (i < length xs \<and> Q (xs[i := v]))"
  by (simp add: wr_def)

lemma ok_mono: "ok m P \<Longrightarrow> (\<And>x. P x \<Longrightarrow> Q x) \<Longrightarrow> ok m Q"
  by (cases m) simp_all

lemma ok_conj: "ok m P \<Longrightarrow> ok m Q \<Longrightarrow> ok m (\<lambda>x. P x \<and> Q x)"
  by (cases m) simp_all

lemma ok_iff: "ok m Q \<longleftrightarrow> (\<exists>x. m = Some x \<and> Q x)"
  by (cases m) simp_all

lemma okE: "ok m Q \<Longrightarrow> (\<And>x. m = Some x \<Longrightarrow> Q x \<Longrightarrow> R) \<Longrightarrow> R"
  by (cases m) simp_all

section \<open>Words\<close>

text \<open>A loop counter below its bound does not wrap when it is incremented.\<close>

lemma unat_plus1_less:
  fixes i n :: "'a::len word"
  assumes "i < n"
  shows "unat (i + 1) = Suc (unat i)"
proof -
  have "i + 1 \<noteq> 0"
    using assms by (metis add.commute max_word_wrap not_less word_order.extremum)
  then show ?thesis
    by (simp add: unatSuc add.commute)
qed

lemma unat_minus1:
  fixes i :: "'a::len word"
  assumes "0 < i"
  shows "unat (i - 1) = unat i - 1"
  using assms by (simp add: unat_minus_one word_gt_0)

lemma unat_plus1_le:
  fixes i n :: "'a::len word"
  assumes "i < n"
  shows "i + 1 \<le> n"
  using assms by (simp add: word_le_nat_alt unat_plus1_less word_less_nat_alt Suc_leI)

lemma unat_sub_le:
  fixes a b :: "'a::len word"
  assumes "b \<le> a"
  shows "unat (a - b) = unat a - unat b"
  using assms by (rule unat_sub)

lemma unat_of_nat_small:
  "n < 2 ^ LENGTH('a) \<Longrightarrow> unat (of_nat n :: 'a::len word) = n"
  by (simp add: unat_of_nat take_bit_nat_eq_self)

lemma unat_add_small:
  fixes a b :: "'a::len word"
  assumes "unat a + unat b < 2 ^ LENGTH('a)"
  shows "unat (a + b) = unat a + unat b"
  using assms by (simp add: unat_word_ariths)

lemma unat_less_pow: "unat (w :: 'a::len word) < 2 ^ LENGTH('a)"
  by (rule unsigned_less)

lemma u32_less: "unat (w :: u32) < 4294967296"
  using unat_less_pow [of w] by simp

lemma sint_nonneg: "unat (w :: u32) < 2 ^ 31 \<Longrightarrow> sint w = int (unat w)"
proof -
  assume a: "unat w < 2 ^ 31"
  have u: "int (unat w) = uint w" by simp
  from a have "int (unat w) < int (2 ^ 31)" by (simp only: of_nat_less_iff)
  then have "uint w < 2 ^ 31" unfolding u by simp
  moreover have "- (2 ^ 31) \<le> uint w" by (rule order_trans [of _ 0]) simp_all
  ultimately have "signed_take_bit 31 (uint w) = uint w" by (intro signed_take_bit_int_eq_self)
  then show ?thesis unfolding u sint_uint by simp
qed

section \<open>Lists\<close>

lemma map_upt_Suc_last: "map f [a..<Suc n] = (if a \<le> n then map f [a..<n] @ [f n] else [])"
  by simp

lemma map_upt_Suc_first:
  "map f [0..<Suc n] = f 0 # map (\<lambda>k. f (Suc k)) [0..<n]"
  by (simp add: upt_conv_Cons map_Suc_upt [symmetric] del: upt_Suc)

end
