(* ===== verification/FifoBuffer.thy ===== *)
theory FifoBuffer
  imports Prelude
begin

text \<open>
  \<^verbatim>\<open>kernel/fifobuffer.c\<close>: the ring buffer behind message queues, signal queues,
  terminals, pipes and sockets. The record keeps the C structure's fields; \<open>fb_data\<close> is
  the object \<^verbatim>\<open>data\<close> points to, and every access to it is checked. The abstraction
  \<open>fifo_list\<close> reads the queued bytes oldest first; the lemmas say that enqueueing appends
  to it, that dequeueing takes from its front, and that neither leaves the object.
\<close>

section \<open>Data and operations\<close>

record FifoBuffer =
  fb_data :: "u8 list"
  fb_write_index :: u32
  fb_read_index :: u32
  fb_capacity :: u32
  fb_used_bytes :: u32

definition fifobuffer_create :: "u32 \<Rightarrow> FifoBuffer" where
  "fifobuffer_create cap =
     \<lparr>fb_data = replicate (unat cap) 0, fb_write_index = 0, fb_read_index = 0,
      fb_capacity = cap, fb_used_bytes = 0\<rparr>"

definition fifobuffer_clear :: "FifoBuffer \<Rightarrow> FifoBuffer" where
  "fifobuffer_clear f =
     f\<lparr>fb_used_bytes := 0, fb_read_index := 0, fb_write_index := 0\<rparr>"

definition fifobuffer_is_empty :: "FifoBuffer \<Rightarrow> bool" where
  "fifobuffer_is_empty f = (0 = fb_used_bytes f)"

definition fifobuffer_get_size :: "FifoBuffer \<Rightarrow> u32" where
  "fifobuffer_get_size f = fb_used_bytes f"

definition fifobuffer_get_capacity :: "FifoBuffer \<Rightarrow> u32" where
  "fifobuffer_get_capacity f = fb_capacity f"

definition fifobuffer_get_free :: "FifoBuffer \<Rightarrow> u32" where
  "fifobuffer_get_free f = fb_capacity f - fb_used_bytes f"

text \<open>The assignments of one round of the enqueue loop, and of one round of the dequeue loop.\<close>

definition put_byte :: "FifoBuffer \<Rightarrow> u8 \<Rightarrow> FifoBuffer option" where
  "put_byte f c = do {
     dat \<leftarrow> wr (fb_data f) (unat (fb_write_index f)) c;
     Some (f\<lparr>fb_data := dat,
             fb_used_bytes := fb_used_bytes f + 1,
             fb_write_index := (fb_write_index f + 1) mod fb_capacity f\<rparr>)
   }"

definition take_byte :: "FifoBuffer \<Rightarrow> (u8 \<times> FifoBuffer) option" where
  "take_byte f = do {
     c \<leftarrow> rd (fb_data f) (unat (fb_read_index f));
     Some (c, f\<lparr>fb_used_bytes := fb_used_bytes f - 1,
                fb_read_index := (fb_read_index f + 1) mod fb_capacity f\<rparr>)
   }"

function enqueue_loop :: "FifoBuffer \<Rightarrow> u8 list \<Rightarrow> u32 \<Rightarrow> u32 \<Rightarrow> (FifoBuffer \<times> u32) option"
where
  "enqueue_loop f dat sz i =
     (if fb_used_bytes f < fb_capacity f \<and> i < sz then do {
        c \<leftarrow> rd dat (unat i);
        f' \<leftarrow> put_byte f c;
        enqueue_loop f' dat sz (i + 1)
      } else Some (f, i))"
  by pat_completeness auto
termination
  by (relation "measure (\<lambda>(f, dat, sz, i). unat sz - unat i)")
    (auto simp: unat_plus1_less word_less_nat_alt)

definition fifobuffer_enqueue :: "FifoBuffer \<Rightarrow> u8 list \<Rightarrow> u32 \<Rightarrow> (FifoBuffer \<times> i32) option"
where
  "fifobuffer_enqueue f dat sz =
     (if sz = 0 then Some (f, - 1) else enqueue_loop f dat sz 0)"

function dequeue_loop ::
  "FifoBuffer \<Rightarrow> u8 list \<Rightarrow> u32 \<Rightarrow> u32 \<Rightarrow> (FifoBuffer \<times> u8 list \<times> u32) option"
where
  "dequeue_loop f buf sz i =
     (if fb_used_bytes f > 0 \<and> i < sz then do {
        (c, f') \<leftarrow> take_byte f;
        buf' \<leftarrow> wr buf (unat i) c;
        dequeue_loop f' buf' sz (i + 1)
      } else Some (f, buf, i))"
  by pat_completeness auto
termination
  by (relation "measure (\<lambda>(f, buf, sz, i). unat sz - unat i)")
    (auto simp: unat_plus1_less word_less_nat_alt)

definition fifobuffer_dequeue ::
  "FifoBuffer \<Rightarrow> u8 list \<Rightarrow> u32 \<Rightarrow> (FifoBuffer \<times> u8 list \<times> i32) option"
where
  "fifobuffer_dequeue f buf sz =
     (if sz = 0 then Some (f, buf, - 1)
      else if 0 = fb_used_bytes f then Some (f, buf, 0)
      else dequeue_loop f buf sz 0)"

text \<open>
  The transfer loop ends because every round takes a byte from \<open>other\<close>; its counter is
  only the result.
\<close>

function enqueue_from_other_loop ::
  "FifoBuffer \<Rightarrow> FifoBuffer \<Rightarrow> u32 \<Rightarrow> (FifoBuffer \<times> FifoBuffer \<times> u32) option"
where
  "enqueue_from_other_loop f other i =
     (if fb_used_bytes f < fb_capacity f \<and> fb_used_bytes other > 0 then do {
        (c, other') \<leftarrow> take_byte other;
        f' \<leftarrow> put_byte f c;
        enqueue_from_other_loop f' other' (i + 1)
      } else Some (f, other, i))"
  by pat_completeness auto
termination
  by (relation "measure (\<lambda>(f, other, i). unat (fb_used_bytes other))")
    (auto simp: unat_minus1 word_less_nat_alt take_byte_def rd_def
      split: if_splits)

definition fifobuffer_enqueue_from_other ::
  "FifoBuffer \<Rightarrow> FifoBuffer \<Rightarrow> (FifoBuffer \<times> FifoBuffer \<times> i32) option"
where
  "fifobuffer_enqueue_from_other f other =
     (if fifobuffer_get_size other = 0 then Some (f, other, 0)
      else enqueue_from_other_loop f other 0)"

declare enqueue_loop.simps [simp del]
  and dequeue_loop.simps [simp del]
  and enqueue_from_other_loop.simps [simp del]

section \<open>Well-formed buffers and the queue they hold\<close>

definition fifo_inv :: "FifoBuffer \<Rightarrow> bool" where
  "fifo_inv f \<longleftrightarrow>
     length (fb_data f) = unat (fb_capacity f) \<and>
     fb_used_bytes f \<le> fb_capacity f \<and>
     (if fb_capacity f = 0 then fb_read_index f = 0 \<and> fb_write_index f = 0
      else fb_read_index f < fb_capacity f \<and>
           unat (fb_write_index f) =
             (unat (fb_read_index f) + unat (fb_used_bytes f)) mod unat (fb_capacity f))"

definition fifo_list :: "FifoBuffer \<Rightarrow> u8 list" where
  "fifo_list f =
     map (\<lambda>k. fb_data f ! ((unat (fb_read_index f) + k) mod unat (fb_capacity f)))
         [0..<unat (fb_used_bytes f)]"

definition fifo_cap :: "FifoBuffer \<Rightarrow> nat" where
  "fifo_cap f = unat (fb_capacity f)"

lemma length_fifo_list [simp]: "length (fifo_list f) = unat (fb_used_bytes f)"
  by (simp add: fifo_list_def)


lemma fifo_list_Nil: "fifo_list f = [] \<longleftrightarrow> fb_used_bytes f = 0"
  by (simp add: fifo_list_def unsigned_eq_0_iff)

lemma fifo_inv_used: "fifo_inv f \<Longrightarrow> unat (fb_used_bytes f) \<le> fifo_cap f"
  by (simp add: fifo_inv_def fifo_cap_def word_le_nat_alt)

lemma fifo_inv_create: "fifo_inv (fifobuffer_create c)"
  by (simp add: fifo_inv_def fifobuffer_create_def word_gt_0)

lemma fifo_list_create: "fifo_list (fifobuffer_create c) = []"
  by (simp add: fifo_list_def fifobuffer_create_def)

lemma fifo_inv_clear: "fifo_inv f \<Longrightarrow> fifo_inv (fifobuffer_clear f)"
  by (auto simp: fifo_inv_def fifobuffer_clear_def word_gt_0)

lemma fifo_list_clear: "fifo_list (fifobuffer_clear f) = []"
  by (simp add: fifo_list_def fifobuffer_clear_def)

lemma fifo_cap_clear [simp]: "fifo_cap (fifobuffer_clear f) = fifo_cap f"
  by (simp add: fifo_cap_def fifobuffer_clear_def)

lemma unat_get_free:
  "fifo_inv f \<Longrightarrow> unat (fifobuffer_get_free f) = fifo_cap f - length (fifo_list f)"
  by (simp add: fifo_inv_def fifobuffer_get_free_def fifo_cap_def unat_sub_le)

section \<open>One byte in, one byte out\<close>

lemma ring_step:
  fixes i c :: u32
  assumes "i < c"
  shows "unat ((i + 1) mod c) = Suc (unat i) mod unat c"
  using assms by (simp add: unat_mod_distrib unat_plus1_less)

lemma ring_slots_distinct:
  assumes "k < u" and "u < c"
  shows "(r + k) mod c \<noteq> (r + u) mod (c::nat)"
proof
  assume "(r + k) mod c = (r + u) mod c"
  then have "c dvd (r + u) - (r + k)"
    using assms by (metis add_le_cancel_left less_imp_le mod_eq_dvd_iff_nat)
  then have "c dvd u - k" by simp
  then show False
    using assms by (meson dvd_imp_le less_imp_diff_less not_le zero_less_diff)
qed

lemma put_byte_ok:
  assumes inv: "fifo_inv f" and room: "fb_used_bytes f < fb_capacity f"
  shows "ok (put_byte f c) (\<lambda>f'. fifo_inv f' \<and> fifo_list f' = fifo_list f @ [c] \<and>
           fb_capacity f' = fb_capacity f)"
proof -
  let ?n = "unat (fb_capacity f)" and ?r = "unat (fb_read_index f)"
    and ?u = "unat (fb_used_bytes f)" and ?w = "unat (fb_write_index f)"
  have cap: "fb_capacity f \<noteq> 0" and u: "?u < ?n"
    using room by (auto simp: word_less_nat_alt)
  have len: "length (fb_data f) = ?n" and r: "?r < ?n" and w: "?w = (?r + ?u) mod ?n"
    using inv cap by (auto simp: fifo_inv_def word_less_nat_alt)
  have wn: "?w < ?n" using u w by simp
  have su: "unat (fb_used_bytes f + 1) = Suc ?u"
    using room by (rule unat_plus1_less)
  have sw: "unat ((fb_write_index f + 1) mod fb_capacity f) = Suc ?w mod ?n"
    by (rule ring_step) (use wn in \<open>simp add: word_less_nat_alt\<close>)
  have slots: "map (\<lambda>k. (fb_data f)[?w := c] ! ((?r + k) mod ?n)) [0..<?u] =
      map (\<lambda>k. fb_data f ! ((?r + k) mod ?n)) [0..<?u]"
    by (rule map_cong) (auto simp: w ring_slots_distinct [THEN not_sym] u)
  show ?thesis
    using cap len r u w wn su sw slots room
    by (auto simp: put_byte_def ok_bind ok_wr fifo_inv_def fifo_list_def word_less_nat_alt
        word_le_nat_alt mod_Suc_eq)
qed

lemma take_byte_ok:
  assumes inv: "fifo_inv f" and used: "fb_used_bytes f > 0"
  shows "ok (take_byte f) (\<lambda>(c, f'). fifo_inv f' \<and> fifo_list f = c # fifo_list f' \<and>
           fb_capacity f' = fb_capacity f)"
proof -
  let ?n = "unat (fb_capacity f)" and ?r = "unat (fb_read_index f)"
    and ?u = "unat (fb_used_bytes f)" and ?w = "unat (fb_write_index f)"
  have u: "0 < ?u" "?u \<le> ?n" and n: "0 < ?n" and cap: "fb_capacity f \<noteq> 0"
    using inv used by (auto simp: fifo_inv_def word_le_nat_alt word_less_nat_alt)
  have len: "length (fb_data f) = ?n" and r: "?r < ?n" and w: "?w = (?r + ?u) mod ?n"
    using inv cap by (auto simp: fifo_inv_def word_less_nat_alt)
  have su: "unat (fb_used_bytes f - 1) = ?u - 1"
    using used by (rule unat_minus1)
  have sr: "unat ((fb_read_index f + 1) mod fb_capacity f) = Suc ?r mod ?n"
    by (rule ring_step) (use r in \<open>simp add: word_less_nat_alt\<close>)
  obtain m where m: "?u = Suc m" using u by (cases ?u) auto
  have wr: "?w = (Suc ?r mod ?n + m) mod ?n"
    using w m by (simp add: mod_add_left_eq)
  have slots: "map (\<lambda>k. fb_data f ! ((?r + k) mod ?n)) [0..<Suc m] =
      fb_data f ! ?r # map (\<lambda>k. fb_data f ! ((Suc ?r mod ?n + k) mod ?n)) [0..<m]"
    using r by (simp add: map_upt_Suc_first mod_add_left_eq del: upt_Suc)
  show ?thesis
    using cap len r u n m wr su sr slots
    by (auto simp: take_byte_def ok_bind ok_rd fifo_inv_def fifo_list_def word_less_nat_alt
        word_le_nat_alt simp del: upt_Suc)
qed

section \<open>The loops\<close>

lemma enqueue_loop_ok:
  assumes "fifo_inv f" and "unat sz \<le> length dat" and "i \<le> sz"
  shows "ok (enqueue_loop f dat sz i) (\<lambda>(f', n). fifo_inv f' \<and> fb_capacity f' = fb_capacity f \<and>
           (let k = min (fifo_cap f - length (fifo_list f)) (unat sz - unat i)
            in unat n = unat i + k \<and>
               fifo_list f' = fifo_list f @ take k (drop (unat i) dat)))"
  using assms
proof (induction f dat sz i rule: enqueue_loop.induct)
  case (1 f dat sz i)
  show ?case
  proof (cases "fb_used_bytes f < fb_capacity f \<and> i < sz")
    case True
    then have room: "fb_used_bytes f < fb_capacity f" and i: "unat i < unat sz"
      and i1: "unat (i + 1) = Suc (unat i)" "i + 1 \<le> sz"
      by (auto simp: word_less_nat_alt unat_plus1_less unat_plus1_le)
    have c: "rd dat (unat i) = Some (dat ! unat i)"
      using i "1.prems"(2) by (simp add: rd_def)
    from put_byte_ok [OF "1.prems"(1) room] obtain f' where
      f': "put_byte f (dat ! unat i) = Some f'" "fifo_inv f'"
        "fifo_list f' = fifo_list f @ [dat ! unat i]" "fb_capacity f' = fb_capacity f"
      by (rule okE) auto
    have used: "unat (fb_used_bytes f) < fifo_cap f"
      using room by (simp add: fifo_cap_def word_less_nat_alt)
    have len: "unat (fb_used_bytes f') = Suc (unat (fb_used_bytes f))"
      using f'(3) by (metis length_append_singleton length_fifo_list)
    have caps: "fifo_cap f' = fifo_cap f"
      using f'(4) by (simp add: fifo_cap_def)
    have k: "min (fifo_cap f - unat (fb_used_bytes f)) (unat sz - unat i) =
        Suc (min (fifo_cap f' - unat (fb_used_bytes f')) (unat sz - unat (i + 1)))"
      using used i i1 len caps by auto
    have tk: "take (Suc m) (drop (unat i) dat) =
        dat ! unat i # take m (drop (unat (i + 1)) dat)" for m
      using i i1 "1.prems"(2) by (simp add: Cons_nth_drop_Suc [symmetric])
    show ?thesis
      using "1.IH" [OF True c f'(1) f'(2) "1.prems"(2) i1(2)] True i1 f' c k tk len
      by (subst enqueue_loop.simps) (auto simp: Let_def elim!: ok_mono)
  next
    case False
    then have "min (fifo_cap f - unat (fb_used_bytes f)) (unat sz - unat i) = 0"
      by (auto simp: fifo_cap_def word_less_nat_alt)
    then show ?thesis
      using False "1.prems" by (subst enqueue_loop.simps) (auto simp: Let_def)
  qed
qed

lemma dequeue_loop_ok:
  assumes "fifo_inv f" and "unat sz \<le> length buf" and "i \<le> sz"
  shows "ok (dequeue_loop f buf sz i) (\<lambda>(f', buf', n).
           fifo_inv f' \<and> fb_capacity f' = fb_capacity f \<and>
           (let k = min (length (fifo_list f)) (unat sz - unat i)
            in unat n = unat i + k \<and> fifo_list f' = drop k (fifo_list f) \<and>
               buf' = take (unat i) buf @ take k (fifo_list f) @ drop (unat i + k) buf))"
  using assms
proof (induction f buf sz i rule: dequeue_loop.induct)
  case (1 f buf sz i)
  show ?case
  proof (cases "fb_used_bytes f > 0 \<and> i < sz")
    case True
    then have used: "fb_used_bytes f > 0" and i: "unat i < unat sz"
      and i1: "unat (i + 1) = Suc (unat i)" "i + 1 \<le> sz"
      by (auto simp: word_less_nat_alt unat_plus1_less unat_plus1_le)
    from take_byte_ok [OF "1.prems"(1) used] obtain c f' where
      f': "take_byte f = Some (c, f')" "fifo_inv f'" "fifo_list f = c # fifo_list f'"
        "fb_capacity f' = fb_capacity f"
      by (rule okE) auto
    let ?buf' = "buf[unat i := c]"
    have w: "wr buf (unat i) c = Some ?buf'" and lb: "unat i < length buf"
      using i "1.prems"(2) by (auto simp: wr_def)
    have len: "unat (fb_used_bytes f) = Suc (unat (fb_used_bytes f'))"
      using f'(3) by (metis length_Cons length_fifo_list)
    have k: "min (unat (fb_used_bytes f)) (unat sz - unat i) =
        Suc (min (unat (fb_used_bytes f')) (unat sz - unat (i + 1)))"
      using i i1 len by auto
    have bufs: "take (Suc (unat i)) ?buf' = take (unat i) buf @ [c]"
      "drop (Suc (unat i) + m) ?buf' = drop (Suc (unat i) + m) buf" for m
      using lb by (simp_all add: take_Suc_conv_app_nth)
    have lb': "unat sz \<le> length ?buf'" using "1.prems"(2) by simp
    show ?thesis
      using "1.IH" [OF True f'(1) refl w f'(2) lb' i1(2)] True i1 f' k bufs w len
      by (subst dequeue_loop.simps) (auto simp: Let_def elim!: ok_mono)
  next
    case False
    then have "min (unat (fb_used_bytes f)) (unat sz - unat i) = 0"
      by (auto simp: word_less_nat_alt)
    then show ?thesis
      using False "1.prems" by (subst dequeue_loop.simps) (auto simp: Let_def)
  qed
qed

lemma enqueue_from_other_loop_ok:
  assumes "fifo_inv f" and "fifo_inv other"
    and "unat i + unat (fb_used_bytes other) < 2 ^ 32"
  shows "ok (enqueue_from_other_loop f other i) (\<lambda>(f', other', n).
           fifo_inv f' \<and> fifo_inv other' \<and>
           fb_capacity f' = fb_capacity f \<and> fb_capacity other' = fb_capacity other \<and>
           (let k = min (fifo_cap f - length (fifo_list f)) (length (fifo_list other))
            in unat n = unat i + k \<and>
               fifo_list f' = fifo_list f @ take k (fifo_list other) \<and>
               fifo_list other' = drop k (fifo_list other)))"
  using assms
proof (induction f other i rule: enqueue_from_other_loop.induct)
  case (1 f other i)
  show ?case
  proof (cases "fb_used_bytes f < fb_capacity f \<and> fb_used_bytes other > 0")
    case True
    then have room: "fb_used_bytes f < fb_capacity f" and used: "fb_used_bytes other > 0"
      by auto
    from take_byte_ok [OF "1.prems"(2) used] obtain c other' where
      o': "take_byte other = Some (c, other')" "fifo_inv other'"
        "fifo_list other = c # fifo_list other'" "fb_capacity other' = fb_capacity other"
      by (rule okE) auto
    from put_byte_ok [OF "1.prems"(1) room] obtain f' where
      f': "put_byte f c = Some f'" "fifo_inv f'" "fifo_list f' = fifo_list f @ [c]"
        "fb_capacity f' = fb_capacity f"
      by (rule okE) auto
    have lens: "unat (fb_used_bytes other) = Suc (unat (fb_used_bytes other'))"
      "unat (fb_used_bytes f') = Suc (unat (fb_used_bytes f))"
      using o'(3) f'(3) by (metis length_Cons length_append_singleton length_fifo_list)+
    have i1: "unat (i + 1) = Suc (unat i)"
      using "1.prems"(3) lens by (simp add: unat_word_ariths)
    have bound: "unat (i + 1) + unat (fb_used_bytes other') < 2 ^ 32"
      using "1.prems"(3) lens i1 by simp
    have k: "fifo_cap f - unat (fb_used_bytes f) = Suc (fifo_cap f' - Suc (unat (fb_used_bytes f)))"
      using room f'(4) by (simp add: fifo_cap_def word_less_nat_alt)
    show ?thesis
      using "1.IH" [OF True o'(1) refl f'(1) f'(2) o'(2) bound] True i1 f' o' k lens
      by (subst enqueue_from_other_loop.simps) (auto simp: Let_def elim!: ok_mono)
  next
    case False
    then have "min (fifo_cap f - unat (fb_used_bytes f)) (unat (fb_used_bytes other)) = 0"
      by (auto simp: fifo_cap_def word_less_nat_alt word_gt_0)
    then show ?thesis
      using False "1.prems" by (subst enqueue_from_other_loop.simps) (auto simp: Let_def)
  qed
qed

section \<open>The operations\<close>

lemma fifobuffer_enqueue_ok:
  assumes "fifo_inv f" and "unat sz \<le> length dat" and "sz \<noteq> 0"
  shows "ok (fifobuffer_enqueue f dat sz) (\<lambda>(f', n). fifo_inv f' \<and> fifo_cap f' = fifo_cap f \<and>
           unat n = min (unat sz) (fifo_cap f - length (fifo_list f)) \<and>
           fifo_list f' = fifo_list f @ take (unat n) dat)"
  using enqueue_loop_ok [OF assms(1,2), of 0] assms(3)
  by (auto simp: fifobuffer_enqueue_def fifo_cap_def Let_def min.commute elim!: ok_mono)

lemma fifobuffer_dequeue_ok:
  assumes "fifo_inv f" and "unat sz \<le> length buf" and "sz \<noteq> 0"
  shows "ok (fifobuffer_dequeue f buf sz) (\<lambda>(f', buf', n). fifo_inv f' \<and> fifo_cap f' = fifo_cap f \<and>
           unat n = min (unat sz) (length (fifo_list f)) \<and>
           fifo_list f' = drop (unat n) (fifo_list f) \<and>
           buf' = take (unat n) (fifo_list f) @ drop (unat n) buf)"
  using dequeue_loop_ok [OF assms(1,2), of 0] assms
  by (auto simp: fifobuffer_dequeue_def fifo_cap_def fifo_list_Nil Let_def min.commute
      elim!: ok_mono)

lemma fifobuffer_enqueue_from_other_ok:
  assumes "fifo_inv f" and "fifo_inv other"
  shows "ok (fifobuffer_enqueue_from_other f other) (\<lambda>(f', other', n).
           fifo_inv f' \<and> fifo_inv other' \<and>
           fifo_cap f' = fifo_cap f \<and> fifo_cap other' = fifo_cap other \<and>
           unat n = min (fifo_cap f - length (fifo_list f)) (length (fifo_list other)) \<and>
           fifo_list f' = fifo_list f @ take (unat n) (fifo_list other) \<and>
           fifo_list other' = drop (unat n) (fifo_list other))"
  using enqueue_from_other_loop_ok [OF assms, of 0] assms u32_less [of "fb_used_bytes other"]
  by (auto simp: fifobuffer_enqueue_from_other_def fifobuffer_get_size_def fifo_cap_def Let_def
      fifo_list_Nil
      elim!: ok_mono)

section \<open>The interface of a byte queue\<close>

text \<open>
  What the clients of the buffer (messages, signals, terminals, pipes) rely on: a bounded
  queue of bytes whose operations never fault on buffers that are long enough, accept as
  many bytes as fit, and deliver the oldest first.
\<close>

locale byte_fifo =
  fixes inv :: "'q \<Rightarrow> bool"
    and cont :: "'q \<Rightarrow> u8 list"
    and cap :: "'q \<Rightarrow> nat"
    and enq :: "'q \<Rightarrow> u8 list \<Rightarrow> u32 \<Rightarrow> ('q \<times> i32) option"
    and deq :: "'q \<Rightarrow> u8 list \<Rightarrow> u32 \<Rightarrow> ('q \<times> u8 list \<times> i32) option"
  assumes bounded: "inv q \<Longrightarrow> length (cont q) \<le> cap q"
    and enq_ok: "inv q \<Longrightarrow> unat n \<le> length xs \<Longrightarrow> n \<noteq> 0 \<Longrightarrow>
      ok (enq q xs n) (\<lambda>(q', r). inv q' \<and> cap q' = cap q \<and>
        unat r = min (unat n) (cap q - length (cont q)) \<and> cont q' = cont q @ take (unat r) xs)"
    and deq_ok: "inv q \<Longrightarrow> unat n \<le> length buf \<Longrightarrow> n \<noteq> 0 \<Longrightarrow>
      ok (deq q buf n) (\<lambda>(q', buf', r). inv q' \<and> cap q' = cap q \<and>
        unat r = min (unat n) (length (cont q)) \<and> cont q' = drop (unat r) (cont q) \<and>
        buf' = take (unat r) (cont q) @ drop (unat r) buf)"

text \<open>
  A history of a queue: calls that enqueue a block and calls that dequeue up to so many
  bytes. A run yields the queue, the bytes accepted and the bytes delivered, in order.
\<close>

datatype fifo_op = Enqueue "u8 list" u32 | Dequeue "u8 list" u32

fun fifo_run ::
  "('q \<Rightarrow> u8 list \<Rightarrow> u32 \<Rightarrow> ('q \<times> i32) option) \<Rightarrow>
   ('q \<Rightarrow> u8 list \<Rightarrow> u32 \<Rightarrow> ('q \<times> u8 list \<times> i32) option) \<Rightarrow>
   'q \<Rightarrow> fifo_op list \<Rightarrow> ('q \<times> u8 list \<times> u8 list) option"
where
  "fifo_run enq deq q [] = Some (q, [], [])"
| "fifo_run enq deq q (Enqueue xs n # ops) = do {
     (q', r) \<leftarrow> enq q xs n;
     (q'', ins, outs) \<leftarrow> fifo_run enq deq q' ops;
     Some (q'', take (unat r) xs @ ins, outs)
   }"
| "fifo_run enq deq q (Dequeue buf n # ops) = do {
     (q', buf', r) \<leftarrow> deq q buf n;
     (q'', ins, outs) \<leftarrow> fifo_run enq deq q' ops;
     Some (q'', ins, take (unat r) buf' @ outs)
   }"

fun op_fits :: "fifo_op \<Rightarrow> bool" where
  "op_fits (Enqueue xs n) = (n \<noteq> 0 \<and> unat n \<le> length xs)"
| "op_fits (Dequeue buf n) = (n \<noteq> 0 \<and> unat n \<le> length buf)"

context byte_fifo begin

lemma run_order:
  assumes "inv q" and "list_all op_fits ops"
  shows "ok (fifo_run enq deq q ops) (\<lambda>(q', ins, outs). inv q' \<and> cap q' = cap q \<and>
           cont q @ ins = outs @ cont q')"
  using assms
proof (induction ops arbitrary: q)
  case Nil
  then show ?case by simp
next
  case (Cons op ops)
  show ?case
  proof (cases op)
    case (Enqueue xs n)
    then have "unat n \<le> length xs" "n \<noteq> 0" using Cons.prems(2) by auto
    from enq_ok [OF Cons.prems(1) this] obtain q' r where
      q': "enq q xs n = Some (q', r)" "inv q'" "cap q' = cap q"
        "cont q' = cont q @ take (unat r) xs"
      by (rule okE) auto
    show ?thesis
      using Cons.IH [OF q'(2)] Cons.prems q' Enqueue
      by (auto simp: ok_bind elim!: ok_mono)
  next
    case (Dequeue buf n)
    then have "unat n \<le> length buf" "n \<noteq> 0" using Cons.prems(2) by auto
    from deq_ok [OF Cons.prems(1) this] obtain q' buf' r where
      q': "deq q buf n = Some (q', buf', r)" "inv q'" "cap q' = cap q"
        "unat r = min (unat n) (length (cont q))" "cont q' = drop (unat r) (cont q)"
        "buf' = take (unat r) (cont q) @ drop (unat r) buf"
      by (rule okE) auto
    have out: "take (unat r) buf' = take (unat r) (cont q)"
      using q'(4,6) by simp
    have split: "cont q = take (unat r) (cont q) @ cont q'"
      using q'(5) by simp
    show ?thesis
      using Cons.IH [OF q'(2)] Cons.prems q'(1,3) out split Dequeue
      by (auto simp: ok_bind elim!: ok_mono) (metis append_assoc)
  qed
qed

lemma enq_then_deq:
  assumes "inv q" and "cont q = []" and "length xs \<le> cap q" and "xs \<noteq> []"
    and "unat n = length xs" and "length buf = length xs"
  shows "ok (enq q xs n) (\<lambda>(q', r). r = n \<and>
           ok (deq q' buf n) (\<lambda>(q'', buf', r'). r' = n \<and> buf' = xs \<and> cont q'' = [] \<and> inv q''))"
proof -
  have n: "n \<noteq> 0" "unat n \<le> length xs" using assms(4,5) by auto
  from enq_ok [OF assms(1) n(2,1)] obtain q' r where
    q': "enq q xs n = Some (q', r)" "inv q'" "unat r = length xs" "cont q' = take (unat r) xs"
    using assms by (auto elim!: okE)
  have "unat n \<le> length buf" using assms by simp
  from deq_ok [OF q'(2) this n(1)] obtain q'' buf' r' where
    q'': "deq q' buf n = Some (q'', buf', r')" "inv q''" "unat r' = length xs"
      "cont q'' = []" "buf' = xs"
    using assms q' by (auto elim!: okE)
  have "r = n" "r' = n" using q'(3) q''(3) assms(5) by (metis word_unat_eq_iff)+
  then show ?thesis using q' q'' by simp
qed

end

interpretation fb: byte_fifo fifo_inv fifo_list fifo_cap fifobuffer_enqueue fifobuffer_dequeue
proof unfold_locales
  show "fifo_inv q \<Longrightarrow> length (fifo_list q) \<le> fifo_cap q" for q
    by (simp add: fifo_inv_used)
qed (fact fifobuffer_enqueue_ok fifobuffer_dequeue_ok)+

section \<open>Properties\<close>

text \<open>
  On a well-formed buffer, \<open>fifobuffer_enqueue\<close> never accesses memory outside the ring
  or outside the caller's block, accepts exactly as many bytes as fit, appends them in
  order, and keeps the buffer well-formed.
\<close>

theorem fifobuffer_enqueue_correct:
  assumes "fifo_inv f" and "unat sz \<le> length dat" and "sz \<noteq> 0"
  shows "\<exists>f' n. fifobuffer_enqueue f dat sz = Some (f', n) \<and> fifo_inv f' \<and>
           fifobuffer_get_capacity f' = fifobuffer_get_capacity f \<and>
           unat n = min (unat sz) (unat (fifobuffer_get_free f)) \<and>
           fifo_list f' = fifo_list f @ take (unat n) dat"
  using fifobuffer_enqueue_ok [OF assms] unat_get_free [OF assms(1)]
  by (auto simp: ok_iff fifo_cap_def fifobuffer_get_capacity_def word_unat_eq_iff)

theorem fifobuffer_enqueue_correct_witness:
  "\<exists>f' n. fifobuffer_enqueue (fifobuffer_create 2) [7, 8, 9] 3 = Some (f', n) \<and> fifo_inv f' \<and>
     unat n = 2 \<and> fifo_list f' = [7, 8]"
proof -
  have free: "unat (fifobuffer_get_free (fifobuffer_create 2)) = 2"
    by (simp add: fifobuffer_get_free_def fifobuffer_create_def)
  have two: "take 2 [7, 8, 9 :: u8] = [7, 8]"
    by (simp add: numeral_2_eq_2)
  show ?thesis
    using fifobuffer_enqueue_correct [OF fifo_inv_create [of 2], of 3 "[7, 8, 9]"] free two
    by (auto simp: fifo_list_create)
qed

text \<open>
  On a well-formed buffer, \<open>fifobuffer_dequeue\<close> delivers the oldest bytes, at most
  \<open>sz\<close> of them, into the front of the caller's buffer, leaves the rest of that buffer and
  of the queue as they were, and never accesses memory outside either.
\<close>

theorem fifobuffer_dequeue_correct:
  assumes "fifo_inv f" and "unat sz \<le> length buf" and "sz \<noteq> 0"
  shows "\<exists>f' buf' n. fifobuffer_dequeue f buf sz = Some (f', buf', n) \<and> fifo_inv f' \<and>
           unat n = min (unat sz) (unat (fifobuffer_get_size f)) \<and>
           buf' = take (unat n) (fifo_list f) @ drop (unat n) buf \<and>
           fifo_list f = take (unat n) (fifo_list f) @ fifo_list f'"
  using fifobuffer_dequeue_ok [OF assms] by (auto simp: ok_iff fifobuffer_get_size_def)

theorem fifobuffer_dequeue_correct_witness:
  "\<exists>f' buf' n. fifobuffer_dequeue (fifobuffer_create 2) [5] 1 = Some (f', buf', n) \<and>
     fifo_inv f' \<and> buf' = [5]"
proof -
  have "fifobuffer_get_size (fifobuffer_create 2) = 0"
    by (simp add: fifobuffer_get_size_def fifobuffer_create_def)
  then show ?thesis
    using fifobuffer_dequeue_correct [OF fifo_inv_create [of 2], of 1 "[5]"]
    by (auto simp: fifo_list_create)
qed

text \<open>
  C25: the buffer is a queue: over any history of enqueue and dequeue calls that pass blocks
  of the size they announce, no call faults, and the bytes accepted so far are the bytes
  delivered so far followed by the bytes still queued, in the same order.
\<close>

theorem fifobuffer_fifo_order:
  assumes "fifo_inv f" and "list_all op_fits ops"
  shows "\<exists>f' ins outs. fifo_run fifobuffer_enqueue fifobuffer_dequeue f ops = Some (f', ins, outs) \<and>
           fifo_inv f' \<and> fifo_list f @ ins = outs @ fifo_list f'"
  using fb.run_order [OF assms] by (auto simp: ok_iff)

theorem fifobuffer_fifo_order_witness:
  "\<exists>f' ins outs. fifo_run fifobuffer_enqueue fifobuffer_dequeue (fifobuffer_create 2)
     [Enqueue [1, 2, 3] 3, Dequeue [0] 1, Enqueue [4, 5] 2, Dequeue [0, 0, 0] 3] =
     Some (f', ins, outs) \<and> ins = outs @ fifo_list f'"
  using fifobuffer_fifo_order [OF fifo_inv_create [of 2],
    of "[Enqueue [1, 2, 3] 3, Dequeue [0] 1, Enqueue [4, 5] 2, Dequeue [0, 0, 0] 3]"]
  by (fastforce simp: fifo_list_create)

text \<open>
  \<open>fifobuffer_enqueue_from_other\<close> moves the oldest bytes of one buffer to the end of
  another, as many as fit; what it takes from one it adds to the other, in order.
\<close>

theorem fifobuffer_transfer_correct:
  assumes "fifo_inv f" and "fifo_inv other"
  shows "\<exists>f' other' n. fifobuffer_enqueue_from_other f other = Some (f', other', n) \<and>
           fifo_inv f' \<and> fifo_inv other' \<and>
           unat n = min (unat (fifobuffer_get_free f)) (unat (fifobuffer_get_size other)) \<and>
           fifo_list f' = fifo_list f @ take (unat n) (fifo_list other) \<and>
           fifo_list other = take (unat n) (fifo_list other) @ fifo_list other'"
  using fifobuffer_enqueue_from_other_ok [OF assms] unat_get_free [OF assms(1)]
  by (auto simp: ok_iff fifobuffer_get_size_def)

theorem fifobuffer_transfer_correct_witness:
  "\<exists>f' other' n. fifobuffer_enqueue_from_other (fifobuffer_create 2) (fifobuffer_create 3) =
     Some (f', other', n) \<and> fifo_inv f' \<and> fifo_list f' = []"
  using fifobuffer_transfer_correct [OF fifo_inv_create [of 2] fifo_inv_create [of 3]]
  by (auto simp: fifo_list_create)

end
