(* ===== verification/HashTable.thy ===== *)
theory HashTable
  imports Prelude
begin

text \<open>
  \<^verbatim>\<open>kernel/hashtable.c\<close>: an open-addressing table with linear probing. A removed cell
  is only marked unused, and a search walks all \<open>capacity\<close> cells, so it does not stop at a
  gap. The table refines a bounded map \<open>ht_map\<close>.
\<close>

section \<open>Data and operations\<close>

record DataItem =
  di_data :: u32
  di_key :: u32
  di_used :: u8

record HashTable =
  ht_items :: "DataItem list"
  ht_capacity :: u32

text \<open>\<^verbatim>\<open>key % capacity\<close> traps for a table without cells.\<close>

definition hash_code :: "HashTable \<Rightarrow> u32 \<Rightarrow> u32 option" where
  "hash_code t key = (if ht_capacity t = 0 then None else Some (key mod ht_capacity t))"

text \<open>
  The table structure is zeroed but the cells are not: \<open>junk\<close> is what \<^verbatim>\<open>kmalloc\<close>
  returned.
\<close>

definition hashtable_create :: "u32 \<Rightarrow> DataItem list \<Rightarrow> HashTable" where
  "hashtable_create cap junk = \<lparr>ht_items = junk, ht_capacity = cap\<rparr>"

text \<open>
  The probing loop that searching and inserting share: from \<open>hash_index\<close> on, at most
  \<open>capacity\<close> cells, to the first cell that passes the test.
\<close>

function probe :: "(DataItem \<Rightarrow> bool) \<Rightarrow> HashTable \<Rightarrow> u32 \<Rightarrow> u32 \<Rightarrow> u32 option option" where
  "probe P t hash_index counter =
     (if counter < ht_capacity t then do {
        it \<leftarrow> rd (ht_items t) (unat hash_index);
        if P it then Some (Some hash_index)
        else probe P t ((hash_index + 1) mod ht_capacity t) (counter + 1)
      } else Some None)"
  by pat_completeness auto
termination
  by (relation "measure (\<lambda>(P, t, h, c). unat (ht_capacity t) - unat c)")
    (auto simp: unat_plus1_less word_less_nat_alt)

declare probe.simps [simp del]

definition HashTable_search_internal :: "HashTable \<Rightarrow> u32 \<Rightarrow> u32 option option" where
  "HashTable_search_internal t key = do {
     h \<leftarrow> hash_code t key;
     probe (\<lambda>it. di_key it = key \<and> di_used it = 1) t h 0
   }"

text \<open>\<open>Some v\<close> is \<^verbatim>\<open>TRUE\<close> with \<open>*value = v\<close>, \<open>None\<close> is \<^verbatim>\<open>FALSE\<close>.\<close>

definition hashtable_search :: "HashTable \<Rightarrow> u32 \<Rightarrow> u32 option option" where
  "hashtable_search t key = do {
     r \<leftarrow> HashTable_search_internal t key;
     case r of
       Some i \<Rightarrow> do { it \<leftarrow> rd (ht_items t) (unat i); Some (Some (di_data it)) }
     | None \<Rightarrow> Some None
   }"

definition hashtable_insert :: "HashTable \<Rightarrow> u32 \<Rightarrow> u32 \<Rightarrow> (HashTable \<times> bool) option" where
  "hashtable_insert t key data = do {
     r \<leftarrow> HashTable_search_internal t key;
     case r of
       Some i \<Rightarrow> do {
         it \<leftarrow> rd (ht_items t) (unat i);
         its \<leftarrow> wr (ht_items t) (unat i) (it\<lparr>di_data := data\<rparr>);
         Some (t\<lparr>ht_items := its\<rparr>, True)
       }
     | None \<Rightarrow> do {
         h \<leftarrow> hash_code t key;
         r' \<leftarrow> probe (\<lambda>it. di_used it = 0) t h 0;
         case r' of
           Some i \<Rightarrow> do {
             its \<leftarrow> wr (ht_items t) (unat i) \<lparr>di_data = data, di_key = key, di_used = 1\<rparr>;
             Some (t\<lparr>ht_items := its\<rparr>, True)
           }
         | None \<Rightarrow> Some (t, False)
       }
   }"

definition hashtable_remove :: "HashTable \<Rightarrow> u32 \<Rightarrow> (HashTable \<times> bool) option" where
  "hashtable_remove t key = do {
     r \<leftarrow> HashTable_search_internal t key;
     case r of
       Some i \<Rightarrow> do {
         it \<leftarrow> rd (ht_items t) (unat i);
         its \<leftarrow> wr (ht_items t) (unat i) (it\<lparr>di_used := 0\<rparr>);
         Some (t\<lparr>ht_items := its\<rparr>, True)
       }
     | None \<Rightarrow> Some (t, False)
   }"

section \<open>Well-formed tables and the map they hold\<close>

definition live :: "DataItem \<Rightarrow> bool" where
  "live it \<longleftrightarrow> di_used it = 1"

definition ht_inv :: "HashTable \<Rightarrow> bool" where
  "ht_inv t \<longleftrightarrow>
     ht_capacity t \<noteq> 0 \<and> length (ht_items t) = unat (ht_capacity t) \<and>
     (\<forall>it \<in> set (ht_items t). di_used it = 0 \<or> di_used it = 1) \<and>
     (\<forall>i < length (ht_items t). \<forall>j < length (ht_items t).
        live (ht_items t ! i) \<and> live (ht_items t ! j) \<and>
        di_key (ht_items t ! i) = di_key (ht_items t ! j) \<longrightarrow> i = j)"

definition ht_map :: "HashTable \<Rightarrow> u32 \<rightharpoonup> u32" where
  "ht_map t k = map_option di_data (find (\<lambda>it. live it \<and> di_key it = k) (ht_items t))"

definition ht_full :: "HashTable \<Rightarrow> bool" where
  "ht_full t \<longleftrightarrow> list_all live (ht_items t)"

lemma ht_inv_unique:
  "ht_inv t \<Longrightarrow> i < length (ht_items t) \<Longrightarrow> j < length (ht_items t) \<Longrightarrow>
   live (ht_items t ! i) \<Longrightarrow> live (ht_items t ! j) \<Longrightarrow>
   di_key (ht_items t ! i) = di_key (ht_items t ! j) \<Longrightarrow> i = j"
  unfolding ht_inv_def by blast

lemma ht_map_Some_iff:
  assumes "ht_inv t"
  shows "ht_map t k = Some v \<longleftrightarrow> (\<exists>i < length (ht_items t). live (ht_items t ! i) \<and>
           di_key (ht_items t ! i) = k \<and> di_data (ht_items t ! i) = v)"
    (is "_ \<longleftrightarrow> ?R")
proof
  assume "ht_map t k = Some v"
  then show ?R
    by (auto simp: ht_map_def find_Some_iff)
next
  assume ?R
  then obtain i where i: "i < length (ht_items t)" "live (ht_items t ! i)"
    "di_key (ht_items t ! i) = k" "di_data (ht_items t ! i) = v" by blast
  then obtain it where it: "find (\<lambda>it. live it \<and> di_key it = k) (ht_items t) = Some it"
    by (metis (mono_tags, lifting) find_None_iff nth_mem option.exhaust)
  then obtain j where "j < length (ht_items t)" "live (ht_items t ! j)"
    "di_key (ht_items t ! j) = k" "it = ht_items t ! j"
    by (auto simp: find_Some_iff)
  with i assms have "it = ht_items t ! i"
    unfolding ht_inv_def by metis
  with it i show "ht_map t k = Some v" by (simp add: ht_map_def)
qed

lemma ht_map_None_iff:
  "ht_map t k = None \<longleftrightarrow>
     (\<forall>i < length (ht_items t). \<not> (live (ht_items t ! i) \<and> di_key (ht_items t ! i) = k))"
  by (auto simp: ht_map_def find_None_iff in_set_conv_nth)

lemma option_eqI: "(\<And>v. a = Some v \<longleftrightarrow> b = Some v) \<Longrightarrow> a = b"
  by (metis not_Some_eq)

section \<open>Probing\<close>

lemma probe_ok:
  assumes "length (ht_items t) = unat (ht_capacity t)" and "h < ht_capacity t"
    and "c \<le> ht_capacity t"
  shows "ok (probe P t h c) (\<lambda>r. case r of
           Some i \<Rightarrow> i < ht_capacity t \<and> P (ht_items t ! unat i)
         | None \<Rightarrow> \<forall>j < unat (ht_capacity t) - unat c.
             \<not> P (ht_items t ! ((unat h + j) mod unat (ht_capacity t))))"
  using assms
proof (induction P t h c rule: probe.induct)
  case (1 P t h c)
  let ?n = "unat (ht_capacity t)"
  show ?case
  proof (cases "c < ht_capacity t")
    case True
    have h: "unat h < ?n" using "1.prems"(2) by (simp add: word_less_nat_alt)
    have it: "rd (ht_items t) (unat h) = Some (ht_items t ! unat h)"
      using "1.prems"(1) h by (simp add: rd_def)
    have c1: "unat (c + 1) = Suc (unat c)" "c + 1 \<le> ht_capacity t"
      using True by (auto simp: unat_plus1_less unat_plus1_le)
    have h1: "unat ((h + 1) mod ht_capacity t) = Suc (unat h) mod ?n"
      using "1.prems"(2) by (simp add: unat_mod_distrib unat_plus1_less)
    have h2: "(h + 1) mod ht_capacity t < ht_capacity t"
      using h by (simp add: word_less_nat_alt h1)
    have step: "\<not> P (ht_items t ! unat h) \<Longrightarrow>
        \<forall>j < ?n - unat (c + 1). \<not> P (ht_items t ! ((Suc (unat h) mod ?n + j) mod ?n)) \<Longrightarrow>
        \<forall>j < ?n - unat c. \<not> P (ht_items t ! ((unat h + j) mod ?n))"
    proof (intro allI impI)
      fix j
      assume np: "\<not> P (ht_items t ! unat h)"
        and rest: "\<forall>j < ?n - unat (c + 1). \<not> P (ht_items t ! ((Suc (unat h) mod ?n + j) mod ?n))"
        and j: "j < ?n - unat c"
      show "\<not> P (ht_items t ! ((unat h + j) mod ?n))"
      proof (cases j)
        case 0
        with np h show ?thesis by simp
      next
        case (Suc m)
        with j c1 have "m < ?n - unat (c + 1)" by simp
        with rest have "\<not> P (ht_items t ! ((Suc (unat h) mod ?n + m) mod ?n))" by blast
        then show ?thesis using Suc by (simp add: mod_add_left_eq)
      qed
    qed
    show ?thesis
      using "1.IH" [OF True it _ "1.prems"(1) h2 c1(2)] True it step h1 "1.prems"(2)
      by (subst probe.simps) (auto elim!: ok_mono split: option.splits)
  next
    case False
    then show ?thesis
      by (subst probe.simps) (auto simp: word_less_nat_alt)
  qed
qed

text \<open>A full round of probing visits every cell.\<close>

lemma all_cells_visited:
  assumes "i < n" and "h < (n::nat)"
  shows "\<exists>j < n. (h + j) mod n = i"
proof (cases "h \<le> i")
  case True
  with assms show ?thesis by (intro exI [of _ "i - h"]) auto
next
  case False
  with assms have "(h + (n - h + i)) mod n = i" and "n - h + i < n" by auto
  then show ?thesis by blast
qed

lemma probe_round:
  assumes "ht_inv t"
  shows "ok (probe P t (key mod ht_capacity t) 0) (\<lambda>r. case r of
           Some i \<Rightarrow> i < ht_capacity t \<and> P (ht_items t ! unat i)
         | None \<Rightarrow> \<forall>i < length (ht_items t). \<not> P (ht_items t ! i))"
proof -
  have n: "unat (ht_capacity t) > 0" "length (ht_items t) = unat (ht_capacity t)"
    using assms by (auto simp: ht_inv_def unat_gt_0)
  have h: "key mod ht_capacity t < ht_capacity t" "unat (key mod ht_capacity t) < unat (ht_capacity t)"
    using n by (simp_all add: word_less_nat_alt unat_mod_distrib)
  have cells: "\<forall>j < unat (ht_capacity t).
      \<not> P (ht_items t ! ((unat (key mod ht_capacity t) + j) mod unat (ht_capacity t))) \<Longrightarrow>
      \<forall>i < length (ht_items t). \<not> P (ht_items t ! i)"
    using all_cells_visited [OF _ h(2)] n(2) by metis
  show ?thesis
    using probe_ok [OF n(2) h(1), of 0 P] cells
    by (auto elim!: ok_mono split: option.splits)
qed

lemma search_internal_ok:
  assumes "ht_inv t"
  shows "ok (HashTable_search_internal t key) (\<lambda>r. case r of
           Some i \<Rightarrow> unat i < length (ht_items t) \<and> live (ht_items t ! unat i) \<and>
             di_key (ht_items t ! unat i) = key
         | None \<Rightarrow> ht_map t key = None)"
proof -
  have "ht_capacity t \<noteq> 0" "length (ht_items t) = unat (ht_capacity t)"
    using assms by (auto simp: ht_inv_def)
  then show ?thesis
    using probe_round [OF assms, of "\<lambda>it. di_key it = key \<and> di_used it = 1" key]
    by (auto simp: HashTable_search_internal_def hash_code_def live_def ht_map_None_iff
        word_less_nat_alt elim!: ok_mono split: option.splits)
qed

section \<open>The operations on the map\<close>

lemma hashtable_search_ok:
  assumes "ht_inv t"
  shows "hashtable_search t key = Some (ht_map t key)"
proof -
  from search_internal_ok [OF assms, of key] obtain r where
    r: "HashTable_search_internal t key = Some r" and
    post: "case r of Some i \<Rightarrow> unat i < length (ht_items t) \<and> live (ht_items t ! unat i) \<and>
             di_key (ht_items t ! unat i) = key
         | None \<Rightarrow> ht_map t key = None"
    by (rule okE)
  show ?thesis
  proof (cases r)
    case None
    with r post show ?thesis by (simp add: hashtable_search_def)
  next
    case (Some i)
    with post have i: "unat i < length (ht_items t)" "live (ht_items t ! unat i)"
      "di_key (ht_items t ! unat i) = key" by auto
    then have "ht_map t key = Some (di_data (ht_items t ! unat i))"
      by (subst ht_map_Some_iff [OF assms]) blast
    with r Some i show ?thesis by (simp add: hashtable_search_def rd_def)
  qed
qed

text \<open>Replacing a cell keeps the table well-formed when the key stays unique.\<close>

lemma ht_inv_update:
  assumes "ht_inv t" and "i < length (ht_items t)" and "di_used x = 0 \<or> di_used x = 1"
    and "live x \<Longrightarrow> \<forall>j < length (ht_items t). j \<noteq> i \<longrightarrow>
           \<not> (live (ht_items t ! j) \<and> di_key (ht_items t ! j) = di_key x)"
  shows "ht_inv (t\<lparr>ht_items := (ht_items t)[i := x]\<rparr>)"
  using assms unfolding ht_inv_def
  by (auto simp: nth_list_update dest: set_update_subset_insert [THEN subsetD] split: if_splits)

lemma ht_map_update:
  assumes "ht_inv t" and "i < length (ht_items t)"
    and "ht_inv (t\<lparr>ht_items := (ht_items t)[i := x]\<rparr>)"
    and "live x \<or> live (ht_items t ! i)"
    and "live (ht_items t ! i) \<Longrightarrow> di_key (ht_items t ! i) = di_key x"
  shows "ht_map (t\<lparr>ht_items := (ht_items t)[i := x]\<rparr>) =
           (ht_map t)(di_key x := if live x then Some (di_data x) else None)"
proof (rule ext, rule option_eqI)
  fix k v
  let ?xs = "ht_items t" and ?ys = "(ht_items t)[i := x]"
  have other: "di_key (?xs ! j) \<noteq> di_key x" if "j < length ?xs" "j \<noteq> i" "live (?xs ! j)" for j
  proof (cases "live x")
    case True
    show ?thesis
      using ht_inv_unique [OF assms(3), of i j] that True assms(2) by auto
  next
    case False
    with assms(4,5) have "live (?xs ! i)" "di_key (?xs ! i) = di_key x" by auto
    with that assms(2) show ?thesis
      using ht_inv_unique [OF assms(1), of i j] by auto
  qed
  have at_i: "?ys ! j = (if j = i then x else ?xs ! j)" for j
    using assms(2) by (cases "j < length ?xs") auto
  have "(\<exists>j < length ?xs. live (?ys ! j) \<and> di_key (?ys ! j) = k \<and> di_data (?ys ! j) = v) \<longleftrightarrow>
        (if k = di_key x then live x \<and> di_data x = v
         else \<exists>j < length ?xs. live (?xs ! j) \<and> di_key (?xs ! j) = k \<and> di_data (?xs ! j) = v)"
  proof (cases "k = di_key x")
    case True
    then show ?thesis using other assms(2) by (auto simp: at_i split: if_splits)
  next
    case False
    then show ?thesis using assms(5) by (auto simp: at_i) metis
  qed
  then show "ht_map (t\<lparr>ht_items := (ht_items t)[i := x]\<rparr>) k = Some v \<longleftrightarrow>
      ((ht_map t)(di_key x := if live x then Some (di_data x) else None)) k = Some v"
    using ht_map_Some_iff [OF assms(1), of k v] ht_map_Some_iff [OF assms(3), of k v] by auto
qed

lemma live_or_unused: "ht_inv t \<Longrightarrow> i < length (ht_items t) \<Longrightarrow>
    live (ht_items t ! i) \<longleftrightarrow> di_used (ht_items t ! i) \<noteq> 0"
  by (auto simp: ht_inv_def live_def)

lemma ht_store:
  assumes inv: "ht_inv t" and i: "i < length (ht_items t)" and key: "di_key x = key"
    and used: "di_used x = 1"
    and cell: "live (ht_items t ! i) \<and> di_key (ht_items t ! i) = key \<or>
               \<not> live (ht_items t ! i) \<and> ht_map t key = None"
  shows "ht_inv (t\<lparr>ht_items := (ht_items t)[i := x]\<rparr>)"
    and "ht_map (t\<lparr>ht_items := (ht_items t)[i := x]\<rparr>) = (ht_map t)(key \<mapsto> di_data x)"
proof -
  have "\<not> (live (ht_items t ! j) \<and> di_key (ht_items t ! j) = di_key x)"
    if "j < length (ht_items t)" "j \<noteq> i" for j
    using cell that ht_inv_unique [OF inv i, of j] key by (auto simp: ht_map_None_iff)
  then show inv': "ht_inv (t\<lparr>ht_items := (ht_items t)[i := x]\<rparr>)"
    using ht_inv_update [OF inv i, of x] used by blast
  show "ht_map (t\<lparr>ht_items := (ht_items t)[i := x]\<rparr>) = (ht_map t)(key \<mapsto> di_data x)"
    using ht_map_update [OF inv i inv'] cell key used by (auto simp: live_def)
qed

lemma hashtable_insert_ok:
  assumes inv: "ht_inv t"
  shows "ok (hashtable_insert t key v) (\<lambda>(t', done). ht_inv t' \<and>
           ht_capacity t' = ht_capacity t \<and>
           (if ht_map t key = None \<and> ht_full t then \<not> done \<and> t' = t
            else done \<and> ht_map t' = (ht_map t)(key \<mapsto> v)))"
proof -
  from search_internal_ok [OF inv, of key] obtain r where
    r: "HashTable_search_internal t key = Some r" and
    post: "case r of Some i \<Rightarrow> unat i < length (ht_items t) \<and> live (ht_items t ! unat i) \<and>
             di_key (ht_items t ! unat i) = key
         | None \<Rightarrow> ht_map t key = None"
    by (rule okE)
  show ?thesis
  proof (cases r)
    case (Some i)
    let ?x = "(ht_items t ! unat i)\<lparr>di_data := v\<rparr>"
    from Some post have i: "unat i < length (ht_items t)" "live (ht_items t ! unat i)"
      "di_key (ht_items t ! unat i) = key" by auto
    then have present: "ht_map t key \<noteq> None"
      by (auto simp: ht_map_None_iff)
    show ?thesis
      using ht_store [OF inv i(1), of ?x key] i r Some present
      by (simp add: hashtable_insert_def rd_def wr_def live_def)
  next
    case None
    with post have absent: "ht_map t key = None" by simp
    from probe_round [OF inv, of "\<lambda>it. di_used it = 0" key] obtain s where
      s: "probe (\<lambda>it. di_used it = 0) t (key mod ht_capacity t) 0 = Some s" and
      slot: "case s of Some i \<Rightarrow> i < ht_capacity t \<and> di_used (ht_items t ! unat i) = 0
        | None \<Rightarrow> \<forall>i < length (ht_items t). di_used (ht_items t ! i) \<noteq> 0"
      by (rule okE)
    have h: "hash_code t key = Some (key mod ht_capacity t)"
      and len: "length (ht_items t) = unat (ht_capacity t)"
      using inv by (auto simp: hash_code_def ht_inv_def)
    show ?thesis
    proof (cases s)
      case (Some i)
      with slot len have i: "unat i < length (ht_items t)" "\<not> live (ht_items t ! unat i)"
        by (auto simp: word_less_nat_alt live_def)
      then have "\<not> ht_full t" by (auto simp: ht_full_def list_all_length)
      then show ?thesis
        using ht_store [OF inv i(1), of "\<lparr>di_data = v, di_key = key, di_used = 1\<rparr>" key]
          i absent r h s Some \<open>r = None\<close>
        by (simp add: hashtable_insert_def wr_def)
    next
      case None
      with slot inv have "ht_full t"
        by (simp add: ht_full_def list_all_length live_or_unused)
      then show ?thesis
        using r h s None \<open>r = None\<close> absent inv by (simp add: hashtable_insert_def)
    qed
  qed
qed

lemma hashtable_remove_ok:
  assumes inv: "ht_inv t"
  shows "ok (hashtable_remove t key) (\<lambda>(t', done). ht_inv t' \<and>
           ht_capacity t' = ht_capacity t \<and>
           done = (ht_map t key \<noteq> None) \<and> ht_map t' = (ht_map t)(key := None))"
proof -
  from search_internal_ok [OF inv, of key] obtain r where
    r: "HashTable_search_internal t key = Some r" and
    post: "case r of Some i \<Rightarrow> unat i < length (ht_items t) \<and> live (ht_items t ! unat i) \<and>
             di_key (ht_items t ! unat i) = key
         | None \<Rightarrow> ht_map t key = None"
    by (rule okE)
  show ?thesis
  proof (cases r)
    case (Some i)
    let ?x = "(ht_items t ! unat i)\<lparr>di_used := 0\<rparr>"
    from Some post have i: "unat i < length (ht_items t)" "live (ht_items t ! unat i)"
      "di_key (ht_items t ! unat i) = key" by auto
    then have present: "ht_map t key \<noteq> None"
      by (auto simp: ht_map_None_iff)
    have dead: "\<not> live ?x" by (simp add: live_def)
    then have inv': "ht_inv (t\<lparr>ht_items := (ht_items t)[unat i := ?x]\<rparr>)"
      using ht_inv_update [OF inv i(1), of ?x] by simp
    show ?thesis
      using ht_map_update [OF inv i(1) inv'] inv' i r Some present dead
      by (simp add: hashtable_remove_def rd_def wr_def)
  next
    case None
    then show ?thesis
      using r post inv by (auto simp: hashtable_remove_def)
  qed
qed

section \<open>The interface of a bounded map\<close>

locale bounded_map =
  fixes inv :: "'t \<Rightarrow> bool"
    and lookup :: "'t \<Rightarrow> 'k \<rightharpoonup> 'v"
    and full :: "'t \<Rightarrow> bool"
    and ins :: "'t \<Rightarrow> 'k \<Rightarrow> 'v \<Rightarrow> ('t \<times> bool) option"
    and del :: "'t \<Rightarrow> 'k \<Rightarrow> ('t \<times> bool) option"
    and get :: "'t \<Rightarrow> 'k \<Rightarrow> 'v option option"
  assumes get_ok: "inv t \<Longrightarrow> get t k = Some (lookup t k)"
    and ins_ok: "inv t \<Longrightarrow> ok (ins t k v) (\<lambda>(t', done). inv t' \<and>
      (if lookup t k = None \<and> full t then \<not> done \<and> t' = t
       else done \<and> lookup t' = (lookup t)(k \<mapsto> v)))"
    and del_ok: "inv t \<Longrightarrow> ok (del t k) (\<lambda>(t', done). inv t' \<and>
      done = (lookup t k \<noteq> None) \<and> lookup t' = (lookup t)(k := None))"
begin

lemma get_after_ins:
  assumes "inv t" and "ins t k v = Some (t', True)"
  shows "get t' k' = (if k' = k then Some (Some v) else get t k')"
  using ins_ok [OF assms(1), of k v] assms get_ok [OF assms(1)]
  by (auto simp: get_ok split: if_splits)

lemma get_after_del:
  assumes "inv t" and "del t k = Some (t', done)"
  shows "get t' k' = (if k' = k then Some None else get t k')"
  using del_ok [OF assms(1), of k] assms get_ok [OF assms(1)]
  by (auto simp: get_ok)

lemma ins_refused:
  assumes "inv t" and "ins t k v = Some (t', False)"
  shows "t' = t \<and> full t \<and> get t k = Some None"
  using ins_ok [OF assms(1), of k v] assms get_ok [OF assms(1)] by (auto split: if_splits)

end

interpretation ht: bounded_map ht_inv ht_map ht_full hashtable_insert hashtable_remove
  hashtable_search
proof unfold_locales
  show "ht_inv t \<Longrightarrow> hashtable_search t k = Some (ht_map t k)" for t k
    by (rule hashtable_search_ok)
  show "ht_inv t \<Longrightarrow> ok (hashtable_insert t k v) (\<lambda>(t', done). ht_inv t' \<and>
      (if ht_map t k = None \<and> ht_full t then \<not> done \<and> t' = t
       else done \<and> ht_map t' = (ht_map t)(k \<mapsto> v)))" for t k v
    using hashtable_insert_ok [of t k v] by (auto elim!: ok_mono split: if_splits)
  show "ht_inv t \<Longrightarrow> ok (hashtable_remove t k) (\<lambda>(t', done). ht_inv t' \<and>
      done = (ht_map t k \<noteq> None) \<and> ht_map t' = (ht_map t)(k := None))" for t k
    using hashtable_remove_ok [of t k] by (auto elim!: ok_mono)
qed

section \<open>Properties\<close>

lemma ht_inv_zeroed:
  "cap \<noteq> 0 \<Longrightarrow> ht_inv (hashtable_create cap
     (replicate (unat cap) \<lparr>di_data = 0, di_key = 0, di_used = 0\<rparr>))"
  by (auto simp: ht_inv_def hashtable_create_def live_def)

text \<open>
  C26: the hash table refines a finite map with room for \<open>capacity\<close> keys: on a well-formed
  table no operation faults, a search returns the stored value, an insert stores the value
  or, exactly when the key is new and every cell is used, refuses and changes nothing, and a
  remove forgets the key; all keep the table well-formed.
\<close>

theorem hashtable_refines_map:
  assumes "ht_inv t"
  shows "hashtable_search t key = Some (ht_map t key) \<and>
         (\<exists>t' done. hashtable_insert t key v = Some (t', done) \<and> ht_inv t' \<and>
           (if ht_map t key = None \<and> ht_full t then \<not> done \<and> t' = t
            else done \<and> ht_map t' = (ht_map t)(key \<mapsto> v))) \<and>
         (\<exists>t' done. hashtable_remove t key = Some (t', done) \<and> ht_inv t' \<and>
           done = (ht_map t key \<noteq> None) \<and> ht_map t' = (ht_map t)(key := None))"
  using ht.get_ok [OF assms] ht.ins_ok [OF assms, of key v] ht.del_ok [OF assms, of key]
  by (auto simp: ok_iff)

theorem hashtable_refines_map_witness:
  "\<exists>t' done. hashtable_insert (hashtable_create 2
      (replicate 2 \<lparr>di_data = 0, di_key = 0, di_used = 0\<rparr>)) 7 9 = Some (t', done) \<and> ht_inv t'"
proof -
  have inv: "ht_inv (hashtable_create 2 (replicate 2 \<lparr>di_data = 0, di_key = 0, di_used = 0\<rparr>))"
    using ht_inv_zeroed [of 2] by simp
  show ?thesis
    using hashtable_refines_map [OF inv, of 7 9] by blast
qed

text \<open>
  A value is found again after a successful insert, whatever cells probing passed over,
  and other keys are not disturbed.
\<close>

theorem hashtable_insert_search:
  assumes "ht_inv t" and "hashtable_insert t key v = Some (t', True)"
  shows "hashtable_search t' k = (if k = key then Some (Some v) else hashtable_search t k)"
  using ht.get_after_ins [OF assms] .

theorem hashtable_insert_search_witness:
  "\<exists>t'. hashtable_insert (hashtable_create 2
      (replicate 2 \<lparr>di_data = 0, di_key = 0, di_used = 0\<rparr>)) 7 9 = Some (t', True) \<and>
    hashtable_search t' 7 = Some (Some 9)"
proof -
  let ?t = "hashtable_create 2 (replicate 2 \<lparr>di_data = 0, di_key = 0, di_used = 0\<rparr>)"
  have inv: "ht_inv ?t" using ht_inv_zeroed [of 2] by simp
  have "\<not> ht_full ?t" by (simp add: ht_full_def hashtable_create_def live_def numeral_2_eq_2)
  with ht.ins_ok [OF inv, of 7 9] obtain t' where
    t': "hashtable_insert ?t 7 9 = Some (t', True)" by (auto simp: ok_iff)
  with hashtable_insert_search [OF inv t', of 7] show ?thesis by auto
qed

text \<open>
  \<open>hashtable_create\<close> leaves the cells as the allocator returned them, so a new table
  can already hold a key nobody inserted: there is heap content for which searching a table
  just created succeeds.
\<close>

theorem hashtable_create_not_empty:
  "\<exists>junk. length junk = 2 \<and> hashtable_search (hashtable_create 2 junk) 5 = Some (Some 66)"
proof (intro exI conjI)
  let ?junk = "[\<lparr>di_data = 0, di_key = 0, di_used = 0\<rparr>,
    \<lparr>di_data = 66, di_key = 5, di_used = 1\<rparr>] :: DataItem list"
  show "length ?junk = 2" by simp
  show "hashtable_search (hashtable_create 2 ?junk) 5 = Some (Some 66)"
    by (simp add: hashtable_search_def HashTable_search_internal_def hash_code_def
        hashtable_create_def probe.simps rd_def)
qed

end
