(* ===== verification/KList.thy ===== *)
theory KList
  imports Prelude
begin

text \<open>
  \<^verbatim>\<open>kernel/list.c\<close>: the kernel's doubly linked list, stack and queue, over an explicit
  store of nodes. An operation that allocates takes the address \<^verbatim>\<open>kmalloc\<close> returned;
  reading a node that is not allocated is a fault. \<open>dll h l ps xs\<close> says that the list
  structure \<open>l\<close> with the nodes at the addresses \<open>ps\<close> of the store \<open>h\<close> represents the
  sequence \<open>xs\<close>; every operation is proved to do to \<open>xs\<close> what its name says, to free
  what it removes and to leave the rest of the store alone.
\<close>

section \<open>Data and operations\<close>

record ListNode =
  ln_previous :: ptr
  ln_next :: ptr
  ln_data :: ptr

record List =
  l_head :: ptr
  l_tail :: ptr

type_synonym node_store = "ptr \<rightharpoonup> ListNode"

definition list_create :: List where
  "list_create = \<lparr>l_head = 0, l_tail = 0\<rparr>"

text \<open>
  \<^verbatim>\<open>list_foreach\<close> follows \<open>next\<close> until it reads \<^verbatim>\<open>NULL\<close>. On a store with a cycle
  it would not end, so the loops are partial; on a well-formed list they are proved to
  return.
\<close>

partial_function (option) clear_loop :: "node_store \<Rightarrow> ptr \<Rightarrow> node_store option" where
  "clear_loop h n =
     (if n = 0 then Some h
      else do { nd \<leftarrow> h n; clear_loop (h(n := None)) (ln_next nd) })"

definition list_clear :: "node_store \<Rightarrow> List \<Rightarrow> (node_store \<times> List) option" where
  "list_clear h l = do {
     h' \<leftarrow> clear_loop h (l_head l);
     Some (h', l\<lparr>l_head := 0, l_tail := 0\<rparr>)
   }"

definition list_is_empty :: "List \<Rightarrow> bool" where
  "list_is_empty l = (l_head l = 0)"

definition list_append :: "node_store \<Rightarrow> List \<Rightarrow> ptr \<Rightarrow> ptr \<Rightarrow> (node_store \<times> List) option" where
  "list_append h l node data =
     (if l_tail l = 0
      then Some (h(node \<mapsto> \<lparr>ln_previous = 0, ln_next = 0, ln_data = data\<rparr>),
                 l\<lparr>l_head := node, l_tail := node\<rparr>)
      else do {
        p \<leftarrow> h (l_tail l);
        Some (h(node \<mapsto> \<lparr>ln_previous = l_tail l, ln_next = 0, ln_data = data\<rparr>,
                l_tail l \<mapsto> p\<lparr>ln_next := node\<rparr>),
              l\<lparr>l_tail := node\<rparr>)
      })"

definition list_prepend :: "node_store \<Rightarrow> List \<Rightarrow> ptr \<Rightarrow> ptr \<Rightarrow> (node_store \<times> List) option" where
  "list_prepend h l node data =
     (if l_tail l = 0
      then Some (h(node \<mapsto> \<lparr>ln_previous = 0, ln_next = 0, ln_data = data\<rparr>),
                 l\<lparr>l_head := node, l_tail := node\<rparr>)
      else do {
        p \<leftarrow> h (l_head l);
        Some (h(node \<mapsto> \<lparr>ln_previous = 0, ln_next = l_head l, ln_data = data\<rparr>,
                l_head l \<mapsto> p\<lparr>ln_previous := node\<rparr>),
              l\<lparr>l_head := node\<rparr>)
      })"

text \<open>Cloning appends one new node per node; \<open>nodes\<close> are the addresses the allocator returns.\<close>

partial_function (option) clone_loop ::
  "node_store \<Rightarrow> ptr \<Rightarrow> List \<Rightarrow> ptr list \<Rightarrow> (node_store \<times> List) option"
where
  "clone_loop h n l' nodes =
     (if n = 0 then Some (h, l')
      else do {
        nd \<leftarrow> h n;
        node \<leftarrow> rd nodes 0;
        (h', l'') \<leftarrow> list_append h l' node (ln_data nd);
        nd' \<leftarrow> h' n;
        clone_loop h' (ln_next nd') l'' (tl nodes)
      })"

definition list_create_clone :: "node_store \<Rightarrow> List \<Rightarrow> ptr list \<Rightarrow> (node_store \<times> List) option"
where
  "list_create_clone h l nodes = clone_loop h (l_head l) list_create nodes"

definition list_get_first_node :: "List \<Rightarrow> ptr" where
  "list_get_first_node l = l_head l"

definition list_get_last_node :: "List \<Rightarrow> ptr" where
  "list_get_last_node l = l_tail l"

partial_function (option) find_loop :: "node_store \<Rightarrow> ptr \<Rightarrow> ptr \<Rightarrow> ptr option" where
  "find_loop h data n =
     (if n = 0 then Some 0
      else do {
        nd \<leftarrow> h n;
        if ln_data nd = data then Some n else find_loop h data (ln_next nd)
      })"

definition list_find_first_occurrence :: "node_store \<Rightarrow> List \<Rightarrow> ptr \<Rightarrow> ptr option" where
  "list_find_first_occurrence h l data = find_loop h data (l_head l)"

partial_function (option) find_index_loop :: "node_store \<Rightarrow> ptr \<Rightarrow> ptr \<Rightarrow> i32 \<Rightarrow> i32 option" where
  "find_index_loop h data n result =
     (if n = 0 then Some (- 1)
      else do {
        nd \<leftarrow> h n;
        if ln_data nd = data then Some result
        else find_index_loop h data (ln_next nd) (result + 1)
      })"

definition list_find_first_occurrence_index :: "node_store \<Rightarrow> List \<Rightarrow> ptr \<Rightarrow> i32 option" where
  "list_find_first_occurrence_index h l data = find_index_loop h data (l_head l) 0"

partial_function (option) count_loop :: "node_store \<Rightarrow> ptr \<Rightarrow> i32 \<Rightarrow> i32 option" where
  "count_loop h n result =
     (if n = 0 then Some result
      else do { nd \<leftarrow> h n; count_loop h (ln_next nd) (result + 1) })"

definition list_get_count :: "node_store \<Rightarrow> List \<Rightarrow> i32 option" where
  "list_get_count h l = count_loop h (l_head l) 0"

definition list_remove_node :: "node_store \<Rightarrow> List \<Rightarrow> ptr \<Rightarrow> (node_store \<times> List) option" where
  "list_remove_node h l node =
     (if node = 0 then Some (h, l)
      else do {
        nd \<leftarrow> h node;
        h1 \<leftarrow> (if ln_previous nd \<noteq> 0
               then do { p \<leftarrow> h (ln_previous nd);
                         Some (h(ln_previous nd \<mapsto> p\<lparr>ln_next := ln_next nd\<rparr>)) }
               else Some h);
        h2 \<leftarrow> (if ln_next nd \<noteq> 0
               then do { q \<leftarrow> h1 (ln_next nd);
                         Some (h1(ln_next nd \<mapsto> q\<lparr>ln_previous := ln_previous nd\<rparr>)) }
               else Some h1);
        let l1 = (if node = l_head l then l\<lparr>l_head := ln_next nd\<rparr> else l);
            l2 = (if node = l_tail l1 then l1\<lparr>l_tail := ln_previous nd\<rparr> else l1)
        in Some (h2(node := None), l2)
      })"

definition list_remove_first_node :: "node_store \<Rightarrow> List \<Rightarrow> (node_store \<times> List) option" where
  "list_remove_first_node h l =
     (if l_head l \<noteq> 0 then list_remove_node h l (l_head l) else Some (h, l))"

definition list_remove_last_node :: "node_store \<Rightarrow> List \<Rightarrow> (node_store \<times> List) option" where
  "list_remove_last_node h l =
     (if l_tail l \<noteq> 0 then list_remove_node h l (l_tail l) else Some (h, l))"

definition list_remove_first_occurrence ::
  "node_store \<Rightarrow> List \<Rightarrow> ptr \<Rightarrow> (node_store \<times> List) option"
where
  "list_remove_first_occurrence h l data = do {
     node \<leftarrow> list_find_first_occurrence h l data;
     if node \<noteq> 0 then list_remove_node h l node else Some (h, l)
   }"

text \<open>A stack and a queue are a list; both pop at the front.\<close>

definition stack_push :: "node_store \<Rightarrow> List \<Rightarrow> ptr \<Rightarrow> ptr \<Rightarrow> (node_store \<times> List) option" where
  "stack_push h s node data = list_prepend h s node data"

definition stack_pop :: "node_store \<Rightarrow> List \<Rightarrow> (node_store \<times> List \<times> ptr) option" where
  "stack_pop h s = (let node = list_get_first_node s in
     if node \<noteq> 0 then do {
       nd \<leftarrow> h node;
       (h', s') \<leftarrow> list_remove_node h s node;
       Some (h', s', ln_data nd)
     } else Some (h, s, 0))"

definition queue_enqueue :: "node_store \<Rightarrow> List \<Rightarrow> ptr \<Rightarrow> ptr \<Rightarrow> (node_store \<times> List) option" where
  "queue_enqueue h q node data = list_append h q node data"

definition queue_dequeue :: "node_store \<Rightarrow> List \<Rightarrow> (node_store \<times> List \<times> ptr) option" where
  "queue_dequeue h q = (let node = list_get_first_node q in
     if node \<noteq> 0 then do {
       nd \<leftarrow> h node;
       (h', q') \<leftarrow> list_remove_node h q node;
       Some (h', q', ln_data nd)
     } else Some (h, q, 0))"

text \<open>The wrappers around the list that stacks and queues add.\<close>

definition list_destroy :: "node_store \<Rightarrow> List \<Rightarrow> node_store option" where
  "list_destroy h l = map_option fst (list_clear h l)"

section \<open>Well-formed lists\<close>

text \<open>The address of the \<open>i\<close>-th node, \<^verbatim>\<open>NULL\<close> past the end.\<close>

definition node_at :: "ptr list \<Rightarrow> nat \<Rightarrow> ptr" where
  "node_at ps i = (if i < length ps then ps ! i else 0)"

definition cell :: "ptr list \<Rightarrow> ptr list \<Rightarrow> nat \<Rightarrow> ListNode" where
  "cell ps xs i =
     \<lparr>ln_previous = (if i = 0 then 0 else ps ! (i - 1)), ln_next = node_at ps (Suc i),
      ln_data = xs ! i\<rparr>"

definition dll :: "node_store \<Rightarrow> List \<Rightarrow> ptr list \<Rightarrow> ptr list \<Rightarrow> bool" where
  "dll h l ps xs \<longleftrightarrow>
     length xs = length ps \<and> distinct ps \<and> 0 \<notin> set ps \<and>
     l_head l = node_at ps 0 \<and> l_tail l = (if ps = [] then 0 else last ps) \<and>
     (\<forall>i < length ps. h (ps ! i) = Some (cell ps xs i))"

lemma node_at_0 [simp]: "0 \<notin> set ps \<Longrightarrow> node_at ps i = 0 \<longleftrightarrow> length ps \<le> i"
  by (auto simp: node_at_def in_set_conv_nth)

lemma dll_create: "dll h list_create [] []"
  by (simp add: dll_def list_create_def node_at_def)

lemma dll_node: "dll h l ps xs \<Longrightarrow> i < length ps \<Longrightarrow> h (node_at ps i) = Some (cell ps xs i)"
  by (simp add: dll_def node_at_def)

lemma dll_last_nonzero: "dll h l ps xs \<Longrightarrow> ps \<noteq> [] \<Longrightarrow> last ps \<noteq> 0"
  by (metis dll_def last_in_set)

lemma dll_frame:
  assumes "dll h l ps xs" and "\<And>p. p \<in> set ps \<Longrightarrow> h' p = h p"
  shows "dll h' l ps xs"
  using assms by (simp add: dll_def)

lemma dll_empty: "dll h l ps xs \<Longrightarrow> list_is_empty l \<longleftrightarrow> xs = []"
  by (auto simp: dll_def list_is_empty_def)

section \<open>Loops\<close>

text \<open>How a loop over the list moves on: one rule, used by every loop below.\<close>

lemma walk_induct [consumes 1, case_names end_reached next_node]:
  assumes "i \<le> n"
    and "P n"
    and "\<And>i. i < n \<Longrightarrow> P (Suc i) \<Longrightarrow> P i"
  shows "P (i::nat)"
  using assms(1) by (rule inc_induct) (use assms in auto)

lemma find_loop_dll:
  assumes l: "dll h l ps xs" and "i \<le> length ps"
  shows "find_loop h d (node_at ps i) =
           Some (node_at ps (i + length (takeWhile (\<lambda>x. x \<noteq> d) (drop i xs))))"
  using assms(2)
proof (induction rule: walk_induct)
  case end_reached
  then show ?case using l by (subst find_loop.simps) (simp add: dll_def node_at_def)
next
  case (next_node i)
  have drop: "drop i xs = xs ! i # drop (Suc i) xs"
    using next_node l by (simp add: dll_def Cons_nth_drop_Suc)
  have "node_at ps i \<noteq> 0" using next_node l by (simp add: dll_def)
  then show ?case
    using next_node.IH dll_node [OF l next_node.hyps] drop
    by (subst find_loop.simps) (simp add: cell_def)
qed

lemma find_index_loop_dll:
  assumes l: "dll h l ps xs" and "i \<le> length ps"
  shows "find_index_loop h d (node_at ps i) (of_nat i) =
           Some (let j = i + length (takeWhile (\<lambda>x. x \<noteq> d) (drop i xs))
                 in if j < length xs then of_nat j else - 1)"
  using assms(2)
proof (induction rule: walk_induct)
  case end_reached
  then show ?case using l by (subst find_index_loop.simps) (simp add: dll_def node_at_def)
next
  case (next_node i)
  have drop: "drop i xs = xs ! i # drop (Suc i) xs" and i: "i < length xs"
    using next_node l by (simp_all add: dll_def Cons_nth_drop_Suc)
  have "node_at ps i \<noteq> 0" using next_node l by (simp add: dll_def)
  then show ?case
    using next_node.IH dll_node [OF l next_node.hyps] drop i
    by (subst find_index_loop.simps) (simp add: cell_def add.commute)
qed

lemma count_loop_dll:
  assumes l: "dll h l ps xs" and "i \<le> length ps"
  shows "count_loop h (node_at ps i) r = Some (r + of_nat (length ps - i))"
  using assms(2)
proof (induction arbitrary: r rule: walk_induct)
  case end_reached
  then show ?case using l by (subst count_loop.simps) (simp add: dll_def node_at_def)
next
  case (next_node i)
  have "node_at ps i \<noteq> 0" using next_node l by (simp add: dll_def)
  moreover have "(of_nat (length ps - i) :: i32) = 1 + of_nat (length ps - Suc i)"
    using next_node.hyps by (metis Suc_diff_Suc of_nat_Suc)
  ultimately show ?case
    using next_node.IH dll_node [OF l next_node.hyps]
    by (subst count_loop.simps) (simp add: cell_def add.assoc)
qed

lemma clear_loop_dll:
  assumes wf: "distinct ps" "0 \<notin> set ps" and "i \<le> length ps"
    and "\<And>j. i \<le> j \<Longrightarrow> j < length ps \<Longrightarrow> h (ps ! j) = Some (cell ps xs j)"
  shows "clear_loop h (node_at ps i) = Some (\<lambda>p. if p \<in> set (drop i ps) then None else h p)"
  using assms(3,4)
proof (induction arbitrary: h rule: walk_induct)
  case end_reached
  then show ?case by (subst clear_loop.simps) (simp add: node_at_def)
next
  case (next_node i)
  have nz: "node_at ps i \<noteq> 0" using next_node wf by simp
  have hd: "h (node_at ps i) = Some (cell ps xs i)"
    using next_node.prems next_node.hyps by (simp add: node_at_def)
  have rest: "(h(node_at ps i := None)) (ps ! j) = Some (cell ps xs j)"
    if "Suc i \<le> j" "j < length ps" for j
    using next_node.prems [of j] next_node.hyps that wf
    by (simp add: node_at_def nth_eq_iff_index_eq)
  have drop: "drop i ps = node_at ps i # drop (Suc i) ps"
    using next_node.hyps by (simp add: node_at_def Cons_nth_drop_Suc)
  have tail: "clear_loop (h(node_at ps i := None)) (node_at ps (Suc i)) =
      Some (\<lambda>p. if p \<in> set (drop (Suc i) ps) then None else (h(node_at ps i := None)) p)"
    by (rule next_node.IH) (rule rest)
  have "(\<lambda>p. if p \<in> set (drop (Suc i) ps) then None else (h(node_at ps i := None)) p) =
      (\<lambda>p. if p \<in> set (drop i ps) then None else h p)"
    by (auto simp: drop fun_eq_iff)
  then show ?case
    using nz hd tail by (subst clear_loop.simps) (simp add: cell_def)
qed

section \<open>Operations that change the list\<close>

lemma cell_append_old:
  assumes "i < length ps" and "length xs = length ps"
  shows "cell (ps @ [node]) (xs @ [d]) i =
           (if Suc i = length ps then (cell ps xs i)\<lparr>ln_next := node\<rparr> else cell ps xs i)"
  using assms by (auto simp: cell_def node_at_def nth_append)

lemma list_append_ok:
  assumes l: "dll h l ps xs" and node: "node \<noteq> 0" "node \<notin> set ps"
  shows "ok (list_append h l node d) (\<lambda>(h', l'). dll h' l' (ps @ [node]) (xs @ [d]) \<and>
           (\<forall>p. p \<noteq> node \<longrightarrow> p \<notin> set ps \<longrightarrow> h' p = h p))"
proof (cases "ps = []")
  case True
  then show ?thesis
    using l node by (auto simp: list_append_def dll_def cell_def node_at_def)
next
  case False
  let ?n = "length ps" and ?t = "last ps"
  let ?h' = "h(node \<mapsto> \<lparr>ln_previous = ?t, ln_next = 0, ln_data = d\<rparr>,
               ?t \<mapsto> (cell ps xs (?n - 1))\<lparr>ln_next := node\<rparr>)"
  have t: "?t = ps ! (?n - 1)" "?t \<in> set ps" "l_tail l = ?t" "?t \<noteq> 0"
    using False l dll_last_nonzero [OF l] by (simp_all add: dll_def last_conv_nth)
  have ht: "h ?t = Some (cell ps xs (?n - 1))"
    using l False t(1) by (simp add: dll_def)
  have "?h' ((ps @ [node]) ! i) = Some (cell (ps @ [node]) (xs @ [d]) i)" if "i < Suc ?n" for i
  proof (cases "i < ?n")
    case True
    then have "ps ! i = ?t \<longleftrightarrow> i = ?n - 1" and "ps ! i \<noteq> node" and "i = ?n - 1 \<longleftrightarrow> Suc i = ?n"
      using t(1) l False node by (auto simp: dll_def nth_eq_iff_index_eq)
    moreover have "h (ps ! i) = Some (cell ps xs i)" "length xs = length ps"
      using l True by (simp_all add: dll_def)
    ultimately show ?thesis
      using True cell_append_old [OF True, of xs node d]
      by (cases "i = ?n - 1") (simp_all add: nth_append)
  next
    case False
    with that have "i = ?n" by simp
    then show ?thesis
      using l node t \<open>ps \<noteq> []\<close> by (auto simp: dll_def cell_def node_at_def nth_append)
  qed
  moreover have "node_at (ps @ [node]) 0 = node_at ps 0"
    using False by (simp add: node_at_def nth_append)
  ultimately have "dll ?h' (l\<lparr>l_tail := node\<rparr>) (ps @ [node]) (xs @ [d])"
    using l node by (auto simp: dll_def)
  then show ?thesis
    using t ht by (auto simp: list_append_def)
qed

lemma cell_prepend:
  assumes "length xs = length ps"
  shows "cell (node # ps) (d # xs) (Suc i) =
           (if i = 0 then (cell ps xs i)\<lparr>ln_previous := node\<rparr> else cell ps xs i)"
  using assms by (auto simp: cell_def node_at_def nth_Cons')

lemma list_prepend_ok:
  assumes l: "dll h l ps xs" and node: "node \<noteq> 0" "node \<notin> set ps"
  shows "ok (list_prepend h l node d) (\<lambda>(h', l'). dll h' l' (node # ps) (d # xs) \<and>
           (\<forall>p. p \<noteq> node \<longrightarrow> p \<notin> set ps \<longrightarrow> h' p = h p))"
proof (cases "ps = []")
  case True
  then show ?thesis
    using l node by (auto simp: list_prepend_def dll_def cell_def node_at_def)
next
  case False
  let ?f = "ps ! 0"
  let ?h' = "h(node \<mapsto> \<lparr>ln_previous = 0, ln_next = ?f, ln_data = d\<rparr>,
               ?f \<mapsto> (cell ps xs 0)\<lparr>ln_previous := node\<rparr>)"
  have f: "?f \<in> set ps" "l_head l = ?f" "l_tail l \<noteq> 0" "h ?f = Some (cell ps xs 0)"
    using False l dll_last_nonzero [OF l] by (simp_all add: dll_def node_at_def)
  have "?h' ((node # ps) ! i) = Some (cell (node # ps) (d # xs) i)" if "i < Suc (length ps)" for i
  proof (cases i)
    case 0
    then show ?thesis using f node False by (auto simp: cell_def node_at_def)
  next
    case (Suc j)
    with that have j: "j < length ps" by simp
    then have "ps ! j = ?f \<longleftrightarrow> j = 0" "ps ! j \<noteq> node"
      using l False node by (auto simp: dll_def nth_eq_iff_index_eq)
    then show ?thesis
      using l j Suc cell_prepend [of xs ps node d j] by (auto simp: dll_def)
  qed
  then have "dll ?h' (l\<lparr>l_head := node\<rparr>) (node # ps) (d # xs)"
    using l node False by (auto simp: dll_def node_at_def)
  then show ?thesis
    using f False by (auto simp: list_prepend_def)
qed

text \<open>The sequence without its \<open>i\<close>-th element.\<close>

definition remove_at :: "nat \<Rightarrow> 'a list \<Rightarrow> 'a list" where
  "remove_at i xs = take i xs @ drop (Suc i) xs"

lemma length_remove_at: "i < length xs \<Longrightarrow> length (remove_at i xs) = length xs - 1"
  by (simp add: remove_at_def)

lemma nth_remove_at:
  "i < length xs \<Longrightarrow> j < length xs - 1 \<Longrightarrow>
   remove_at i xs ! j = (if j < i then xs ! j else xs ! Suc j)"
  by (auto simp: remove_at_def nth_append min_def)

lemma set_remove_at: "set (remove_at i xs) \<subseteq> set xs"
  by (auto simp: remove_at_def dest: in_set_takeD in_set_dropD)

lemma distinct_remove_at: "distinct xs \<Longrightarrow> distinct (remove_at i xs)"
  by (auto simp: remove_at_def set_take_disj_set_drop_if_distinct)

lemma remove_at_Nil: "i < length xs \<Longrightarrow> remove_at i xs = [] \<longleftrightarrow> length xs = Suc 0"
  using length_remove_at [of i xs] by auto

lemma remove_at_0: "remove_at 0 (x # xs) = xs"
  by (simp add: remove_at_def)

lemma remove_at_last: "xs \<noteq> [] \<Longrightarrow> remove_at (length xs - 1) xs = butlast xs"
  by (simp add: remove_at_def butlast_conv_take)

lemma cell_remove_at:
  assumes "i < length ps" and "length xs = length ps" and "j < length ps - 1"
  shows "cell (remove_at i ps) (remove_at i xs) j =
    (if j < i then (if Suc j = i then (cell ps xs j)\<lparr>ln_next := node_at ps (Suc i)\<rparr> else cell ps xs j)
     else if j = i then (cell ps xs (Suc j))\<lparr>ln_previous := (if i = 0 then 0 else ps ! (i - 1))\<rparr>
     else cell ps xs (Suc j))"
  using assms by (auto simp: cell_def node_at_def nth_remove_at length_remove_at)

lemma list_remove_node_ok:
  assumes l: "dll h l ps xs" and i: "i < length ps"
  shows "ok (list_remove_node h l (ps ! i)) (\<lambda>(h', l').
           dll h' l' (remove_at i ps) (remove_at i xs) \<and> h' (ps ! i) = None \<and>
           (\<forall>p. p \<notin> set ps \<longrightarrow> h' p = h p))"
proof -
  let ?n = "length ps" and ?prev = "if i = 0 then 0 else ps ! (i - 1)"
    and ?next = "node_at ps (Suc i)"
  have d: "distinct ps" "0 \<notin> set ps" "length xs = ?n"
    and cells: "\<And>j. j < ?n \<Longrightarrow> h (ps ! j) = Some (cell ps xs j)"
    using l by (auto simp: dll_def)
  have eqs: "\<And>j k. j < ?n \<Longrightarrow> k < ?n \<Longrightarrow> ps ! j = ps ! k \<longleftrightarrow> j = k"
    using d(1) by (simp add: nth_eq_iff_index_eq)
  have nz: "\<And>j. j < ?n \<Longrightarrow> ps ! j \<noteq> 0" using d(2) by (metis nth_mem)
  define h1 where "h1 = (if i = 0 then h
    else h(ps ! (i - 1) \<mapsto> (cell ps xs (i - 1))\<lparr>ln_next := ?next\<rparr>))"
  define h2 where "h2 = (if Suc i < ?n
    then h1(ps ! Suc i \<mapsto> (cell ps xs (Suc i))\<lparr>ln_previous := ?prev\<rparr>) else h1)"
  define l' where "l' = (let l1 = (if ps ! i = l_head l then l\<lparr>l_head := ?next\<rparr> else l)
    in if ps ! i = l_tail l1 then l1\<lparr>l_tail := ?prev\<rparr> else l1)"
  have h1_next: "Suc i < ?n \<Longrightarrow> h1 (ps ! Suc i) = Some (cell ps xs (Suc i))"
    using cells i eqs by (auto simp: h1_def)
  have links: "ln_previous (cell ps xs i) = ?prev" "ln_next (cell ps xs i) = ?next"
    by (simp_all add: cell_def)
  have s1: "(if ?prev \<noteq> 0 then do { p \<leftarrow> h ?prev; Some (h(?prev \<mapsto> p\<lparr>ln_next := ?next\<rparr>)) }
      else Some h) = Some h1"
    using cells [of "i - 1"] nz [of "i - 1"] i by (cases "i = 0") (simp_all add: h1_def)
  have s2: "(if ?next \<noteq> 0 then do { q \<leftarrow> h1 ?next; Some (h1(?next \<mapsto> q\<lparr>ln_previous := ?prev\<rparr>)) }
      else Some h1) = Some h2"
    using h1_next nz [of "Suc i"] by (cases "Suc i < ?n") (simp_all add: h2_def node_at_def)
  have run: "list_remove_node h l (ps ! i) = Some (h2(ps ! i := None), l')"
    unfolding list_remove_node_def l'_def Let_def
    using nz [OF i] cells [OF i] by (simp only: links s1 s2 if_False bind.bind_lunit)
  have at: "(h2(ps ! i := None)) (ps ! k) = Some
      (if Suc k = i then (cell ps xs k)\<lparr>ln_next := ?next\<rparr>
       else if k = Suc i then (cell ps xs k)\<lparr>ln_previous := ?prev\<rparr> else cell ps xs k)"
    if k: "k < ?n" "k \<noteq> i" for k
  proof -
    have "ps ! k \<noteq> ps ! i" "i \<noteq> 0 \<Longrightarrow> ps ! k = ps ! (i - 1) \<longleftrightarrow> Suc k = i"
      "Suc i < ?n \<Longrightarrow> ps ! k = ps ! Suc i \<longleftrightarrow> k = Suc i"
      using k i eqs [of k i] eqs [of k "i - 1"] eqs [of k "Suc i"] by auto
    then show ?thesis
      using cells [OF k(1)] k by (auto simp: h2_def h1_def)
  qed
  have store: "(h2(ps ! i := None)) (remove_at i ps ! j) =
      Some (cell (remove_at i ps) (remove_at i xs) j)" if j: "j < ?n - 1" for j
    using i j d(3)
    by (cases "j < i") (simp_all add: at nth_remove_at cell_remove_at del: fun_upd_apply)
  have ends: "l_head l' = node_at (remove_at i ps) 0"
    "l_tail l' = (if remove_at i ps = [] then 0 else last (remove_at i ps))"
    using l i eqs unfolding l'_def dll_def
    by (auto simp: Let_def node_at_def nth_remove_at length_remove_at last_conv_nth
        remove_at_Nil)
  have "dll (h2(ps ! i := None)) l' (remove_at i ps) (remove_at i xs)"
    using store ends d i distinct_remove_at [OF d(1)] set_remove_at [of i ps]
    by (auto simp: dll_def length_remove_at)
  then show ?thesis
    using run i by (auto simp: h2_def h1_def)
qed

lemma list_clear_ok:
  assumes l: "dll h l ps xs"
  shows "list_clear h l = Some (\<lambda>p. if p \<in> set ps then None else h p, list_create)"
  using clear_loop_dll [of ps 0 h xs] l by (simp add: dll_def list_clear_def list_create_def)

lemma list_find_first_occurrence_ok:
  assumes "dll h l ps xs"
  shows "list_find_first_occurrence h l d =
           Some (node_at ps (length (takeWhile (\<lambda>x. x \<noteq> d) xs)))"
  using find_loop_dll [OF assms, of 0 d] assms
  by (simp add: list_find_first_occurrence_def dll_def)

lemma list_get_count_ok:
  assumes "dll h l ps xs"
  shows "list_get_count h l = Some (of_nat (length xs))"
  using count_loop_dll [OF assms, of 0 0] assms by (simp add: list_get_count_def dll_def)

lemma remove_at_takeWhile:
  "remove_at (length (takeWhile (\<lambda>y. y \<noteq> d) xs)) xs = remove1 d xs"
  by (induction xs) (simp_all add: remove_at_def)

lemma takeWhile_length_iff: "length (takeWhile (\<lambda>x. x \<noteq> d) xs) < length xs \<longleftrightarrow> d \<in> set xs"
  by (induction xs) auto

lemma list_remove_first_occurrence_ok:
  assumes l: "dll h l ps xs"
  shows "ok (list_remove_first_occurrence h l d) (\<lambda>(h', l').
           (\<exists>ps'. set ps' \<subseteq> set ps \<and> dll h' l' ps' (remove1 d xs)) \<and>
           (\<forall>p. p \<notin> set ps \<longrightarrow> h' p = h p))"
proof (cases "d \<in> set xs")
  case True
  let ?i = "length (takeWhile (\<lambda>x. x \<noteq> d) xs)"
  have i: "?i < length ps" "0 \<notin> set ps"
    using True l takeWhile_length_iff [of d xs] by (auto simp: dll_def)
  have find: "list_find_first_occurrence h l d = Some (ps ! ?i)"
    using list_find_first_occurrence_ok [OF l] i by (simp add: node_at_def)
  have "ps ! ?i \<noteq> 0" using i by (metis nth_mem)
  then show ?thesis
    using list_remove_node_ok [OF l i(1)] find set_remove_at [of ?i ps]
    by (auto simp: list_remove_first_occurrence_def remove_at_takeWhile elim!: ok_mono)
next
  case False
  then have "\<not> length (takeWhile (\<lambda>x. x \<noteq> d) xs) < length xs"
    by (simp add: takeWhile_length_iff)
  then have "list_find_first_occurrence h l d = Some 0"
    using list_find_first_occurrence_ok [OF l] l by (simp add: dll_def node_at_def)
  then show ?thesis
    using l False by (auto simp: list_remove_first_occurrence_def remove1_idem)
qed

lemma list_remove_first_node_ok:
  assumes l: "dll h l (p # ps) (x # xs)"
  shows "ok (list_remove_node h l p) (\<lambda>(h', l'). dll h' l' ps xs \<and> h' p = None \<and>
           (\<forall>q. q \<notin> set (p # ps) \<longrightarrow> h' q = h q))"
  using list_remove_node_ok [OF l, of 0] by (simp add: remove_at_0)

lemma pop_front_ok:
  assumes l: "dll h l ps xs"
  shows "ok (queue_dequeue h l) (\<lambda>(h', l', r). r = (if xs = [] then 0 else hd xs) \<and>
           dll h' l' (tl ps) (tl xs) \<and> (\<forall>q. q \<notin> set ps \<longrightarrow> h' q = h q))"
proof (cases ps)
  case Nil
  then show ?thesis
    using l by (auto simp: queue_dequeue_def list_get_first_node_def dll_def node_at_def)
next
  case (Cons p ps')
  then obtain x xs' where xs: "xs = x # xs'"
    using l by (cases xs) (auto simp: dll_def)
  have l': "dll h l (p # ps') (x # xs')" using l Cons xs by simp
  have hd: "l_head l = p" "p \<noteq> 0" "h p = Some (cell (p # ps') (x # xs') 0)"
    using l' by (auto simp: dll_def node_at_def)
  show ?thesis
    using list_remove_first_node_ok [OF l'] hd Cons xs
    by (auto simp: queue_dequeue_def list_get_first_node_def cell_def ok_bind elim!: ok_mono)
qed

lemma clone_loop_dll:
  assumes l: "dll h0 l ps xs" and "i \<le> length ps"
    and "length nodes = length ps - i" and "distinct nodes" and "0 \<notin> set nodes"
    and "set nodes \<inter> set ps = {}" and "set nodes \<inter> set qs = {}" and "set qs \<inter> set ps = {}"
    and "dll h l' qs (take i xs)" and "\<And>p. p \<in> set ps \<Longrightarrow> h p = h0 p"
  shows "ok (clone_loop h (node_at ps i) l' nodes) (\<lambda>(h', l''). dll h' l ps xs \<and>
           dll h' l'' (qs @ nodes) xs)"
  using assms(2-)
proof (induction arbitrary: h l' nodes qs rule: walk_induct)
  case end_reached
  have "length xs = length ps" "node_at ps (length ps) = 0"
    using l by (simp_all add: dll_def node_at_def)
  then show ?case
    using end_reached dll_frame [OF l, of h] by (subst clone_loop.simps) simp
next
  case (next_node i)
  obtain node nodes' where nodes: "nodes = node # nodes'"
    using next_node.hyps next_node.prems(1) by (cases nodes) auto
  have at: "node_at ps i \<in> set ps" using next_node.hyps by (simp add: node_at_def)
  have p: "node_at ps i \<in> set ps" "node_at ps i \<noteq> 0"
    "h (node_at ps i) = Some (cell ps xs i)" "i < length xs"
    using next_node.hyps l next_node.prems(8) [OF at] dll_node [OF l next_node.hyps] at
    by (auto simp: dll_def)
  have "ok (list_append h l' node (xs ! i)) (\<lambda>(h', l''). dll h' l'' (qs @ [node]) (take i xs @ [xs ! i]) \<and>
           (\<forall>p. p \<noteq> node \<longrightarrow> p \<notin> set qs \<longrightarrow> h' p = h p))"
    using next_node.prems nodes by (intro list_append_ok) auto
  then obtain h' l'' where app: "list_append h l' node (xs ! i) = Some (h', l'')"
    "dll h' l'' (qs @ [node]) (take (Suc i) xs)"
    "\<And>p. p \<noteq> node \<Longrightarrow> p \<notin> set qs \<Longrightarrow> h' p = h p"
    using p(4) by (auto simp: take_Suc_conv_app_nth elim!: okE)
  have keep: "h' q = h0 q" if "q \<in> set ps" for q
  proof -
    have "q \<noteq> node" "q \<notin> set qs" using that next_node.prems(4,6) nodes by auto
    then show ?thesis using app(3) [of q] next_node.prems(8) [OF that] by simp
  qed
  have "h' (node_at ps i) = Some (cell ps xs i)"
    using keep [OF p(1)] next_node.prems(8) [OF p(1)] p(3) by simp
  moreover have "ok (clone_loop h' (node_at ps (Suc i)) l'' nodes') (\<lambda>(h', l''). dll h' l ps xs \<and>
           dll h' l'' ((qs @ [node]) @ nodes') xs)"
    using next_node.prems nodes app(2) keep next_node.hyps
    by (intro next_node.IH) auto
  ultimately show ?case
    using p app(1) nodes
    by (subst clone_loop.simps) (simp add: cell_def rd_def)
qed

section \<open>The interface of a wait list\<close>

text \<open>
  What the rest of the kernel uses lists for: readers, writers and registered objects are
  appended, removed by value and taken from the front. \<open>rep h l fp xs\<close> says that in store
  \<open>h\<close> the list \<open>l\<close> holds \<open>xs\<close> and occupies the addresses \<open>fp\<close>; a client of two lists
  needs that an operation on one leaves the addresses of the other alone.
\<close>

locale wait_list =
  fixes rep :: "node_store \<Rightarrow> 'l \<Rightarrow> ptr set \<Rightarrow> ptr list \<Rightarrow> bool"
    and app :: "node_store \<Rightarrow> 'l \<Rightarrow> ptr \<Rightarrow> ptr \<Rightarrow> (node_store \<times> 'l) option"
    and rem :: "node_store \<Rightarrow> 'l \<Rightarrow> ptr \<Rightarrow> (node_store \<times> 'l) option"
    and front :: "node_store \<Rightarrow> 'l \<Rightarrow> (node_store \<times> 'l \<times> ptr) option"
  assumes local: "rep h l fp xs \<Longrightarrow> (\<And>p. p \<in> fp \<Longrightarrow> h' p = h p) \<Longrightarrow> rep h' l fp xs"
    and app_ok: "rep h l fp xs \<Longrightarrow> node \<noteq> 0 \<Longrightarrow> node \<notin> fp \<Longrightarrow>
      ok (app h l node d) (\<lambda>(h', l'). rep h' l' (insert node fp) (xs @ [d]) \<and>
        (\<forall>p. p \<notin> insert node fp \<longrightarrow> h' p = h p))"
    and rem_ok: "rep h l fp xs \<Longrightarrow>
      ok (rem h l d) (\<lambda>(h', l'). (\<exists>fp' \<subseteq> fp. rep h' l' fp' (remove1 d xs)) \<and>
        (\<forall>p. p \<notin> fp \<longrightarrow> h' p = h p))"
    and front_ok: "rep h l fp xs \<Longrightarrow>
      ok (front h l) (\<lambda>(h', l', r). r = (if xs = [] then 0 else hd xs) \<and>
        (\<exists>fp' \<subseteq> fp. rep h' l' fp' (tl xs)) \<and> (\<forall>p. p \<notin> fp \<longrightarrow> h' p = h p))"
begin

text \<open>Appending to one list and removing from another do not disturb each other.\<close>

lemma app_other:
  assumes "rep h l fp xs" and "rep h m gp ys" and "fp \<inter> gp = {}"
    and "node \<noteq> 0" and "node \<notin> fp" and "node \<notin> gp"
  shows "ok (app h l node d) (\<lambda>(h', l'). rep h' l' (insert node fp) (xs @ [d]) \<and> rep h' m gp ys)"
proof -
  from app_ok [OF assms(1,4,5), of d] obtain h' l' where
    a: "app h l node d = Some (h', l')" "rep h' l' (insert node fp) (xs @ [d])"
      "\<And>p. p \<notin> insert node fp \<Longrightarrow> h' p = h p"
    by (auto elim!: okE)
  have "h' p = h p" if "p \<in> gp" for p
    using that assms(3,6) a(3) [of p] by auto
  with a local [OF assms(2)] show ?thesis by simp
qed

lemma rem_other:
  assumes "rep h l fp xs" and "rep h m gp ys" and "fp \<inter> gp = {}"
  shows "ok (rem h l d) (\<lambda>(h', l'). (\<exists>fp' \<subseteq> fp. rep h' l' fp' (remove1 d xs)) \<and> rep h' m gp ys)"
proof -
  from rem_ok [OF assms(1), of d] obtain h' l' where
    a: "rem h l d = Some (h', l')" "\<exists>fp' \<subseteq> fp. rep h' l' fp' (remove1 d xs)"
      "\<And>p. p \<notin> fp \<Longrightarrow> h' p = h p"
    by (auto elim!: okE)
  have "h' p = h p" if "p \<in> gp" for p
    using that assms(3) a(3) [of p] by auto
  with a local [OF assms(2)] show ?thesis by auto
qed

text \<open>A value appended to an empty list is the next one taken.\<close>

lemma app_front:
  assumes "rep h l fp []" and "node \<noteq> 0" and "node \<notin> fp"
  shows "ok (app h l node d) (\<lambda>(h', l'). ok (front h' l') (\<lambda>(_, _, r). r = d))"
  using app_ok [OF assms, of d] front_ok by (fastforce elim!: ok_mono)

end

definition list_rep :: "node_store \<Rightarrow> List \<Rightarrow> ptr set \<Rightarrow> ptr list \<Rightarrow> bool" where
  "list_rep h l fp xs \<longleftrightarrow> (\<exists>ps. set ps = fp \<and> dll h l ps xs)"

lemma list_repI: "dll h l ps xs \<Longrightarrow> list_rep h l (set ps) xs"
  by (auto simp: list_rep_def)

lemma list_rep_append:
  assumes "list_rep h l fp xs" and "node \<noteq> 0" and "node \<notin> fp"
  shows "ok (list_append h l node d) (\<lambda>(h', l'). list_rep h' l' (insert node fp) (xs @ [d]) \<and>
           (\<forall>p. p \<notin> insert node fp \<longrightarrow> h' p = h p))"
proof -
  obtain ps where ps: "set ps = fp" "dll h l ps xs"
    using assms(1) by (auto simp: list_rep_def)
  have "list_rep h' l' (insert node fp) (xs @ [d])" if "dll h' l' (ps @ [node]) (xs @ [d])" for h' l'
    using list_repI [OF that] ps(1) by simp
  then show ?thesis
    using list_append_ok [OF ps(2) assms(2), of d] assms(3) ps(1) by (auto elim!: ok_mono)
qed

lemma list_rep_remove:
  assumes "list_rep h l fp xs"
  shows "ok (list_remove_first_occurrence h l d) (\<lambda>(h', l').
           (\<exists>fp' \<subseteq> fp. list_rep h' l' fp' (remove1 d xs)) \<and> (\<forall>p. p \<notin> fp \<longrightarrow> h' p = h p))"
proof -
  obtain ps where ps: "set ps = fp" "dll h l ps xs"
    using assms by (auto simp: list_rep_def)
  then show ?thesis
    using list_remove_first_occurrence_ok [OF ps(2), of d]
    by (auto elim!: ok_mono) (blast intro: list_repI)
qed

lemma list_rep_front:
  assumes "list_rep h l fp xs"
  shows "ok (queue_dequeue h l) (\<lambda>(h', l', r). r = (if xs = [] then 0 else hd xs) \<and>
           (\<exists>fp' \<subseteq> fp. list_rep h' l' fp' (tl xs)) \<and> (\<forall>p. p \<notin> fp \<longrightarrow> h' p = h p))"
proof -
  obtain ps where ps: "set ps = fp" "dll h l ps xs"
    using assms by (auto simp: list_rep_def)
  have "set (tl ps) \<subseteq> fp" using ps(1) by (cases ps) auto
  then show ?thesis
    using pop_front_ok [OF ps(2)] ps(1) by (auto elim!: ok_mono) (blast intro: list_repI)+
qed

interpretation kl: wait_list list_rep list_append list_remove_first_occurrence queue_dequeue
proof unfold_locales
  show "list_rep h l fp xs \<Longrightarrow> (\<And>p. p \<in> fp \<Longrightarrow> h' p = h p) \<Longrightarrow> list_rep h' l fp xs" for h l fp xs h'
    unfolding list_rep_def by (metis dll_frame)
qed (fact list_rep_append list_rep_remove list_rep_front)+

section \<open>Properties\<close>

text \<open>
  C29: on a well-formed doubly linked list, unlinking any of its nodes (first, last, inner or
  only) faults nowhere, leaves a well-formed list of the other elements in order, frees
  exactly that node and touches no node outside the list.
\<close>

theorem list_remove_node_correct:
  assumes "dll h l ps xs" and "i < length ps"
  shows "\<exists>h' l'. list_remove_node h l (ps ! i) = Some (h', l') \<and>
           dll h' l' (take i ps @ drop (Suc i) ps) (take i xs @ drop (Suc i) xs) \<and>
           h' (ps ! i) = None \<and> (\<forall>p. p \<notin> set ps \<longrightarrow> h' p = h p)"
  using list_remove_node_ok [OF assms] by (auto simp: ok_iff remove_at_def)

definition sample_store :: node_store where
  "sample_store = [16 \<mapsto> \<lparr>ln_previous = 0, ln_next = 32, ln_data = 5\<rparr>,
                   32 \<mapsto> \<lparr>ln_previous = 16, ln_next = 0, ln_data = 6\<rparr>]"

lemma sample_dll: "dll sample_store \<lparr>l_head = 16, l_tail = 32\<rparr> [16, 32] [5, 6]"
  by (auto simp: dll_def sample_store_def node_at_def cell_def less_Suc_eq)

theorem list_remove_node_correct_witness:
  "\<exists>h' l'. list_remove_node sample_store \<lparr>l_head = 16, l_tail = 32\<rparr> 16 = Some (h', l') \<and>
     dll h' l' [32] [6]"
  using list_remove_node_correct [OF sample_dll, of 0] by auto

text \<open>
  C33: the operations refine sequences: on a well-formed list, appending adds at the end,
  prepending at the front, a search returns the first node that holds the value or NULL, the
  index search its position or -1, the count the length, and removing a value removes its
  first occurrence; clearing frees every node. None of them faults or fails to return.
\<close>

theorem list_refines_sequence:
  assumes l: "dll h l ps xs" and node: "node \<noteq> 0" "node \<notin> set ps"
  shows "(\<exists>h' l'. list_append h l node d = Some (h', l') \<and> dll h' l' (ps @ [node]) (xs @ [d])) \<and>
         (\<exists>h' l'. list_prepend h l node d = Some (h', l') \<and> dll h' l' (node # ps) (d # xs)) \<and>
         (\<exists>n. list_find_first_occurrence h l d = Some n \<and>
            (if d \<in> set xs then \<exists>i < length xs. n = ps ! i \<and> xs ! i = d \<and> d \<notin> set (take i xs)
             else n = 0)) \<and>
         list_find_first_occurrence_index h l d =
           Some (if d \<in> set xs then of_nat (length (takeWhile (\<lambda>x. x \<noteq> d) xs)) else - 1) \<and>
         list_get_count h l = Some (of_nat (length xs)) \<and>
         (\<exists>h' l' ps'. list_remove_first_occurrence h l d = Some (h', l') \<and>
            dll h' l' ps' (remove1 d xs)) \<and>
         (\<exists>h'. list_clear h l = Some (h', list_create) \<and> (\<forall>p \<in> set ps. h' p = None))"
proof (intro conjI)
  let ?i = "length (takeWhile (\<lambda>x. x \<noteq> d) xs)"
  have len: "length xs = length ps" using l by (simp add: dll_def)
  have i: "?i < length xs \<longleftrightarrow> d \<in> set xs" by (rule takeWhile_length_iff)
  have first: "xs ! ?i = d \<and> d \<notin> set (take ?i xs)" if "d \<in> set xs"
    using that i nth_length_takeWhile [of "\<lambda>x. x \<noteq> d" xs] takeWhile_eq_take [of "\<lambda>x. x \<noteq> d" xs]
    by (metis set_takeWhileD)
  show "\<exists>n. list_find_first_occurrence h l d = Some n \<and>
      (if d \<in> set xs then \<exists>i < length xs. n = ps ! i \<and> xs ! i = d \<and> d \<notin> set (take i xs)
       else n = 0)"
    using list_find_first_occurrence_ok [OF l, of d] i first len by (auto simp: node_at_def)
  show "list_find_first_occurrence_index h l d =
      Some (if d \<in> set xs then of_nat ?i else - 1)"
    using find_index_loop_dll [OF l, of 0 d] l i
    by (simp add: list_find_first_occurrence_index_def dll_def)
  show "\<exists>h' l' ps'. list_remove_first_occurrence h l d = Some (h', l') \<and>
      dll h' l' ps' (remove1 d xs)"
    using list_remove_first_occurrence_ok [OF l, of d] by (auto simp: ok_iff)
qed (use list_append_ok [OF assms, of d] list_prepend_ok [OF assms, of d] list_get_count_ok [OF l]
      list_clear_ok [OF l] in \<open>auto simp: ok_iff\<close>)

theorem list_refines_sequence_witness:
  "\<exists>h' l'. list_append sample_store \<lparr>l_head = 16, l_tail = 32\<rparr> 48 7 = Some (h', l') \<and>
     dll h' l' [16, 32, 48] [5, 6, 7]"
  using list_refines_sequence [OF sample_dll, of 48 7] by auto

text \<open>
  Cloning a list yields a second well-formed list of the same elements in the new nodes
  and leaves the original list as it was.
\<close>

theorem list_create_clone_correct:
  assumes "dll h l ps xs" and "length nodes = length ps" and "distinct nodes"
    and "0 \<notin> set nodes" and "set nodes \<inter> set ps = {}"
  shows "\<exists>h' l'. list_create_clone h l nodes = Some (h', l') \<and> dll h' l ps xs \<and> dll h' l' nodes xs"
proof -
  have "l_head l = node_at ps 0" using assms(1) by (simp add: dll_def)
  then show ?thesis
    using clone_loop_dll [OF assms(1), of 0 nodes "[]" h list_create] assms dll_create
    by (auto simp: list_create_clone_def ok_iff)
qed

theorem list_create_clone_correct_witness:
  "\<exists>h' l'. list_create_clone sample_store \<lparr>l_head = 16, l_tail = 32\<rparr> [48, 64] = Some (h', l') \<and>
     dll h' l' [48, 64] [5, 6]"
  using list_create_clone_correct [OF sample_dll, of "[48, 64]"] by auto

end
