(* ===== verification/CommonLib.thy ===== *)
theory CommonLib
  imports Prelude
begin

text \<open>
  \<^verbatim>\<open>kernel/common.c\<close>: memory blocks, C strings, number formatting, the random number
  generator, interrupt bookkeeping and the user-pointer check.

  A pointer into an object is the part of the object from that pointer on, as a list of
  bytes; reading or writing past its end is a fault. Functions that walk a pointer recurse
  on the list, functions that index from the start use checked accesses. The predicate
  \<open>cstr s obj\<close> says that \<open>obj\<close> starts with the string \<open>s\<close> and its terminating NUL.
\<close>

section \<open>Memory blocks\<close>

text \<open>Loops that count \<^verbatim>\<open>len\<close> down to zero recurse on the count.\<close>

fun memcpy_loop :: "u8 list \<Rightarrow> u8 list \<Rightarrow> nat \<Rightarrow> nat \<Rightarrow> u8 list option" where
  "memcpy_loop dest src i 0 = Some dest"
| "memcpy_loop dest src i (Suc len) = do {
     c \<leftarrow> rd src i;
     dest' \<leftarrow> wr dest i c;
     memcpy_loop dest' src (Suc i) len
   }"

definition memcpy :: "u8 list \<Rightarrow> u8 list \<Rightarrow> u32 \<Rightarrow> u8 list option" where
  "memcpy dest src len = memcpy_loop dest src 0 (unat len)"

fun memset_loop :: "u8 list \<Rightarrow> u8 \<Rightarrow> nat \<Rightarrow> nat \<Rightarrow> u8 list option" where
  "memset_loop dest val i 0 = Some dest"
| "memset_loop dest val i (Suc len) = do {
     dest' \<leftarrow> wr dest i val;
     memset_loop dest' val (Suc i) len
   }"

definition memset :: "u8 list \<Rightarrow> u8 \<Rightarrow> u32 \<Rightarrow> u8 list option" where
  "memset dest val len = memset_loop dest val 0 (unat len)"

text \<open>
  \<^verbatim>\<open>memmove\<close> copies inside one object \<open>m\<close>, from offset \<open>s\<close> to offset \<open>d\<close>; the blocks
  may overlap. The first loop copies upwards, the second downwards from the ends.
\<close>

fun memmove_up :: "u8 list \<Rightarrow> nat \<Rightarrow> nat \<Rightarrow> nat \<Rightarrow> u8 list option" where
  "memmove_up m d s 0 = Some m"
| "memmove_up m d s (Suc n) = do {
     c \<leftarrow> rd m s;
     m' \<leftarrow> wr m d c;
     memmove_up m' (Suc d) (Suc s) n
   }"

fun memmove_down :: "u8 list \<Rightarrow> nat \<Rightarrow> nat \<Rightarrow> nat \<Rightarrow> u8 list option" where
  "memmove_down m d s 0 = Some m"
| "memmove_down m d s (Suc n) = do {
     c \<leftarrow> rd m (s + n);
     m' \<leftarrow> wr m (d + n) c;
     memmove_down m' d s n
   }"

definition memmove :: "u8 list \<Rightarrow> nat \<Rightarrow> nat \<Rightarrow> u32 \<Rightarrow> u8 list option" where
  "memmove m d s n =
     (if d < s then memmove_up m d s (unat n) else memmove_down m d s (unat n))"

text \<open>The difference is stored in an \<^verbatim>\<open>int8_t\<close> before it is tested and returned.\<close>

fun memcmp_loop :: "u8 list \<Rightarrow> u8 list \<Rightarrow> nat \<Rightarrow> u8 \<Rightarrow> u8 option" where
  "memcmp_loop p1 p2 0 res = Some res"
| "memcmp_loop p1 p2 (Suc c) res =
     (case (p1, p2) of
        (a # p1', b # p2') \<Rightarrow>
          let res' = a - b in if res' \<noteq> 0 then Some res' else memcmp_loop p1' p2' c res'
      | _ \<Rightarrow> None)"

definition memcmp :: "u8 list \<Rightarrow> u8 list \<Rightarrow> u32 \<Rightarrow> i32 option" where
  "memcmp p1 p2 c = map_option scast (memcmp_loop p1 p2 (unat c) 0)"

section \<open>C strings\<close>

fun strcmp :: "u8 list \<Rightarrow> u8 list \<Rightarrow> i32 option" where
  "strcmp (a # str1) (b # str2) =
     (if a \<noteq> 0 \<and> b \<noteq> 0
      then (if a \<noteq> b then Some 1 else strcmp str1 str2)
      else if a = 0 \<and> b \<noteq> 0 \<or> a \<noteq> 0 \<and> b = 0 then Some 1 else Some 0)"
| "strcmp _ _ = None"

text \<open>\<^verbatim>\<open>strncmp\<close> compares \<open>length\<close> characters and does not stop at a NUL.\<close>

fun strncmp_loop :: "u8 list \<Rightarrow> u8 list \<Rightarrow> nat \<Rightarrow> i32 option" where
  "strncmp_loop str1 str2 0 = Some 0"
| "strncmp_loop (a # str1) (b # str2) (Suc n) =
     (if a \<noteq> b then Some (scast a - scast b) else strncmp_loop str1 str2 n)"
| "strncmp_loop _ _ (Suc n) = None"

definition strncmp :: "u8 list \<Rightarrow> u8 list \<Rightarrow> i32 \<Rightarrow> i32 option" where
  "strncmp str1 str2 len = strncmp_loop str1 str2 (if sint len \<le> 0 then 0 else unat len)"

text \<open>
  \<^verbatim>\<open>strcpy\<close> copies a character before it tests for the end. The result is the object and
  the offset of the returned pointer, which the loop has moved.
\<close>

fun strcpy_loop :: "u8 list \<Rightarrow> nat \<Rightarrow> u8 list \<Rightarrow> (u8 list \<times> nat) option" where
  "strcpy_loop dest i [] = None"
| "strcpy_loop dest i (c # src) = do {
     dest' \<leftarrow> wr dest i c;
     (case src of [] \<Rightarrow> None
      | c' # _ \<Rightarrow> if c' \<noteq> 0 then strcpy_loop dest' (Suc i) src else Some (dest', Suc i))
   }"

definition strcpy :: "u8 list \<Rightarrow> u8 list \<Rightarrow> (u8 list \<times> nat) option" where
  "strcpy dest src = do {
     (dest', i) \<leftarrow> strcpy_loop dest 0 src;
     dest'' \<leftarrow> wr dest' i 0;
     Some (dest'', i)
   }"

definition strcpy_nonnull :: "u8 list \<Rightarrow> u8 list \<Rightarrow> (u8 list \<times> nat) option" where
  "strcpy_nonnull dest src = strcpy_loop dest 0 src"

text \<open>The source is read only while no NUL has been seen.\<close>

fun strncpy_loop :: "u8 list \<Rightarrow> u8 list \<Rightarrow> bool \<Rightarrow> nat \<Rightarrow> nat \<Rightarrow> u8 list option" where
  "strncpy_loop dest src source_ended i 0 = Some dest"
| "strncpy_loop dest src source_ended i (Suc n) = do {
     ended \<leftarrow> (if source_ended then Some True else do { c \<leftarrow> rd src i; Some (c = 0) });
     c \<leftarrow> (if ended then Some 0 else rd src i);
     dest' \<leftarrow> wr dest i c;
     strncpy_loop dest' src ended (Suc i) n
   }"

definition strncpy :: "u8 list \<Rightarrow> u8 list \<Rightarrow> u32 \<Rightarrow> u8 list option" where
  "strncpy dest src num = strncpy_loop dest src False 0 (unat num)"

fun strncpy_null_loop :: "u8 list \<Rightarrow> u8 list \<Rightarrow> u32 \<Rightarrow> bool \<Rightarrow> nat \<Rightarrow> nat \<Rightarrow> u8 list option" where
  "strncpy_null_loop dest src num source_ended i 0 = Some dest"
| "strncpy_null_loop dest src num source_ended i (Suc n) = do {
     ended \<leftarrow> (if source_ended then Some True else do { c \<leftarrow> rd src i; Some (c = 0) });
     c \<leftarrow> (if ended then Some 0 else rd src i);
     dest' \<leftarrow> wr dest i c;
     dest'' \<leftarrow> (if i = unat (num - 1) then wr dest' i 0 else Some dest');
     strncpy_null_loop dest'' src num ended (Suc i) n
   }"

definition strncpy_null :: "u8 list \<Rightarrow> u8 list \<Rightarrow> u32 \<Rightarrow> u8 list option" where
  "strncpy_null dest src num = strncpy_null_loop dest src num False 0 (unat num)"

fun scan_nul :: "u8 list \<Rightarrow> nat option" where
  "scan_nul [] = None"
| "scan_nul (c # cs) = (if c = 0 then Some 0 else map_option Suc (scan_nul cs))"

fun strcat_loop :: "u8 list \<Rightarrow> nat \<Rightarrow> u8 list \<Rightarrow> u8 list option" where
  "strcat_loop dest i [] = None"
| "strcat_loop dest i (c # src) =
     (if c \<noteq> 0 then do { dest' \<leftarrow> wr dest i c; strcat_loop dest' (Suc i) src }
      else wr dest i 0)"

definition strcat :: "u8 list \<Rightarrow> u8 list \<Rightarrow> u8 list option" where
  "strcat dest src = do { i \<leftarrow> scan_nul dest; strcat_loop dest i src }"

fun strlen_loop :: "u8 list \<Rightarrow> i32 \<Rightarrow> i32 option" where
  "strlen_loop [] i = None"
| "strlen_loop (c # src) i = (if c \<noteq> 0 then strlen_loop src (i + 1) else Some i)"

text \<open>\<open>None\<close> is the null pointer, whose length is \<open>0\<close>.\<close>

definition strlen :: "u8 list option \<Rightarrow> i32 option" where
  "strlen src = (case src of None \<Rightarrow> Some 0 | Some s \<Rightarrow> strlen_loop s 0)"

fun str_first_index_of_loop :: "u8 list \<Rightarrow> u8 \<Rightarrow> i32 \<Rightarrow> i32 option" where
  "str_first_index_of_loop [] c i = None"
| "str_first_index_of_loop (a # src) c i =
     (if a = 0 then Some (- 1)
      else if a = c then Some i else str_first_index_of_loop src c (i + 1))"

definition str_first_index_of :: "u8 list \<Rightarrow> u8 \<Rightarrow> i32 option" where
  "str_first_index_of src c = str_first_index_of_loop src c 0"

section \<open>Random numbers\<close>

record rand_state =
  rs_x :: u32
  rs_y :: u32
  rs_z :: u32
  rs_w :: u32

definition rand_init :: rand_state where
  "rand_init = \<lparr>rs_x = 123456789, rs_y = 362436069, rs_z = 521288629, rs_w = 88675123\<rparr>"

definition rand :: "rand_state \<Rightarrow> rand_state \<times> u32" where
  "rand r = (let t = rs_x r XOR push_bit 11 (rs_x r);
                 w' = rs_w r XOR drop_bit 19 (rs_w r) XOR t XOR drop_bit 8 t
             in (\<lparr>rs_x = rs_y r, rs_y = rs_z r, rs_z = rs_w r, rs_w = w'\<rparr>, w'))"

section \<open>Numbers and text\<close>

text \<open>The characters the code names: \<^verbatim>\<open>'0'\<close>, \<^verbatim>\<open>'-'\<close>, \<^verbatim>\<open>'A'\<close>, \<^verbatim>\<open>'d'\<close>, \<^verbatim>\<open>'x'\<close> and so on.\<close>

definition ch :: "char \<Rightarrow> u8" where
  "ch c = of_char c"

fun atoi_loop :: "u8 list \<Rightarrow> i32 \<Rightarrow> i32 option" where
  "atoi_loop [] result = None"
| "atoi_loop (c # str) result =
     (if c \<noteq> 0 then atoi_loop str (result * 10 + scast c - ucast (ch CHR ''0'')) else Some result)"

definition atoi :: "u8 list \<Rightarrow> i32 option" where
  "atoi str = atoi_loop str 0"

definition digit_char :: "u32 \<Rightarrow> u8" where
  "digit_char r = (if r < 10 then ucast r + ch CHR ''0'' else ucast r + ch CHR ''A'' - 10)"

text \<open>
  The digit loop writes the least significant digit first, starting at offset \<open>p\<close>, and
  runs once even for zero; the offset after the last digit is returned.
\<close>

function itoa_loop :: "u8 list \<Rightarrow> nat \<Rightarrow> u32 \<Rightarrow> u32 \<Rightarrow> (u8 list \<times> nat) option" where
  "itoa_loop buf p ud divisor = do {
     buf' \<leftarrow> wr buf p (digit_char (ud mod divisor));
     if ud div divisor \<noteq> 0 then itoa_loop buf' (Suc p) (ud div divisor) divisor
     else Some (buf', Suc p)
   }"
  by pat_completeness auto
termination
  by (relation "measure (\<lambda>(buf, p, ud, divisor). length buf - p)")
    (auto simp: wr_def split: if_splits)

declare itoa_loop.simps [simp del]

function reverse_loop :: "u8 list \<Rightarrow> nat \<Rightarrow> nat \<Rightarrow> u8 list option" where
  "reverse_loop buf p1 p2 =
     (if p1 < p2 then do {
        tmp \<leftarrow> rd buf p1;
        c \<leftarrow> rd buf p2;
        buf' \<leftarrow> wr buf p1 c;
        buf'' \<leftarrow> wr buf' p2 tmp;
        reverse_loop buf'' (Suc p1) (p2 - 1)
      } else Some buf)"
  by pat_completeness auto
termination
  by (relation "measure (\<lambda>(buf, p1, p2). p2 - p1)") auto

declare reverse_loop.simps [simp del]

definition itoa :: "u8 list \<Rightarrow> u8 \<Rightarrow> i32 \<Rightarrow> u8 list option" where
  "itoa buf base d = do {
     let neg = (base = ch CHR ''d'' \<and> sint d < 0);
     (buf1, start, ud, divisor) \<leftarrow>
       (if neg then do { b \<leftarrow> wr buf 0 (ch CHR ''-''); Some (b, 1, - d, 10) }
        else if base = ch CHR ''x'' then Some (buf, 0, d, 16)
        else Some (buf, 0, d, 10));
     (buf2, p) \<leftarrow> itoa_loop buf1 start ud divisor;
     buf3 \<leftarrow> wr buf2 p 0;
     reverse_loop buf3 start (p - 1)
   }"

text \<open>
  The variadic arguments of \<^verbatim>\<open>sprintf_va\<close> are a list; fetching an argument of the wrong
  kind or past the end is a fault.
\<close>

datatype va_arg = VInt i32 | VStr "u8 list option"

definition PF_REPLACE_NEWLINE_RN :: u32 where
  "PF_REPLACE_NEWLINE_RN = 1"

text \<open>\<^verbatim>\<open>while (*p) buffer[buffer_index++] = *p++\<close>\<close>

fun put_str :: "u8 list \<Rightarrow> nat \<Rightarrow> u8 list \<Rightarrow> (u8 list \<times> nat) option" where
  "put_str buffer bi [] = None"
| "put_str buffer bi (c # cs) =
     (if c \<noteq> 0 then do { b \<leftarrow> wr buffer bi c; put_str b (Suc bi) cs }
      else Some (buffer, bi))"

definition va_int :: "va_arg list \<Rightarrow> (i32 \<times> va_arg list) option" where
  "va_int args = (case args of VInt d # rest \<Rightarrow> Some (d, rest) | _ \<Rightarrow> None)"

definition va_str :: "va_arg list \<Rightarrow> (u8 list option \<times> va_arg list) option" where
  "va_str args = (case args of VStr p # rest \<Rightarrow> Some (p, rest) | _ \<Rightarrow> None)"

definition null_text :: "u8 list" where
  "null_text = map ch ''(null)'' @ [0]"

text \<open>One conversion: the scratch array of 20 bytes, the argument and the copy.\<close>

definition sprintf_conv ::
  "u8 list \<Rightarrow> nat \<Rightarrow> u8 \<Rightarrow> va_arg list \<Rightarrow> (u8 list \<times> nat \<times> va_arg list) option"
where
  "sprintf_conv buffer bi c args =
     (if c = ch CHR ''p'' \<or> c = ch CHR ''x'' then do {
        (d, args') \<leftarrow> va_int args;
        digits \<leftarrow> itoa (replicate 18 0) c d;
        (b, bi') \<leftarrow> put_str buffer bi (ch CHR ''0'' # ch CHR ''x'' # digits);
        Some (b, bi', args')
      } else if c = ch CHR ''d'' \<or> c = ch CHR ''u'' then do {
        (d, args') \<leftarrow> va_int args;
        digits \<leftarrow> itoa (replicate 20 0) c d;
        (b, bi') \<leftarrow> put_str buffer bi digits;
        Some (b, bi', args')
      } else if c = ch CHR ''s'' then do {
        (p, args') \<leftarrow> va_str args;
        (b, bi') \<leftarrow> put_str buffer bi (case p of None \<Rightarrow> null_text | Some s \<Rightarrow> s);
        Some (b, bi', args')
      } else do {
        (d, args') \<leftarrow> va_int args;
        b \<leftarrow> wr buffer bi (ucast d);
        Some (b, Suc bi, args')
      })"

fun sprintf_loop ::
  "u8 list \<Rightarrow> u32 \<Rightarrow> u32 \<Rightarrow> u8 list \<Rightarrow> va_arg list \<Rightarrow> nat \<Rightarrow> (u8 list \<times> nat) option"
where
  "sprintf_loop buffer buffer_size flags [] args bi = None"
| "sprintf_loop buffer buffer_size flags (c # format) args bi =
     (if c = 0 then Some (buffer, bi)
      else if c = 10 then do {
        (b, bi') \<leftarrow> put_str buffer bi
           (if flags AND PF_REPLACE_NEWLINE_RN \<noteq> 0 then [13, 10, 0] else [10, 0]);
        if bi' \<ge> unat (buffer_size - 1) then Some (b, bi')
        else sprintf_loop b buffer_size flags format args bi'
      } else if c = ch CHR ''%'' then
        (case format of [] \<Rightarrow> None
         | c' # format' \<Rightarrow> do {
             (b, bi', args') \<leftarrow> sprintf_conv buffer bi c' args;
             if bi' \<ge> unat (buffer_size - 1) then Some (b, bi')
             else sprintf_loop b buffer_size flags format' args' bi'
           })
      else do {
        b \<leftarrow> wr buffer bi c;
        if Suc bi \<ge> unat (buffer_size - 1) then Some (b, Suc bi)
        else sprintf_loop b buffer_size flags format args (Suc bi)
      })"

definition sprintf_va ::
  "u8 list \<Rightarrow> u32 \<Rightarrow> u32 \<Rightarrow> u8 list \<Rightarrow> va_arg list \<Rightarrow> (u8 list \<times> i32) option"
where
  "sprintf_va buffer buffer_size flags format args = do {
     (b, bi) \<leftarrow> sprintf_loop buffer buffer_size flags format args 0;
     b' \<leftarrow> wr b bi 0;
     Some (b', of_nat bi)
   }"

definition sprintf :: "u8 list \<Rightarrow> u32 \<Rightarrow> u8 list \<Rightarrow> va_arg list \<Rightarrow> (u8 list \<times> i32) option" where
  "sprintf buffer buffer_size format args = sprintf_va buffer buffer_size 0 format args"

section \<open>Interrupt bookkeeping\<close>

text \<open>The interrupt flag of \<^verbatim>\<open>eflags\<close> and the file's global \<^verbatim>\<open>g_interrupts_were_enabled\<close>.\<close>

record irq_state =
  irq_eflags :: u32
  irq_were_enabled :: bool

definition is_interrupts_enabled :: "irq_state \<Rightarrow> bool" where
  "is_interrupts_enabled s = (irq_eflags s AND 0x200 = 0x200)"

definition enable_interrupts :: "irq_state \<Rightarrow> irq_state" where
  "enable_interrupts s = s\<lparr>irq_eflags := irq_eflags s OR 0x200\<rparr>"

definition disable_interrupts :: "irq_state \<Rightarrow> irq_state" where
  "disable_interrupts s = s\<lparr>irq_eflags := irq_eflags s AND NOT 0x200\<rparr>"

definition begin_critical_section :: "irq_state \<Rightarrow> irq_state" where
  "begin_critical_section s =
     disable_interrupts (s\<lparr>irq_were_enabled := is_interrupts_enabled s\<rparr>)"

definition end_critical_section :: "irq_state \<Rightarrow> irq_state" where
  "end_critical_section s = (if irq_were_enabled s then enable_interrupts s else s)"

section \<open>User pointers\<close>

definition USER_OFFSET :: u32 where
  "USER_OFFSET = 0x40000000"

definition check_user_access :: "ptr \<Rightarrow> bool" where
  "check_user_access pointer \<longleftrightarrow> pointer \<ge> USER_OFFSET \<or> pointer = 0"

text \<open>The array ends with a null pointer; an array without one is read past its end.\<close>

fun check_user_access_string_array :: "ptr list \<Rightarrow> bool option" where
  "check_user_access_string_array [] = None"
| "check_user_access_string_array (a # array) =
     (if a \<noteq> 0
      then (if \<not> check_user_access a then Some False else check_user_access_string_array array)
      else Some True)"

section \<open>What the block functions do\<close>

lemma memcpy_loop_ok:
  "i + n \<le> length dest \<Longrightarrow> i + n \<le> length src \<Longrightarrow>
   memcpy_loop dest src i n = Some (take i dest @ take n (drop i src) @ drop (i + n) dest)"
proof (induction n arbitrary: dest i)
  case 0
  then show ?case by simp
next
  case (Suc n)
  have "take (Suc i) (dest[i := src ! i]) = take i dest @ [src ! i]"
    using Suc.prems by (simp add: take_Suc_conv_app_nth)
  moreover have "drop i src = src ! i # drop (Suc i) src"
    using Suc.prems by (simp add: Cons_nth_drop_Suc)
  ultimately show ?case
    using Suc.prems Suc.IH [of "Suc i" "dest[i := src ! i]"]
    by (simp add: rd_def wr_def)
qed

lemma memset_loop_ok:
  "i + n \<le> length dest \<Longrightarrow>
   memset_loop dest v i n = Some (take i dest @ replicate n v @ drop (i + n) dest)"
proof (induction n arbitrary: dest i)
  case 0
  then show ?case by simp
next
  case (Suc n)
  have "take (Suc i) (dest[i := v]) = take i dest @ [v]"
    using Suc.prems by (simp add: take_Suc_conv_app_nth)
  then show ?case
    using Suc.prems Suc.IH [of "Suc i" "dest[i := v]"] by (simp add: wr_def)
qed

lemma memmove_up_ok:
  "d < s \<Longrightarrow> s + n \<le> length m \<Longrightarrow>
   memmove_up m d s n = Some (take d m @ take n (drop s m) @ drop (d + n) m)"
proof (induction n arbitrary: m d s)
  case 0
  then show ?case by simp
next
  case (Suc n)
  have "take (Suc d) (m[d := m ! s]) = take d m @ [m ! s]"
    using Suc.prems by (simp add: take_Suc_conv_app_nth)
  moreover have "drop s m = m ! s # drop (Suc s) m"
    using Suc.prems by (simp add: Cons_nth_drop_Suc)
  ultimately show ?case
    using Suc.prems Suc.IH [of "Suc d" "Suc s" "m[d := m ! s]"]
    by (simp add: rd_def wr_def)
qed

lemma memmove_down_ok:
  "s \<le> d \<Longrightarrow> d + n \<le> length m \<Longrightarrow>
   memmove_down m d s n = Some (take d m @ take n (drop s m) @ drop (d + n) m)"
proof (induction n arbitrary: m)
  case 0
  then show ?case by simp
next
  case (Suc n)
  let ?m' = "m[d + n := m ! (s + n)]"
  have "drop (d + n) ?m' = m ! (s + n) # drop (Suc (d + n)) m"
    using Suc.prems by (simp add: Cons_nth_drop_Suc [symmetric])
  moreover have "take n (drop s ?m') = take n (drop s m)"
    using Suc.prems by (simp add: drop_update_swap)
  moreover have "take (Suc n) (drop s m) = take n (drop s m) @ [m ! (s + n)]"
    using Suc.prems by (simp add: take_Suc_conv_app_nth)
  ultimately show ?case
    using Suc.prems Suc.IH [of ?m'] by (simp add: rd_def wr_def)
qed

lemma memcmp_loop_ok:
  "n \<le> length p1 \<Longrightarrow> n \<le> length p2 \<Longrightarrow>
   \<exists>r. memcmp_loop p1 p2 n 0 = Some r \<and> (r = 0 \<longleftrightarrow> take n p1 = take n p2)"
proof (induction n arbitrary: p1 p2)
  case 0
  then show ?case by simp
next
  case (Suc n)
  then obtain a p1' b p2' where "p1 = a # p1'" "p2 = b # p2'"
    by (cases p1; cases p2) auto
  then show ?case using Suc.IH [of p1' p2'] Suc.prems by (auto simp: Let_def)
qed

section \<open>What the string functions do\<close>

definition cstr :: "u8 list \<Rightarrow> u8 list \<Rightarrow> bool" where
  "cstr s obj \<longleftrightarrow> 0 \<notin> set s \<and> take (Suc (length s)) obj = s @ [0]"

lemma cstr_iff: "cstr s obj \<longleftrightarrow> 0 \<notin> set s \<and> (\<exists>rest. obj = s @ 0 # rest)"
proof
  assume c: "cstr s obj"
  then have "obj = (s @ [0]) @ drop (Suc (length s)) obj"
    unfolding cstr_def by (metis append_take_drop_id)
  then show "0 \<notin> set s \<and> (\<exists>rest. obj = s @ 0 # rest)"
    using c by (auto simp: cstr_def)
qed (auto simp: cstr_def)

lemma cstr_Cons: "cstr (c # s) (a # obj) \<longleftrightarrow> c \<noteq> 0 \<and> a = c \<and> cstr s obj"
  by (auto simp: cstr_iff)

lemma cstr_len: "cstr s obj \<Longrightarrow> length s < length obj"
  by (auto simp: cstr_iff)

lemma cstr_nth: "cstr s obj \<Longrightarrow> i < length s \<Longrightarrow> obj ! i = s ! i"
  by (auto simp: cstr_iff nth_append)

lemma strcmp_cstr:
  "cstr s a \<Longrightarrow> cstr t b \<Longrightarrow> strcmp a b = Some (if s = t then 0 else 1)"
proof (induction s arbitrary: a t b)
  case Nil
  then obtain a' where "a = 0 # a'" by (auto simp: cstr_iff)
  then show ?case using Nil.prems(2) by (cases t) (auto simp: cstr_iff)
next
  case (Cons c s)
  then obtain a' where a: "a = c # a'" "c \<noteq> 0" "cstr s a'" by (auto simp: cstr_iff)
  show ?case
  proof (cases t)
    case Nil
    then show ?thesis using Cons.prems a by (auto simp: cstr_iff)
  next
    case (Cons d t')
    with \<open>cstr t b\<close> obtain b' where b: "b = d # b'" "d \<noteq> 0" "cstr t' b'"
      by (auto simp: cstr_iff)
    show ?thesis using Cons.IH [OF a(3) b(3)] a b Cons by simp
  qed
qed

lemma strcpy_loop_cstr:
  "cstr s src \<Longrightarrow> s \<noteq> [] \<Longrightarrow> i + length s \<le> length dest \<Longrightarrow>
   strcpy_loop dest i src = Some (take i dest @ s @ drop (i + length s) dest, i + length s)"
proof (induction s arbitrary: src dest i)
  case Nil
  then show ?case by simp
next
  case (Cons c s)
  then obtain src' where src: "src = c # src'" "cstr s src'" by (auto simp: cstr_iff)
  have upd: "take (Suc i) (dest[i := c]) = take i dest @ [c]"
    using Cons.prems by (simp add: take_Suc_conv_app_nth)
  show ?case
  proof (cases s)
    case Nil
    then have "src' = 0 # tl src'" using src(2) by (auto simp: cstr_iff)
    then show ?thesis
      using Cons.prems Nil src upd
      by (auto simp: wr_def upd_conv_take_nth_drop split: list.split)
  next
    case (Cons c' s')
    then obtain src'' where "src' = c' # src''" "c' \<noteq> 0" using src(2) by (auto simp: cstr_iff)
    then show ?thesis
      using Cons.IH [OF src(2), of "Suc i" "dest[i := c]"] Cons.prems src upd Cons
      by (simp add: wr_def)
  qed
qed

lemma strlen_cstr: "cstr s obj \<Longrightarrow> strlen_loop obj i = Some (i + of_nat (length s))"
proof (induction s arbitrary: obj i)
  case (Cons c s)
  then obtain obj' where obj: "obj = c # obj'" "c \<noteq> 0" "cstr s obj'" by (auto simp: cstr_iff)
  show ?case using Cons.IH [OF obj(3), of "i + 1"] obj by (simp add: add.assoc)
qed (auto simp: cstr_iff)

definition pad_nth :: "u8 list \<Rightarrow> nat \<Rightarrow> u8" where
  "pad_nth s j = (if j < length s then s ! j else 0)"

lemma take_drop_update:
  "i < length dest \<Longrightarrow> take i dest @ v # drop (Suc i) dest = dest[i := v]"
  by (simp add: upd_conv_take_nth_drop)

text \<open>One round of either bounded copy: the source is read exactly up to its NUL.\<close>

lemma read_round:
  assumes "cstr s src"
  shows "(if length s < i then Some True else do { c \<leftarrow> rd src i; Some (c = 0) }) =
           Some (length s < Suc i)"
    and "(if length s < Suc i then Some 0 else rd src i) = Some (pad_nth s i)"
proof -
  obtain rest where src: "src = s @ 0 # rest" and z: "0 \<notin> set s"
    using assms by (auto simp: cstr_iff)
  have "i < length s \<Longrightarrow> s ! i \<noteq> 0" using z by (metis nth_mem)
  then show "(if length s < i then Some True else do { c \<leftarrow> rd src i; Some (c = 0) }) =
           Some (length s < Suc i)"
    by (auto simp: src rd_def nth_append)
  show "(if length s < Suc i then Some 0 else rd src i) = Some (pad_nth s i)"
    by (auto simp: src rd_def nth_append pad_nth_def)
qed

lemma strncpy_loop_cstr:
  "cstr s src \<Longrightarrow> i + k \<le> length dest \<Longrightarrow>
   strncpy_loop dest src (length s < i) i k =
     Some (take i dest @ map (pad_nth s) [i..<i + k] @ drop (i + k) dest)"
proof (induction k arbitrary: dest i)
  case 0
  then show ?case by simp
next
  case (Suc k)
  let ?d = "dest[i := pad_nth s i]"
  have "take (Suc i) ?d = take i dest @ [pad_nth s i]"
    using Suc.prems by (simp add: take_Suc_conv_app_nth)
  moreover have "[i..<i + Suc k] = i # [Suc i..<i + Suc k]" by (simp add: upt_conv_Cons)
  ultimately show ?case
    using Suc.IH [of "Suc i" ?d] Suc.prems
    by (simp add: read_round wr_def del: upt_Suc)
qed

lemma strncpy_null_loop_cstr:
  "cstr s src \<Longrightarrow> i + k = unat num \<Longrightarrow> unat num \<le> length dest \<Longrightarrow>
   strncpy_null_loop dest src num (length s < i) i k =
     Some (take i dest @ map (\<lambda>j. if Suc j = unat num then 0 else pad_nth s j) [i..<i + k]
           @ drop (i + k) dest)"
proof (induction k arbitrary: dest i)
  case 0
  then show ?case by simp
next
  case (Suc k)
  let ?v = "if Suc i = unat num then 0 else pad_nth s i"
  let ?d = "dest[i := ?v]"
  have num: "i = unat (num - 1) \<longleftrightarrow> Suc i = unat num"
    using Suc.prems(2) by (simp add: unat_minus1 word_gt_0) (metis Suc_pred' add_gr_0 diff_Suc_1
      unat_minus1 word_gt_0 zero_less_Suc unat_gt_0)
  have "take (Suc i) ?d = take i dest @ [?v]"
    using Suc.prems by (simp add: take_Suc_conv_app_nth)
  moreover have "[i..<i + Suc k] = i # [Suc i..<i + Suc k]" by (simp add: upt_conv_Cons)
  moreover have "strncpy_null_loop dest src num (length s < i) i (Suc k) =
      strncpy_null_loop ?d src num (length s < Suc i) (Suc i) k"
    unfolding strncpy_null_loop.simps read_round [OF Suc.prems(1)] bind.bind_lunit
    using num Suc.prems(2,3) by (simp add: wr_def)
  ultimately show ?case
    using Suc.IH [of "Suc i" ?d] Suc.prems by (simp del: upt_Suc strncpy_null_loop.simps)
qed

lemma strcpy_cstr:
  assumes "cstr s src" and "s \<noteq> []" and "length s < length dest"
  shows "strcpy dest src = Some (s @ 0 # drop (Suc (length s)) dest, length s)"
proof -
  have "wr (s @ drop (length s) dest) (length s) 0 = Some (s @ 0 # drop (Suc (length s)) dest)"
    using assms(3) by (simp add: wr_def list_update_append Cons_nth_drop_Suc [symmetric])
  then show ?thesis
    using strcpy_loop_cstr [OF assms(1,2), of 0 dest] assms(3) by (simp add: strcpy_def)
qed

lemma strcpy_empty: "strcpy dest [0] = None"
  by (cases dest) (auto simp: strcpy_def wr_def)

section \<open>Formatting numbers\<close>

text \<open>The digits of a number, least significant first.\<close>

function digs :: "nat \<Rightarrow> nat \<Rightarrow> nat list" where
  "digs b n = (if n div b = 0 \<or> b \<le> 1 then [n mod b] else n mod b # digs b (n div b))"
  by pat_completeness auto
termination
  by (relation "measure (\<lambda>(b, n). n)") (auto simp: div_less_dividend div_greater_zero_iff)

declare digs.simps [simp del]

lemma digs_nonempty: "digs b n \<noteq> []"
  by (subst digs.simps) simp

lemma digs_less: "1 < b \<Longrightarrow> d \<in> set (digs b n) \<Longrightarrow> d < b"
proof (induction b n rule: digs.induct)
  case (1 b n)
  then show ?case by (subst (asm) (2) digs.simps) (auto split: if_splits)
qed

lemma digs_value: "1 < b \<Longrightarrow> foldr (\<lambda>d v. d + b * v) (digs b n) 0 = n"
proof (induction b n rule: digs.induct)
  case (1 b n)
  show ?case
    using 1 by (subst digs.simps) (auto simp: mod_mult_div_eq div_eq_0_iff)
qed

lemma length_digs: "1 < b \<Longrightarrow> n < b ^ k \<Longrightarrow> 0 < k \<Longrightarrow> length (digs b n) \<le> k"
proof (induction b n arbitrary: k rule: digs.induct)
  case (1 b n)
  show ?case
  proof (cases "n div b = 0")
    case True
    with "1.prems" show ?thesis by (subst digs.simps) simp
  next
    case False
    then have "k \<noteq> 1" using "1.prems" by (auto simp: div_eq_0_iff)
    then obtain k' where k: "k = Suc k'" "0 < k'" using "1.prems"(3) by (cases k) auto
    have "n div b < b ^ k'" using "1.prems"(1,2) k by (simp add: less_mult_imp_div_less mult.commute)
    then have "length (digs b (n div b)) \<le> k'" using "1.IH" False "1.prems"(1) k by simp
    then show ?thesis using False "1.prems"(1) k by (subst digs.simps) simp
  qed
qed

definition dchar :: "nat \<Rightarrow> u8" where
  "dchar d = (if d < 10 then of_nat d + 48 else of_nat d + 55)"

lemma digit_char_dchar: "digit_char r = dchar (unat r)"
  by (auto simp: digit_char_def dchar_def ch_def word_less_nat_alt)

lemma itoa_loop_ok:
  assumes "1 < divisor" and "p + length (digs (unat divisor) (unat ud)) \<le> length buf"
  shows "itoa_loop buf p ud divisor =
    (let ds = map dchar (digs (unat divisor) (unat ud))
     in Some (take p buf @ ds @ drop (p + length ds) buf, p + length ds))"
  using assms
proof (induction buf p ud divisor rule: itoa_loop.induct)
  case (1 buf p ud divisor)
  let ?b = "unat divisor" and ?n = "unat ud" and ?c = "digit_char (ud mod divisor)"
  have b: "1 < ?b" using "1.prems"(1) by (simp add: word_less_nat_alt)
  have c: "?c = dchar (?n mod ?b)" by (simp add: digit_char_dchar unat_mod_distrib)
  have p: "p < length buf"
    using "1.prems"(2) digs_nonempty [of ?b ?n] by (cases "digs ?b ?n") auto
  then have w: "wr buf p ?c = Some (buf[p := ?c])" by (simp add: wr_def)
  have upd: "take (Suc p) (buf[p := ?c]) = take p buf @ [?c]"
    using p by (simp add: take_Suc_conv_app_nth)
  have quot: "unat (ud div divisor) = ?n div ?b" by (simp add: unat_div_distrib)
  show ?case
  proof (cases "ud div divisor = 0")
    case True
    then have q0: "?n div ?b = 0" using quot by simp
    then have "digs ?b ?n = [?n mod ?b]" by (subst digs.simps) simp
    then show ?thesis
      using True w c p by (subst itoa_loop.simps) (simp add: upd_conv_take_nth_drop)
  next
    case False
    then have "?n div ?b \<noteq> 0" using quot by (metis unat_eq_zero)
    then have ds: "digs ?b ?n = ?n mod ?b # digs ?b (?n div ?b)"
      using b by (subst digs.simps) simp
    then show ?thesis
      using "1.IH" [OF w False "1.prems"(1)] "1.prems"(2) False w c upd quot
      by (subst itoa_loop.simps) (simp add: Let_def)
  qed
qed

lemma list_two_ends: "2 \<le> length ys \<Longrightarrow> \<exists>a mid b. ys = a # mid @ [b]"
  by (cases ys; cases "tl ys" rule: rev_cases) auto

lemma reverse_loop_ok:
  "reverse_loop (xs @ ys @ zs) (length xs) (length xs + length ys - 1) = Some (xs @ rev ys @ zs)"
proof (induction ys arbitrary: xs zs rule: length_induct)
  case (1 ys)
  show ?case
  proof (cases "2 \<le> length ys")
    case False
    then have "ys = [] \<or> (\<exists>a. ys = [a])" by (cases ys; cases "tl ys") auto
    then show ?thesis by (auto simp: reverse_loop.simps)
  next
    case True
    then obtain a mid b where ys: "ys = a # mid @ [b]" using list_two_ends by blast
    let ?buf = "xs @ ys @ zs" and ?p1 = "length xs" and ?p2 = "length xs + Suc (length mid)"
    have r: "?buf ! ?p1 = a" "?buf ! ?p2 = b" using ys by (simp_all add: nth_append)
    have u: "?buf[?p1 := b, ?p2 := a] = (xs @ [b]) @ mid @ (a # zs)"
      using ys by (simp add: list_update_append)
    have IH: "reverse_loop ((xs @ [b]) @ mid @ (a # zs)) (length (xs @ [b]))
        (length (xs @ [b]) + length mid - 1) = Some ((xs @ [b]) @ rev mid @ (a # zs))"
      by (rule "1" [rule_format]) (simp add: ys)
    have "reverse_loop ?buf ?p1 ?p2 =
        reverse_loop (?buf[?p1 := b, ?p2 := a]) (Suc ?p1) (?p2 - 1)"
      using r ys by (subst reverse_loop.simps) (simp add: rd_def wr_def)
    then show ?thesis using u IH ys by simp
  qed
qed

text \<open>What \<open>itoa\<close> writes for a non-negative number: its digits, most significant first.\<close>

lemma itoa_ok:
  fixes divisor :: u32
  assumes "\<not> (base = ch CHR ''d'' \<and> sint d < 0)"
    and "unat divisor = (if base = ch CHR ''x'' then 16 else 10)"
    and "length (digs (unat divisor) (unat d)) < length buf"
  shows "\<exists>rest. itoa buf base d = Some (rev (map dchar (digs (unat divisor) (unat d))) @ 0 # rest)"
proof -
  let ?ds = "map dchar (digs (unat divisor) (unat d))"
  have dv: "divisor = (if base = ch CHR ''x'' then 16 else 10)" "1 < divisor"
    using assms(2) by (auto simp: word_unat_eq_iff word_less_nat_alt split: if_splits)
  have loop: "itoa_loop buf 0 d divisor = Some (?ds @ drop (length ?ds) buf, length ?ds)"
    using itoa_loop_ok [OF dv(2), of 0 d buf] assms(3) by (simp add: Let_def)
  have nul: "wr (?ds @ drop (length ?ds) buf) (length ?ds) 0 =
      Some (?ds @ 0 # drop (Suc (length ?ds)) buf)"
    using assms(3) by (simp add: wr_def list_update_append Cons_nth_drop_Suc [symmetric])
  have "reverse_loop (?ds @ 0 # drop (Suc (length ?ds)) buf) 0 (length ?ds - 1) =
      Some (rev ?ds @ 0 # drop (Suc (length ?ds)) buf)"
    using reverse_loop_ok [of "[]" ?ds "0 # drop (Suc (length ?ds)) buf"] by simp
  then have "itoa buf base d = Some (rev ?ds @ 0 # drop (Suc (length ?ds)) buf)"
    using assms(1) dv(1) loop nul by (auto simp: itoa_def Let_def simp del: length_map)
  then show ?thesis by blast
qed

lemma atoi_loop_digits:
  "list_all (\<lambda>d. d < 10) ds \<Longrightarrow>
   atoi_loop (map dchar ds @ 0 # rest) r =
     Some (foldl (\<lambda>v d. v * 10 + of_nat d) r ds)"
proof (induction ds arbitrary: r)
  case (Cons d ds)
  have d: "d < 10" using Cons.prems by simp
  have lt: "d = 0 \<or> d = 1 \<or> d = 2 \<or> d = 3 \<or> d = 4 \<or> d = 5 \<or> d = 6 \<or> d = 7 \<or> d = 8 \<or> d = 9"
    using d by arith
  then have "dchar d \<noteq> 0 \<and> scast (dchar d) - (ucast (ch CHR ''0'') :: i32) = of_nat d"
    by (auto simp: dchar_def ch_def)
  then show ?case using Cons by (simp add: add_diff_eq [symmetric])
qed simp

lemma foldl_digits:
  "foldl (\<lambda>v d. v * 10 + of_nat d) 0 (rev ds) =
     (of_nat (foldr (\<lambda>d v. d + 10 * v) ds 0) :: i32)"
  by (induction ds) (simp_all add: algebra_simps)

section \<open>The random number generator\<close>

lemma xor_eq_0: "(a :: u32) XOR b = 0 \<longleftrightarrow> a = b"
  by (auto simp: bit_eq_iff bit_xor_iff)

lemma push_fixpoint:
  fixes d :: u32
  assumes "push_bit 11 d = d"
  shows "d = 0"
proof -
  have "\<not> bit d n" for n
  proof (induction n rule: less_induct)
    case (less n)
    have "bit d n \<longleftrightarrow> bit (push_bit 11 d) n" using assms by simp
    then show ?case using less [of "n - 11"] by (auto simp: bit_push_bit_iff)
  qed
  then show ?thesis by (simp add: bit_eq_iff)
qed

lemma drop_fixpoint:
  fixes d :: u32
  assumes "drop_bit 8 d = d"
  shows "d = 0"
proof -
  have step: "bit d n \<longleftrightarrow> bit d (8 + n)" for n
    using arg_cong [OF assms, of "\<lambda>w. bit w n"] by (simp add: bit_drop_bit_eq)
  have "\<not> bit d n" for n
  proof
    assume "bit d n"
    then have "bit d (8 + (8 + (8 + (8 + n))))" using step by blast
    from bit_imp_le_length [OF this] show False by simp
  qed
  then show ?thesis by (simp add: bit_eq_iff)
qed

lemma xor_push_inj:
  fixes x y :: u32
  assumes "x XOR push_bit 11 x = y XOR push_bit 11 y"
  shows "x = y"
proof -
  have "push_bit 11 (x XOR y) XOR (x XOR y) =
      (x XOR push_bit 11 x) XOR (y XOR push_bit 11 y)"
    by (simp add: push_bit_xor ac_simps)
  then have "push_bit 11 (x XOR y) = x XOR y" using assms by (simp add: xor_eq_0)
  then have "x XOR y = 0" by (rule push_fixpoint)
  then show ?thesis by (simp add: xor_eq_0)
qed

lemma xor_drop_inj:
  fixes x y :: u32
  assumes "x XOR drop_bit 8 x = y XOR drop_bit 8 y"
  shows "x = y"
proof -
  have "drop_bit 8 (x XOR y) XOR (x XOR y) =
      (x XOR drop_bit 8 x) XOR (y XOR drop_bit 8 y)"
    by (simp add: drop_bit_xor ac_simps)
  then have "drop_bit 8 (x XOR y) = x XOR y" using assms by (simp add: xor_eq_0)
  then have "x XOR y = 0" by (rule drop_fixpoint)
  then show ?thesis by (simp add: xor_eq_0)
qed

lemma xor_cancel:
  fixes a b c :: u32
  shows "a XOR b = a XOR c \<longleftrightarrow> b = c"
  by (auto simp: bit_eq_iff bit_xor_iff)

lemma rand_step_inj: "fst (rand r) = fst (rand r') \<Longrightarrow> r = r'"
proof -
  assume eq: "fst (rand r) = fst (rand r')"
  let ?t = "\<lambda>r. rs_x r XOR push_bit 11 (rs_x r)"
  have same: "rs_y r = rs_y r'" "rs_z r = rs_z r'" "rs_w r = rs_w r'"
    and w: "rs_w r XOR drop_bit 19 (rs_w r) XOR ?t r XOR drop_bit 8 (?t r) =
      rs_w r' XOR drop_bit 19 (rs_w r') XOR ?t r' XOR drop_bit 8 (?t r')"
    using eq by (auto simp: rand_def Let_def)
  then have "?t r XOR drop_bit 8 (?t r) = ?t r' XOR drop_bit 8 (?t r')"
    by (simp add: xor.assoc xor_cancel)
  then have "?t r = ?t r'" by (rule xor_drop_inj)
  then have "rs_x r = rs_x r'" by (rule xor_push_inj)
  with same show ?thesis by (cases r; cases r') simp
qed

section \<open>Interrupt bookkeeping\<close>

lemma bit_if_mask: "bit (0x200 :: u32) n \<longleftrightarrow> n = 9"
proof -
  have m: "(0x200 :: u32) = 2 ^ 9" by simp
  show ?thesis unfolding m bit_exp_iff by auto
qed

lemma is_enabled_iff_bit: "is_interrupts_enabled s \<longleftrightarrow> bit (irq_eflags s) 9"
proof -
  have "irq_eflags s AND 0x200 = 0x200 \<longleftrightarrow>
      (\<forall>n. bit (0x200 :: u32) n \<longrightarrow> bit (irq_eflags s) n)"
    unfolding bit_eq_iff bit_and_iff using bit_imp_le_length [of "0x200 :: u32"] by auto
  then show ?thesis unfolding is_interrupts_enabled_def bit_if_mask by simp
qed

lemma irq_simps [simp]:
  "is_interrupts_enabled (enable_interrupts s)"
  "\<not> is_interrupts_enabled (disable_interrupts s)"
  "irq_were_enabled (enable_interrupts s) = irq_were_enabled s"
  "irq_were_enabled (disable_interrupts s) = irq_were_enabled s"
  by (simp_all add: is_enabled_iff_bit enable_interrupts_def disable_interrupts_def
      bit_or_iff bit_and_iff bit_not_iff bit_if_mask)

lemma begin_disables [simp]: "\<not> is_interrupts_enabled (begin_critical_section s)"
  by (simp add: begin_critical_section_def)

lemma begin_remembers [simp]: "irq_were_enabled (begin_critical_section s) = is_interrupts_enabled s"
  by (simp add: begin_critical_section_def)

lemma put_str_overrun:
  "cstr s obj \<Longrightarrow> bi \<le> length buffer \<Longrightarrow> length buffer < bi + length s \<Longrightarrow>
   put_str buffer bi obj = None"
proof (induction s arbitrary: buffer bi obj)
  case Nil
  then show ?case by (auto simp: cstr_iff)
next
  case (Cons c s)
  then obtain obj' where obj: "obj = c # obj'" "c \<noteq> 0" "cstr s obj'" by (auto simp: cstr_iff)
  then show ?case using Cons.IH [OF obj(3)] Cons.prems(2,3) by (auto simp: wr_def)
qed

section \<open>Properties\<close>

text \<open>
  \<^verbatim>\<open>memmove\<close> copies \<open>n\<close> bytes inside one object from offset \<open>s\<close> to offset \<open>d\<close> as if
  through a temporary buffer, however the two blocks overlap, and changes nothing else.
\<close>

theorem memmove_correct:
  assumes "s + unat n \<le> length m" and "d + unat n \<le> length m"
  shows "memmove m d s n =
    Some (take d m @ take (unat n) (drop s m) @ drop (d + unat n) m)"
  using assms by (simp add: memmove_def memmove_up_ok memmove_down_ok)

theorem memmove_correct_witness:
  "memmove [1, 2, 3, 4, 5] 1 0 3 = Some [1, 1, 2, 3, 5 :: u8]"
  using memmove_correct [of 0 3 "[1, 2, 3, 4, 5]" 1] by simp

text \<open>
  On two C strings \<^verbatim>\<open>strcmp\<close> stays inside both objects and returns \<open>0\<close> exactly when
  they are equal; on different strings it returns \<open>1\<close>, whichever is the smaller.
\<close>

theorem strcmp_equality:
  assumes "cstr s a" and "cstr t b"
  shows "strcmp a b = Some (if s = t then 0 else 1)"
  using assms by (rule strcmp_cstr)

theorem strcmp_equality_witness:
  "cstr [97, 98] [97, 98, 0] \<and> cstr [97] [97, 0, 7] \<and> strcmp [97, 98, 0] [97, 0, 7] = Some 1"
  using strcmp_equality [of "[97, 98]" "[97, 98, 0]" "[97]" "[97, 0, 7]"]
  by (simp add: cstr_def)

text \<open>
  \<^verbatim>\<open>strcpy\<close> of a non-empty string writes exactly its characters and the NUL and returns
  a pointer to the NUL it wrote. On the empty string it reads the byte behind the source's
  NUL: with a source object that holds only the NUL the copy leaves the object.
\<close>

theorem strcpy_correct:
  shows "(cstr s src \<and> s \<noteq> [] \<and> length s < length dest \<longrightarrow>
      strcpy dest src = Some (s @ 0 # drop (Suc (length s)) dest, length s)) \<and>
    strcpy dest [0] = None"
  using strcpy_cstr strcpy_empty by blast

theorem strcpy_correct_witness:
  "strcpy [9, 9, 9, 9] [104, 105, 0] = Some ([104, 105, 0, 9], 2)"
  using strcpy_correct [of "[104, 105]" "[104, 105, 0]" "[9, 9, 9, 9]"] by (simp add: cstr_def)

text \<open>
  \<^verbatim>\<open>strncpy_null\<close> writes exactly \<open>num\<close> bytes of the destination: the source padded with
  NULs and cut so that the last byte is always NUL, so the result is a C string.
\<close>

theorem strncpy_null_terminates:
  assumes "cstr s src" and "0 < num" and "unat num \<le> length dest"
  shows "\<exists>r. strncpy_null dest src num = Some r \<and> length r = length dest \<and>
    cstr (take (unat num - 1) s) r \<and> drop (unat num) r = drop (unat num) dest"
proof -
  let ?n = "unat num"
  let ?f = "\<lambda>j. if Suc j = ?n then 0 else pad_nth s j"
  let ?r = "map ?f [0..<?n] @ drop ?n dest"
  have n: "0 < ?n" using assms(2) by (simp add: word_less_nat_alt)
  have run: "strncpy_null dest src num = Some ?r"
    using strncpy_null_loop_cstr [OF assms(1), of 0 ?n num dest] assms(3)
    by (simp add: strncpy_null_def)
  let ?t = "take (?n - 1) s"
  have len: "length ?t < ?n" using n by auto
  have "take (Suc (length ?t)) ?r = map ?f [0..<Suc (length ?t)]"
    using len by (simp add: take_map del: upt_Suc)
  also have "\<dots> = ?t @ [0]"
    using n by (intro nth_equalityI) (auto simp: nth_append pad_nth_def min_def simp del: upt_Suc)
  finally have "cstr ?t ?r"
    using assms(1) by (auto simp: cstr_def cstr_iff dest: in_set_takeD)
  then show ?thesis using run assms(3) by auto
qed

theorem strncpy_null_terminates_witness:
  "\<exists>r. strncpy_null [7, 7, 7, 7] [104, 105, 106, 0] 3 = Some r \<and> cstr [104, 105] r"
  using strncpy_null_terminates [of "[104, 105, 106]" "[104, 105, 106, 0]" 3 "[7, 7, 7, 7]"]
  by (auto simp: cstr_def)

text \<open>
  C34: \<^verbatim>\<open>itoa\<close> followed by \<^verbatim>\<open>atoi\<close> gives the number back: for base \<^verbatim>\<open>'u'\<close> on every 32-bit
  value, for \<^verbatim>\<open>'d'\<close> on the values that are not negative, in any buffer of at least eleven bytes.
\<close>

theorem itoa_atoi_roundtrip:
  assumes "base = ch CHR ''u'' \<or> base = ch CHR ''d'' \<and> 0 \<le> sint d" and "11 \<le> length buf"
  shows "\<exists>text. itoa buf base d = Some text \<and> atoi text = Some d"
proof -
  let ?ds = "digs 10 (unat d)"
  have base: "\<not> (base = ch CHR ''d'' \<and> sint d < 0)" "base \<noteq> ch CHR ''x''"
    using assms(1) by (auto simp: ch_def)
  have "unat d < 10 ^ 10" using u32_less [of d] by simp
  then have "length ?ds \<le> 10" using length_digs [of 10 "unat d" 10] by simp
  then obtain rest where run: "itoa buf base d = Some (rev (map dchar ?ds) @ 0 # rest)"
    using itoa_ok [of base d 10 buf] base assms(2) by auto
  have "list_all (\<lambda>d. d < 10) (rev ?ds)" using digs_less [of 10] by (auto simp: list_all_iff)
  from atoi_loop_digits [OF this, of rest 0]
  have "atoi (rev (map dchar ?ds) @ 0 # rest) = Some (of_nat (unat d))"
    using foldl_digits [of ?ds] digs_value [of 10 "unat d"] by (simp add: atoi_def rev_map)
  then show ?thesis using run by simp
qed

theorem itoa_atoi_roundtrip_witness:
  "\<exists>text. itoa (replicate 20 0) (ch CHR ''d'') 1905 = Some text \<and> atoi text = Some 1905"
  by (rule itoa_atoi_roundtrip) simp_all

text \<open>
  \<^verbatim>\<open>sprintf\<close> tests the buffer's size only after a whole conversion: a \<^verbatim>\<open>%s\<close> argument that is
  not shorter than the buffer is written past the buffer's end, whatever \<^verbatim>\<open>buffer_size\<close> is given.
\<close>

theorem sprintf_string_overrun:
  assumes "cstr s obj" and "length buffer < length s"
  shows "sprintf buffer buffer_size (map ch ''%s'' @ [0]) [VStr (Some obj)] = None"
  using put_str_overrun [OF assms(1), of 0 buffer] assms(2)
  by (simp add: sprintf_def sprintf_va_def sprintf_conv_def va_str_def ch_def)

theorem sprintf_string_overrun_witness:
  "sprintf [0, 0] 2 (map ch ''%s'' @ [0]) [VStr (Some [104, 105, 106, 0])] = None"
  by (rule sprintf_string_overrun [of "[104, 105, 106]"]) (simp_all add: cstr_def)

text \<open>
  One critical section gives the interrupt flag back as it was, but sections do not
  nest: the inner one overwrites the saved flag, so after two balanced sections interrupts
  stay disabled even if they were enabled before.
\<close>

theorem critical_section_nesting:
  "is_interrupts_enabled (end_critical_section (begin_critical_section s)) = is_interrupts_enabled s \<and>
   \<not> is_interrupts_enabled (end_critical_section (end_critical_section
        (begin_critical_section (begin_critical_section s))))"
  by (simp add: end_critical_section_def)

text \<open>
  A null-terminated array of user pointers passes \<^verbatim>\<open>check_user_access_string_array\<close> exactly
  when every pointer before the terminator is a user address; the kernel half is refused.
\<close>

theorem check_user_strings:
  assumes "0 \<notin> set ps"
  shows "check_user_access_string_array (ps @ 0 # rest) =
    Some (\<forall>p \<in> set ps. USER_OFFSET \<le> p)"
  using assms by (induction ps) (auto simp: check_user_access_def)

theorem check_user_strings_witness:
  "check_user_access_string_array [0x40001000, 0x1000, 0] = Some False"
  using check_user_strings [of "[0x40001000, 0x1000]" "[]"] by (simp add: USER_OFFSET_def)

end
