(* ===== verification/Spinlock.thy ===== *)
theory Spinlock
  imports Prelude
begin

text \<open>
  \<^verbatim>\<open>kernel/spinlock.c\<close>: the lock word, its operations, and the interleavings of any number
  of threads that use it. A call of \<open>spinlock_lock\<close> gets the values the lock word has at its
  successive attempts (another thread may change the word while the caller halts between
  two attempts); it is \<open>None\<close> when none of them finds the lock free.
\<close>

section \<open>Operations\<close>

type_synonym Spinlock = i32

text \<open>The new contents of the word and the old one, exchanged in one step.\<close>

definition exchange_atomic :: "i32 \<Rightarrow> i32 \<Rightarrow> i32 \<times> i32" where
  "exchange_atomic old new_value = (new_value, old)"

definition spinlock_init :: Spinlock where
  "spinlock_init = 0"

fun spinlock_lock :: "Spinlock list \<Rightarrow> Spinlock option" where
  "spinlock_lock [] = None"
| "spinlock_lock (l # later) =
     (let (l', old) = exchange_atomic l 1
      in if old \<noteq> 0 then spinlock_lock later else Some l')"

definition spinlock_try_lock :: "Spinlock \<Rightarrow> Spinlock \<times> bool" where
  "spinlock_try_lock l =
     (let (l', old) = exchange_atomic l 1 in if old \<noteq> 0 then (l', False) else (l', True))"

definition spinlock_unlock :: "Spinlock \<Rightarrow> Spinlock" where
  "spinlock_unlock l = 0"

lemma spinlock_lock_free [simp]: "spinlock_lock [l] = (if l = 0 then Some 1 else None)"
  by (simp add: exchange_atomic_def)

declare spinlock_lock.simps(2) [simp del]

section \<open>Interleavings\<close>

text \<open>
  Where a thread stands: outside, in the loop of \<open>spinlock_lock\<close>, or between a successful
  acquisition and its \<open>spinlock_unlock\<close>.
\<close>

datatype lock_pc = Outside | Spinning | Holding

record lock_system =
  lk_word :: Spinlock
  lk_pc :: "nat \<Rightarrow> lock_pc"

definition lock_start :: lock_system where
  "lock_start = \<lparr>lk_word = spinlock_init, lk_pc = (\<lambda>_. Outside)\<rparr>"

inductive lock_step :: "lock_system \<Rightarrow> lock_system \<Rightarrow> bool" where
  enter: "lk_pc s t = Outside \<Longrightarrow> lock_step s (s\<lparr>lk_pc := (lk_pc s)(t := Spinning)\<rparr>)"
| attempt_fails: "lk_pc s t = Spinning \<Longrightarrow> exchange_atomic (lk_word s) 1 = (l', old) \<Longrightarrow> old \<noteq> 0 \<Longrightarrow>
    lock_step s (s\<lparr>lk_word := l'\<rparr>)"
| attempt_takes: "lk_pc s t = Spinning \<Longrightarrow> exchange_atomic (lk_word s) 1 = (l', old) \<Longrightarrow> old = 0 \<Longrightarrow>
    lock_step s (s\<lparr>lk_word := l', lk_pc := (lk_pc s)(t := Holding)\<rparr>)"
| try_lock: "lk_pc s t = Outside \<Longrightarrow> spinlock_try_lock (lk_word s) = (l', taken) \<Longrightarrow>
    lock_step s (s\<lparr>lk_word := l', lk_pc := (lk_pc s)(t := if taken then Holding else Outside)\<rparr>)"
| unlock: "lk_pc s t = Holding \<Longrightarrow>
    lock_step s (s\<lparr>lk_word := spinlock_unlock (lk_word s), lk_pc := (lk_pc s)(t := Outside)\<rparr>)"

text \<open>At most one holder, and the word is zero exactly when there is none.\<close>

definition lock_inv :: "lock_system \<Rightarrow> bool" where
  "lock_inv s \<longleftrightarrow>
     (\<forall>t u. lk_pc s t = Holding \<longrightarrow> lk_pc s u = Holding \<longrightarrow> t = u) \<and>
     (lk_word s = 0 \<longleftrightarrow> (\<forall>t. lk_pc s t \<noteq> Holding))"

lemma lock_inv_start: "lock_inv lock_start"
  by (simp add: lock_inv_def lock_start_def spinlock_init_def)

lemma lock_inv_step: "lock_step s s' \<Longrightarrow> lock_inv s \<Longrightarrow> lock_inv s'"
proof (induction rule: lock_step.induct)
  case (enter s t)
  then have "lk_pc (s\<lparr>lk_pc := (lk_pc s)(t := Spinning)\<rparr>) u = Holding \<longleftrightarrow> lk_pc s u = Holding" for u
    by simp
  with enter show ?case by (simp add: lock_inv_def)
next
  case (attempt_fails s t l' old)
  then show ?case by (auto simp: lock_inv_def exchange_atomic_def)
next
  case (attempt_takes s t l' old)
  then show ?case by (auto simp: lock_inv_def exchange_atomic_def)
next
  case (try_lock s t l' taken)
  then have "l' = 1" and "taken \<longleftrightarrow> lk_word s = 0"
    by (auto simp: spinlock_try_lock_def exchange_atomic_def split: if_splits)
  moreover from try_lock have "(lk_pc s)(t := Outside) = lk_pc s" by auto
  ultimately show ?case using try_lock by (cases taken) (auto simp: lock_inv_def)
next
  case (unlock s t)
  then show ?case by (auto simp: lock_inv_def spinlock_unlock_def)
qed

lemma lock_inv_reachable: "lock_step\<^sup>*\<^sup>* lock_start s \<Longrightarrow> lock_inv s"
  by (induction rule: rtranclp_induct) (auto intro: lock_inv_start lock_inv_step)

section \<open>Properties\<close>

text \<open>
  C27: in every interleaving of any number of threads that use \<^verbatim>\<open>spinlock_lock\<close>,
  \<^verbatim>\<open>spinlock_try_lock\<close> and \<^verbatim>\<open>spinlock_unlock\<close>, two different threads never hold the lock
  together, and the lock word is zero exactly when nobody holds it.
\<close>

theorem spinlock_mutual_exclusion:
  assumes "lock_step\<^sup>*\<^sup>* lock_start s"
  shows "(lk_pc s t = Holding \<and> lk_pc s u = Holding \<longrightarrow> t = u) \<and>
    (lk_word s = 0 \<longleftrightarrow> (\<forall>v. lk_pc s v \<noteq> Holding))"
  using lock_inv_reachable [OF assms] by (auto simp: lock_inv_def)

theorem spinlock_mutual_exclusion_witness:
  "\<exists>s. lock_step\<^sup>*\<^sup>* lock_start s \<and> lk_pc s 3 = Holding \<and> lk_word s \<noteq> 0"
proof -
  let ?s = "lock_start\<lparr>lk_word := 1, lk_pc := (lk_pc lock_start)(3 := Holding)\<rparr>"
  have "lock_step lock_start ?s"
    using lock_step.try_lock [of lock_start 3 1 True]
    by (simp add: lock_start_def spinlock_init_def spinlock_try_lock_def exchange_atomic_def)
  then have "lock_step\<^sup>*\<^sup>* lock_start ?s" by (rule r_into_rtranclp)
  from spinlock_mutual_exclusion [OF this, of 3 3] this show ?thesis
    by (intro exI [of _ ?s]) auto
qed

text \<open>
  \<^verbatim>\<open>spinlock_lock\<close> returns at the first attempt that finds the lock free, having set it;
  attempts on a held lock leave it held, and only a lock that is never found free is
  waited for without end.
\<close>

theorem spinlock_lock_returns:
  "spinlock_lock seen = (if 0 \<in> set seen then Some 1 else None)"
  by (induction seen) (auto simp: exchange_atomic_def spinlock_lock.simps)

end
