(* ===== verification/Message.thy ===== *)
theory Message
  imports FifoBuffer Spinlock
begin

text \<open>
  \<^verbatim>\<open>kernel/message.c\<close>: the message queue of a thread, a byte queue under a spinlock that
  holds whole \<^verbatim>\<open>AsteriskMessage\<close> structures of sixteen bytes.
\<close>

section \<open>Messages and their bytes\<close>

record AsteriskMessage =
  message_type :: u32
  parameter1 :: u32
  parameter2 :: u32
  parameter3 :: u32

text \<open>The memory of a 32-bit word, least significant byte first, and back.\<close>

definition word_bytes :: "u32 \<Rightarrow> u8 list" where
  "word_bytes w = [ucast w, ucast (drop_bit 8 w), ucast (drop_bit 16 w), ucast (drop_bit 24 w)]"

definition bytes_word :: "u8 list \<Rightarrow> u32" where
  "bytes_word bs = ucast (bs ! 0) OR push_bit 8 (ucast (bs ! 1)) OR
     push_bit 16 (ucast (bs ! 2)) OR push_bit 24 (ucast (bs ! 3))"

definition message_bytes :: "AsteriskMessage \<Rightarrow> u8 list" where
  "message_bytes m = word_bytes (message_type m) @ word_bytes (parameter1 m) @
     word_bytes (parameter2 m) @ word_bytes (parameter3 m)"

definition bytes_message :: "u8 list \<Rightarrow> AsteriskMessage" where
  "bytes_message bs =
     \<lparr>message_type = bytes_word (take 4 bs), parameter1 = bytes_word (take 4 (drop 4 bs)),
      parameter2 = bytes_word (take 4 (drop 8 bs)), parameter3 = bytes_word (take 4 (drop 12 bs))\<rparr>"

section \<open>Operations\<close>

text \<open>The fields of \<^verbatim>\<open>Thread\<close> the file uses; the thread's record extends them.\<close>

record msg_thread =
  message_queue :: FifoBuffer
  message_queue_lock :: Spinlock

definition message_send :: "'a msg_thread_scheme \<Rightarrow> AsteriskMessage \<Rightarrow> 'a msg_thread_scheme option" where
  "message_send thread message = do {
     l \<leftarrow> spinlock_lock [message_queue_lock thread];
     (q, n) \<leftarrow> fifobuffer_enqueue (message_queue thread) (message_bytes message) 16;
     Some (thread\<lparr>message_queue := q, message_queue_lock := spinlock_unlock l\<rparr>)
   }"

definition message_get_queue_count :: "'a msg_thread_scheme \<Rightarrow> ('a msg_thread_scheme \<times> u32) option" where
  "message_get_queue_count thread = do {
     l \<leftarrow> spinlock_lock [message_queue_lock thread];
     let result = fifobuffer_get_size (message_queue thread) div 16;
     Some (thread\<lparr>message_queue_lock := spinlock_unlock l\<rparr>, result)
   }"

text \<open>The message argument is the caller's structure; it is unchanged when the queue is empty.\<close>

definition message_get_next ::
  "'a msg_thread_scheme \<Rightarrow> AsteriskMessage \<Rightarrow> ('a msg_thread_scheme \<times> AsteriskMessage \<times> i32) option"
where
  "message_get_next thread message = do {
     l \<leftarrow> spinlock_lock [message_queue_lock thread];
     let result = fifobuffer_get_size (message_queue thread) div 16;
     (q, bs, result') \<leftarrow>
       (if result > 0 then do {
          (q, bs, n) \<leftarrow> fifobuffer_dequeue (message_queue thread) (message_bytes message) 16;
          Some (q, bs, result - 1)
        } else Some (message_queue thread, message_bytes message, - 1));
     Some (thread\<lparr>message_queue := q, message_queue_lock := spinlock_unlock l\<rparr>,
           bytes_message bs, result')
   }"

section \<open>The bytes of a message\<close>

lemma word_roundtrip: "bytes_word (word_bytes w) = w"
  unfolding bytes_word_def word_bytes_def
proof (rule bit_word_eqI)
  fix n
  assume "n < LENGTH(32)"
  then have n: "n < 32" by simp
  consider "n < 8" | "8 \<le> n" "n < 16" | "16 \<le> n" "n < 24" | "24 \<le> n" using n by arith
  then show "bit (ucast ([ucast w, ucast (drop_bit 8 w), ucast (drop_bit 16 w), ucast (drop_bit 24 w) :: u8] ! 0) OR
      push_bit 8 (ucast ([ucast w, ucast (drop_bit 8 w), ucast (drop_bit 16 w), ucast (drop_bit 24 w) :: u8] ! 1)) OR
      push_bit 16 (ucast ([ucast w, ucast (drop_bit 8 w), ucast (drop_bit 16 w), ucast (drop_bit 24 w) :: u8] ! 2)) OR
      push_bit 24 (ucast ([ucast w, ucast (drop_bit 8 w), ucast (drop_bit 16 w), ucast (drop_bit 24 w) :: u8] ! 3)) :: u32) n = bit w n"
    by cases (use n in \<open>auto simp: bit_or_iff bit_push_bit_iff bit_ucast_iff bit_drop_bit_eq
        dest: bit_imp_le_length\<close>)
qed

lemma length_word_bytes [simp]: "length (word_bytes w) = 4"
  by (simp add: word_bytes_def)

lemma length_message_bytes [simp]: "length (message_bytes m) = 16"
  by (simp add: message_bytes_def)

lemma message_roundtrip: "bytes_message (message_bytes m) = m"
  by (cases m) (simp add: bytes_message_def message_bytes_def word_roundtrip)

section \<open>The queue of messages\<close>

text \<open>
  The abstract queue of a byte queue whose length is a multiple of sixteen; the queue is
  well formed when its contents are the bytes of some messages and its capacity is a
  multiple of sixteen, as \<^verbatim>\<open>thread_create\<close> makes it.
\<close>

definition holds_messages :: "'a msg_thread_scheme \<Rightarrow> AsteriskMessage list \<Rightarrow> bool" where
  "holds_messages thread ms \<longleftrightarrow>
     message_queue_lock thread = 0 \<and> fifo_inv (message_queue thread) \<and>
     fifo_list (message_queue thread) = concat (map message_bytes ms) \<and>
     16 dvd fifo_cap (message_queue thread)"

definition message_cap :: "'a msg_thread_scheme \<Rightarrow> nat" where
  "message_cap thread = fifo_cap (message_queue thread) div 16"

lemma length_concat_messages [simp]: "length (concat (map message_bytes ms)) = 16 * length ms"
  by (induction ms) auto

lemma holds_len:
  "holds_messages thread ms \<Longrightarrow> unat (fb_used_bytes (message_queue thread)) = 16 * length ms"
  using length_fifo_list [of "message_queue thread"] by (simp add: holds_messages_def)

lemma holds_bound: "holds_messages thread ms \<Longrightarrow> length ms \<le> message_cap thread"
  using fb.bounded [of "message_queue thread"] by (auto simp: holds_messages_def message_cap_def)

lemma queue_count:
  assumes "holds_messages thread ms"
  shows "unat (fifobuffer_get_size (message_queue thread) div 16) = length ms"
  using holds_len [OF assms] by (simp add: fifobuffer_get_size_def unat_div_distrib)

lemma message_send_ok:
  assumes h: "holds_messages thread ms"
  shows "ok (message_send thread m) (\<lambda>thread'. message_cap thread' = message_cap thread \<and>
    holds_messages thread' (if length ms < message_cap thread then ms @ [m] else ms))"
proof -
  let ?q = "message_queue thread"
  have inv: "fifo_inv ?q" and cont: "fifo_list ?q = concat (map message_bytes ms)"
    and l: "message_queue_lock thread = 0" and dvd: "16 dvd fifo_cap ?q"
    using h by (auto simp: holds_messages_def)
  obtain k where k: "fifo_cap ?q = 16 * k" using dvd by (elim dvdE)
  have "length ms \<le> k" using holds_bound [OF h] k by (simp add: message_cap_def)
  obtain q r where run: "fifobuffer_enqueue ?q (message_bytes m) 16 = Some (q, r)"
    and q: "fifo_inv q" "fifo_cap q = fifo_cap ?q"
      "unat r = min 16 (fifo_cap ?q - length (fifo_list ?q))"
      "fifo_list q = fifo_list ?q @ take (unat r) (message_bytes m)"
    using fb.enq_ok [OF inv, of 16 "message_bytes m"] by (auto elim!: okE)
  have "unat r = (if length ms < k then 16 else 0)"
    using q(3) k cont \<open>length ms \<le> k\<close> by auto
  then show ?thesis using q run cont dvd k l
    by (simp add: message_send_def holds_messages_def message_cap_def spinlock_unlock_def)
qed

lemma message_get_next_ok:
  assumes h: "holds_messages thread ms"
  shows "ok (message_get_next thread d) (\<lambda>(thread', m, n). message_cap thread' = message_cap thread \<and>
    holds_messages thread' (tl ms) \<and> m = (if ms = [] then d else hd ms) \<and>
    n = of_nat (length ms) - 1)"
proof (cases ms)
  case Nil
  have "\<not> 0 < fifobuffer_get_size (message_queue thread) div 16"
    using queue_count [OF h] Nil by (simp add: word_less_nat_alt)
  then show ?thesis using h Nil
    by (simp add: message_get_next_def holds_messages_def spinlock_unlock_def message_roundtrip
        message_cap_def)
next
  case (Cons m ms')
  let ?q = "message_queue thread"
  have inv: "fifo_inv ?q" and cont: "fifo_list ?q = message_bytes m @ concat (map message_bytes ms')"
    using h Cons by (auto simp: holds_messages_def)
  have pos: "0 < fifobuffer_get_size ?q div 16"
    using queue_count [OF h] Cons by (simp add: word_less_nat_alt)
  have "of_nat (unat (fifobuffer_get_size ?q div 16)) = (of_nat (length ms) :: u32)"
    using queue_count [OF h] by simp
  then have cnt: "fifobuffer_get_size ?q div 16 = of_nat (length ms)" by simp
  obtain q bs r where run: "fifobuffer_dequeue ?q (message_bytes d) 16 = Some (q, bs, r)"
    and q: "fifo_inv q" "fifo_cap q = fifo_cap ?q" "unat r = min 16 (length (fifo_list ?q))"
      "fifo_list q = drop (unat r) (fifo_list ?q)"
      "bs = take (unat r) (fifo_list ?q) @ drop (unat r) (message_bytes d)"
    using fb.deq_ok [OF inv, of 16 "message_bytes d"] by (auto elim!: okE)
  have "unat r = 16" using q(3) cont by simp
  then show ?thesis using q run pos cnt cont h Cons
    by (simp add: message_get_next_def holds_messages_def message_cap_def spinlock_unlock_def
        message_roundtrip)
qed

lemma message_count_ok:
  assumes h: "holds_messages thread ms"
  shows "message_get_queue_count thread = Some (thread, of_nat (length ms))"
proof -
  have "of_nat (unat (fifobuffer_get_size (message_queue thread) div 16)) = (of_nat (length ms) :: u32)"
    using queue_count [OF h] by simp
  then show ?thesis using h
    by (simp add: message_get_queue_count_def holds_messages_def spinlock_unlock_def)
qed

section \<open>Properties\<close>

text \<open>
  C30: the byte queue of a thread behaves as a bounded queue of whole messages. A send
  appends the message, or drops it whole when the queue is full; the next message read is
  the oldest one, field by field as it was sent, with the number of messages left; an empty
  queue reports \<open>-1\<close> and leaves the caller's structure alone. The lock is free afterwards.
\<close>

theorem message_queue_refines:
  assumes "holds_messages thread ms"
  shows "(\<exists>t'. message_send thread m = Some t' \<and> message_cap t' = message_cap thread \<and>
      holds_messages t' (if length ms < message_cap thread then ms @ [m] else ms)) \<and>
    (\<exists>t'. message_get_next thread d =
        Some (t', if ms = [] then d else hd ms, of_nat (length ms) - 1) \<and>
      message_cap t' = message_cap thread \<and> holds_messages t' (tl ms)) \<and>
    message_get_queue_count thread = Some (thread, of_nat (length ms))"
  using message_send_ok [OF assms, of m] message_get_next_ok [OF assms, of d]
    message_count_ok [OF assms]
  by (auto simp: ok_iff)

theorem message_queue_refines_witness:
  "\<exists>t'. message_send \<lparr>message_queue = fifobuffer_create 1024, message_queue_lock = 0\<rparr>
       \<lparr>message_type = 1, parameter1 = 2, parameter2 = 3, parameter3 = 4\<rparr> = Some t' \<and>
     holds_messages t' [\<lparr>message_type = 1, parameter1 = 2, parameter2 = 3, parameter3 = 4\<rparr>]"
proof -
  let ?m = "\<lparr>message_type = 1, parameter1 = 2, parameter2 = 3, parameter3 = 4\<rparr>"
  let ?t = "\<lparr>message_queue = fifobuffer_create 1024, message_queue_lock = 0\<rparr>"
  have cap: "fifo_cap (fifobuffer_create 1024) = 1024"
    by (simp add: fifo_cap_def fifobuffer_create_def)
  have "holds_messages ?t []"
    by (simp add: holds_messages_def fifo_inv_create fifo_list_create cap)
  from message_queue_refines [OF this, of ?m ?m] show ?thesis
    by (auto simp: message_cap_def cap)
qed

text \<open>
  The sixteen bytes of a message in memory determine it: reading the bytes that were
  written gives back every field.
\<close>

theorem message_bytes_roundtrip:
  "bytes_message (message_bytes m) = m \<and> length (message_bytes m) = 16"
  by (simp add: message_roundtrip)

end
