(* ===== verification/Vmm.thy ===== *)
theory Vmm
  imports CommonLib
begin

text \<open>
  \<^verbatim>\<open>kernel/vmm.c\<close>: physical page frames, page directories and page tables, and the mapping of
  a process's memory.

  The page tables are not a map of the model's own: they are words of physical memory, and
  every access of the code goes through \<open>translate\<close>, the two-level walk of the processor
  (with 4 MB pages) under the active page directory \<^verbatim>\<open>cr3\<close>. The code reaches the active
  directory at \<^verbatim>\<open>0xFFFFF000\<close> and its tables at \<^verbatim>\<open>0xFFC00000\<close> through the directory's last
  entry, which maps the directory to itself. Physical memory is a function of the frame number
  and the index of the word in the frame; an access through a missing entry is a page fault of
  the kernel, \<open>None\<close>. The translation cache is not modelled: \<^verbatim>\<open>INVALIDATE\<close> does nothing here.
\<close>

section \<open>Constants\<close>

definition PG_PRESENT :: u32 where "PG_PRESENT = 1"
definition PG_WRITE :: u32 where "PG_WRITE = 2"
definition PG_USER :: u32 where "PG_USER = 4"
definition PG_4MB :: u32 where "PG_4MB = 0x80"
definition PG_OWNED :: u32 where "PG_OWNED = 0x200"
definition PAGESIZE_4K :: u32 where "PAGESIZE_4K = 0x1000"
definition RESERVED_AREA :: u32 where "RESERVED_AREA = 0x1000000"
definition KERN_PAGE_DIRECTORY :: u32 where "KERN_PAGE_DIRECTORY = 0x1000"
definition KERN_PD_AREA_BEGIN :: u32 where "KERN_PD_AREA_BEGIN = 0xC00000"
definition KERN_PD_AREA_END :: u32 where "KERN_PD_AREA_END = 0x1000000"
definition KERN_HEAP_BEGIN :: u32 where "KERN_HEAP_BEGIN = 0x2000000"
definition KERN_HEAP_END :: u32 where "KERN_HEAP_END = 0x40000000"
definition MEMORY_END :: u32 where "MEMORY_END = 0xFFC00000"
definition RAM_AS_4K_PAGES :: nat where "RAM_AS_4K_PAGES = 0x100000"
definition KERNELMEMORY_PAGE_COUNT :: nat where "KERNELMEMORY_PAGE_COUNT = 256"

definition PAGE_INDEX_4K :: "u32 \<Rightarrow> u32" where
  "PAGE_INDEX_4K addr = drop_bit 12 addr"

section \<open>Bitmaps of page frames\<close>

text \<open>A bitmap of \<^verbatim>\<open>RAM_AS_4K_PAGES / 8\<close> bytes, by byte index.\<close>

type_synonym bitmap = "nat \<Rightarrow> u8"

definition BITMAP_BYTES :: nat where
  "BITMAP_BYTES = RAM_AS_4K_PAGES div 8"

definition page_bit :: "nat \<Rightarrow> u8" where
  "page_bit page_index = push_bit (page_index mod 8) 1"

text \<open>The macros that take a page index; an index past the end is an access outside the bitmap.\<close>

definition set_pageframe_used :: "bitmap \<Rightarrow> u32 \<Rightarrow> bitmap option" where
  "set_pageframe_used bm page_index =
     (let b = unat page_index div 8
      in if b < BITMAP_BYTES then Some (bm(b := bm b OR page_bit (unat page_index))) else None)"

definition is_pageframe_used :: "bitmap \<Rightarrow> u32 \<Rightarrow> bool option" where
  "is_pageframe_used bm page_index =
     (let b = unat page_index div 8
      in if b < BITMAP_BYTES then Some (bm b AND page_bit (unat page_index) \<noteq> 0) else None)"

text \<open>The macro that takes an address: its page index is always inside the bitmap.\<close>

definition set_pageframe_unused :: "bitmap \<Rightarrow> u32 \<Rightarrow> bitmap" where
  "set_pageframe_unused bm p_addr =
     (let page_index = unat (p_addr div PAGESIZE_4K); b = page_index div 8
      in bm(b := bm b AND NOT (page_bit page_index)))"

section \<open>The machine\<close>

record vmm_state =
  vm_pm :: "nat \<Rightarrow> nat \<Rightarrow> u32"
  vm_cr3 :: u32
  vm_bitmap :: bitmap
  vm_total :: nat

definition present :: "u32 \<Rightarrow> bool" where
  "present e \<longleftrightarrow> e AND PG_PRESENT = PG_PRESENT"

definition owned :: "u32 \<Rightarrow> bool" where
  "owned e \<longleftrightarrow> e AND PG_OWNED = PG_OWNED"

definition frame_of :: "u32 \<Rightarrow> nat" where
  "frame_of e = unat e div 4096"

definition translate :: "vmm_state \<Rightarrow> u32 \<Rightarrow> (nat \<times> nat) option" where
  "translate s v =
     (let pde = vm_pm s (frame_of (vm_cr3 s)) (unat v div 0x400000);
          pt_index = unat v div 4096 mod 1024;
          w = unat v mod 4096 div 4
      in if \<not> present pde then None
         else if pde AND PG_4MB \<noteq> 0 then Some (unat pde div 0x400000 * 1024 + pt_index, w)
         else let pte = vm_pm s (frame_of pde) pt_index
              in if present pte then Some (frame_of pte, w) else None)"

definition vload :: "vmm_state \<Rightarrow> u32 \<Rightarrow> u32 option" where
  "vload s v = map_option (\<lambda>(f, i). vm_pm s f i) (translate s v)"

definition pm_write :: "vmm_state \<Rightarrow> nat \<Rightarrow> nat \<Rightarrow> u32 \<Rightarrow> vmm_state" where
  "pm_write s f i x = s\<lparr>vm_pm := (vm_pm s)(f := (vm_pm s f)(i := x))\<rparr>"

definition vstore :: "vmm_state \<Rightarrow> u32 \<Rightarrow> u32 \<Rightarrow> vmm_state option" where
  "vstore s v x = map_option (\<lambda>(f, i). pm_write s f i x) (translate s v)"

definition change_pd :: "vmm_state \<Rightarrow> u32 \<Rightarrow> vmm_state" where
  "change_pd s pd = s\<lparr>vm_cr3 := pd\<rparr>"

text \<open>The word \<open>i\<close> of an array of 32-bit words at an address.\<close>

definition word_at :: "u32 \<Rightarrow> nat \<Rightarrow> u32" where
  "word_at base i = base + of_nat (4 * i)"

definition PD_BASE :: u32 where "PD_BASE = 0xFFFFF000"
definition PT_BASE :: "nat \<Rightarrow> u32" where "PT_BASE pd_index = 0xFFC00000 + of_nat (4 * (0x400 * pd_index))"

section \<open>Page frames\<close>

text \<open>The inner loop: the lowest clear bit of a byte.\<close>

definition first_clear_bit :: "u8 \<Rightarrow> nat option" where
  "first_clear_bit b = List.find (\<lambda>i. b AND push_bit i 1 = 0) [0..<8]"

function acquire_loop :: "bitmap \<Rightarrow> nat \<Rightarrow> nat option" where
  "acquire_loop bm byte =
     (if byte < BITMAP_BYTES then
        (if bm byte \<noteq> 0xFF then
           (case first_clear_bit (bm byte) of
              Some i \<Rightarrow> Some (8 * byte + i)
            | None \<Rightarrow> acquire_loop bm (Suc byte))
         else acquire_loop bm (Suc byte))
      else None)"
  by pat_completeness auto
termination
  by (relation "measure (\<lambda>(bm, byte). BITMAP_BYTES - byte)") auto

declare acquire_loop.simps [simp del]

text \<open>\<open>None\<close> is \<^verbatim>\<open>PANIC("Memory is full!")\<close>.\<close>

definition vmm_acquire_page_frame_4k :: "vmm_state \<Rightarrow> (vmm_state \<times> u32) option" where
  "vmm_acquire_page_frame_4k s = do {
     page \<leftarrow> acquire_loop (vm_bitmap s) 0;
     bm \<leftarrow> set_pageframe_used (vm_bitmap s) (of_nat page);
     Some (s\<lparr>vm_bitmap := bm\<rparr>, of_nat page * PAGESIZE_4K)
   }"

definition vmm_release_page_frame_4k :: "vmm_state \<Rightarrow> u32 \<Rightarrow> vmm_state" where
  "vmm_release_page_frame_4k s p_addr =
     s\<lparr>vm_bitmap := set_pageframe_unused (vm_bitmap s) p_addr\<rparr>"

definition vmm_get_total_page_count :: "vmm_state \<Rightarrow> nat" where
  "vmm_get_total_page_count s = vm_total s"

fun used_page_loop :: "bitmap \<Rightarrow> nat \<Rightarrow> nat \<Rightarrow> nat \<Rightarrow> nat option" where
  "used_page_loop bm i 0 count = Some count"
| "used_page_loop bm i (Suc n) count = do {
     u \<leftarrow> is_pageframe_used bm (of_nat i);
     used_page_loop bm (Suc i) n (if u then Suc count else count)
   }"

definition vmm_get_used_page_count :: "vmm_state \<Rightarrow> nat option" where
  "vmm_get_used_page_count s = used_page_loop (vm_bitmap s) 0 (vm_total s) 0"

definition vmm_get_free_page_count :: "vmm_state \<Rightarrow> nat option" where
  "vmm_get_free_page_count s =
     map_option (\<lambda>used. vm_total s - used) (vmm_get_used_page_count s)"

section \<open>Page directories\<close>

text \<open>Copying the first gigabyte of the kernel's directory, without the ownership bits.\<close>

fun copy_kernel_entries :: "vmm_state \<Rightarrow> u32 \<Rightarrow> nat \<Rightarrow> nat \<Rightarrow> vmm_state option" where
  "copy_kernel_entries s pd i 0 = Some s"
| "copy_kernel_entries s pd i (Suc n) = do {
     e \<leftarrow> vload s (word_at KERN_PAGE_DIRECTORY i);
     s' \<leftarrow> vstore s (word_at pd i) (e AND NOT PG_OWNED);
     copy_kernel_entries s' pd (Suc i) n
   }"

fun zero_words :: "vmm_state \<Rightarrow> u32 \<Rightarrow> nat \<Rightarrow> nat \<Rightarrow> vmm_state option" where
  "zero_words s base i 0 = Some s"
| "zero_words s base i (Suc n) = do {
     s' \<leftarrow> vstore s (word_at base i) 0;
     zero_words s' base (Suc i) n
   }"

lemma pd_area_step:
  assumes "address < KERN_PD_AREA_END"
  shows "unat (address + PAGESIZE_4K) = unat address + 4096"
    and "33550336 - unat address < (33554432 :: nat) - unat address"
proof -
  have "unat address < 0x1000000"
    using assms by (simp add: KERN_PD_AREA_END_def word_less_nat_alt)
  then show "unat (address + PAGESIZE_4K) = unat address + 4096"
    and "33550336 - unat address < (33554432 :: nat) - unat address"
    by (simp_all add: PAGESIZE_4K_def unat_add_small)
qed

function acquire_pd_loop :: "vmm_state \<Rightarrow> u32 \<Rightarrow> (vmm_state \<times> u32) option" where
  "acquire_pd_loop s address =
     (if address < KERN_PD_AREA_END then do {
        e \<leftarrow> vload s address;
        if e = 0 then do {
          s1 \<leftarrow> copy_kernel_entries s address 0 KERNELMEMORY_PAGE_COUNT;
          s2 \<leftarrow> zero_words s1 address KERNELMEMORY_PAGE_COUNT (1024 - KERNELMEMORY_PAGE_COUNT);
          s3 \<leftarrow> vstore s2 (word_at address 1023) (address OR PG_PRESENT OR PG_WRITE);
          Some (s3, address)
        } else acquire_pd_loop s (address + PAGESIZE_4K)
      } else Some (s, 0))"
  by pat_completeness auto
termination
  by (relation "measure (\<lambda>(s, address). 0x2000000 - unat address)") (simp_all add: pd_area_step)

declare acquire_pd_loop.simps [simp del]

definition vmm_acquire_page_directory :: "vmm_state \<Rightarrow> (vmm_state \<times> u32) option" where
  "vmm_acquire_page_directory s = acquire_pd_loop s KERN_PD_AREA_BEGIN"

function sync_loop :: "vmm_state \<Rightarrow> u32 \<Rightarrow> vmm_state option" where
  "sync_loop s address =
     (if address < KERN_PD_AREA_END then do {
        e \<leftarrow> vload s address;
        s' \<leftarrow> (if e \<noteq> 0 then copy_kernel_entries s address 0 KERNELMEMORY_PAGE_COUNT else Some s);
        sync_loop s' (address + PAGESIZE_4K)
      } else Some s)"
  by pat_completeness auto
termination
  by (relation "measure (\<lambda>(s, address). 0x2000000 - unat address)") (simp_all add: pd_area_step)

declare sync_loop.simps [simp del]

definition vmm_sync_all_from_kernel :: "vmm_state \<Rightarrow> vmm_state option" where
  "vmm_sync_all_from_kernel s = sync_loop s KERN_PD_AREA_BEGIN"

text \<open>
  Below \<^verbatim>\<open>KERN_HEAP_END\<close> the kernel's directory is made active for the change, and the
  other directories are synchronised after it. The saved \<^verbatim>\<open>cr3\<close> is \<open>0\<close> when nothing was saved.
\<close>

definition ensure_table :: "vmm_state \<Rightarrow> nat \<Rightarrow> u32 \<Rightarrow> vmm_state option" where
  "ensure_table s pd_index flags = do {
     pde \<leftarrow> vload s (word_at PD_BASE pd_index);
     if \<not> present pde then do {
       (t, tablePhysical) \<leftarrow> vmm_acquire_page_frame_4k s;
       t' \<leftarrow> vstore t (word_at PD_BASE pd_index)
              (tablePhysical OR (flags AND 0xFFF) OR (PG_PRESENT OR PG_WRITE));
       zero_words t' (PT_BASE pd_index) 0 1024
     } else Some s
   }"

definition vmm_add_page_to_pd :: "vmm_state \<Rightarrow> u32 \<Rightarrow> u32 \<Rightarrow> u32 \<Rightarrow> (vmm_state \<times> bool) option" where
  "vmm_add_page_to_pd s v_addr p_addr flags = do {
     let pd_index = unat (drop_bit 22 v_addr);
     let pt_index = unat (drop_bit 12 v_addr AND 0x3FF);
     let kernel = (v_addr < KERN_HEAP_END);
     let cr3 = (if kernel then vm_cr3 s else 0);
     let s0 = (if kernel then change_pd s KERN_PAGE_DIRECTORY else s);
     s1 \<leftarrow> ensure_table s0 pd_index flags;
     pte \<leftarrow> vload s1 (word_at (PT_BASE pd_index) pt_index);
     if present pte then Some (if cr3 \<noteq> 0 then change_pd s1 cr3 else s1, False)
     else do {
       s2 \<leftarrow> vstore s1 (word_at (PT_BASE pd_index) pt_index)
               (p_addr OR (flags AND 0xFFF) OR (PG_PRESENT OR PG_WRITE));
       let s3 = (if cr3 \<noteq> 0 then change_pd s2 cr3 else s2);
       s4 \<leftarrow> (if kernel then vmm_sync_all_from_kernel s3 else Some s3);
       Some (s4, True)
     }
   }"

text \<open>The loop that looks for an entry of the table that is not zero.\<close>

fun all_unmapped :: "vmm_state \<Rightarrow> u32 \<Rightarrow> nat \<Rightarrow> nat \<Rightarrow> bool option" where
  "all_unmapped s pt i 0 = Some True"
| "all_unmapped s pt i (Suc n) = do {
     e \<leftarrow> vload s (word_at pt i);
     if e \<noteq> 0 then Some False else all_unmapped s pt (Suc i) n
   }"

definition free_empty_table :: "vmm_state \<Rightarrow> nat \<Rightarrow> vmm_state option" where
  "free_empty_table s pd_index = do {
     empty \<leftarrow> all_unmapped s (PT_BASE pd_index) 0 1024;
     if empty then do {
       e \<leftarrow> vload s (word_at PD_BASE pd_index);
       if owned e then do {
         t \<leftarrow> vstore s (word_at PD_BASE pd_index) 0;
         Some (vmm_release_page_frame_4k t (e AND NOT 0xFFF))
       } else Some s
     } else Some s
   }"

definition vmm_remove_page_from_pd :: "vmm_state \<Rightarrow> u32 \<Rightarrow> (vmm_state \<times> bool) option" where
  "vmm_remove_page_from_pd s v_addr = do {
     let pd_index = unat (drop_bit 22 v_addr);
     let pt_index = unat (drop_bit 12 v_addr AND 0x3FF);
     let kernel = (v_addr < KERN_HEAP_END);
     let cr3 = (if kernel then vm_cr3 s else 0);
     let s0 = (if kernel then change_pd s KERN_PAGE_DIRECTORY else s);
     pde \<leftarrow> vload s0 (word_at PD_BASE pd_index);
     if present pde then do {
       pte \<leftarrow> vload s0 (word_at (PT_BASE pd_index) pt_index);
       let s1 = (if owned pte then vmm_release_page_frame_4k s0 (pte AND NOT 0xFFF) else s0);
       s2 \<leftarrow> vstore s1 (word_at (PT_BASE pd_index) pt_index) 0;
       s3 \<leftarrow> free_empty_table s2 pd_index;
       let s4 = (if cr3 \<noteq> 0 then change_pd s3 cr3 else s3);
       s5 \<leftarrow> (if kernel then vmm_sync_all_from_kernel s4 else Some s4);
       Some (s5, True)
     } else Some (if cr3 \<noteq> 0 then change_pd s0 cr3 else s0, False)
   }"

text \<open>Destroying a directory: its tables' owned frames, then the tables it owns.\<close>

fun release_table :: "vmm_state \<Rightarrow> u32 \<Rightarrow> nat \<Rightarrow> nat \<Rightarrow> vmm_state option" where
  "release_table s pt i 0 = Some s"
| "release_table s pt i (Suc n) = do {
     e \<leftarrow> vload s (word_at pt i);
     let s1 = (if present e \<and> owned e then vmm_release_page_frame_4k s (e AND NOT 0xFFF) else s);
     s2 \<leftarrow> vstore s1 (word_at pt i) 0;
     release_table s2 pt (Suc i) n
   }"

fun destroy_loop :: "vmm_state \<Rightarrow> nat \<Rightarrow> nat \<Rightarrow> vmm_state option" where
  "destroy_loop s pd_index 0 = Some s"
| "destroy_loop s pd_index (Suc n) = do {
     e \<leftarrow> vload s (word_at PD_BASE pd_index);
     s1 \<leftarrow> (if present e then do {
              t \<leftarrow> release_table s (PT_BASE pd_index) 0 1024;
              e' \<leftarrow> vload t (word_at PD_BASE pd_index);
              Some (if owned e' then vmm_release_page_frame_4k t (e' AND NOT 0xFFF) else t)
            } else Some s);
     s2 \<leftarrow> vstore s1 (word_at PD_BASE pd_index) 0;
     destroy_loop s2 (Suc pd_index) n
   }"

definition vmm_destroy_page_directory_with_memory ::
  "vmm_state \<Rightarrow> irq_state \<Rightarrow> u32 \<Rightarrow> (vmm_state \<times> irq_state) option"
where
  "vmm_destroy_page_directory_with_memory s irq physical_pd = do {
     let irq1 = begin_critical_section irq;
     let cr3 = vm_cr3 s;
     s1 \<leftarrow> destroy_loop (change_pd s physical_pd) KERNELMEMORY_PAGE_COUNT (1023 - KERNELMEMORY_PAGE_COUNT);
     let irq2 = end_critical_section irq1;
     Some (change_pd s1 cr3, irq2)
   }"

section \<open>The memory of a process\<close>

text \<open>The bitmap \<^verbatim>\<open>mmapped_virtual_memory\<close> of a process is an argument and a result.\<close>

definition vmm_initialize_process_pages :: "bitmap \<Rightarrow> bitmap" where
  "vmm_initialize_process_pages bm =
     fold (\<lambda>page m. set_pageframe_unused m (of_nat page * PAGESIZE_4K))
       [unat (PAGE_INDEX_4K USER_OFFSET)..<unat (PAGE_INDEX_4K MEMORY_END)]
       (fold (\<lambda>page m. m(page := 0xFF)) [0..<BITMAP_BYTES] bm)"

text \<open>The search for enough adjacent free pages: the loop's variables at its end.\<close>

fun map_search :: "bitmap \<Rightarrow> u32 \<Rightarrow> nat \<Rightarrow> nat \<Rightarrow> u32 \<Rightarrow> u32 \<Rightarrow> (u32 \<times> u32) option" where
  "map_search mm page_count page_index 0 found_adjacent v_mem = Some (found_adjacent, v_mem)"
| "map_search mm page_count page_index (Suc n) found_adjacent v_mem = do {
     u \<leftarrow> is_pageframe_used mm (of_nat page_index);
     let (f, v) = (if u then (0, 0)
                   else (found_adjacent + 1,
                         if found_adjacent = 0 then of_nat page_index * PAGESIZE_4K else v_mem));
     if f = page_count then Some (f, v)
     else map_search mm page_count (Suc page_index) n f v
   }"

fun map_pages :: "vmm_state \<Rightarrow> bitmap \<Rightarrow> u32 \<Rightarrow> u32 list \<Rightarrow> u32 \<Rightarrow> (vmm_state \<times> bitmap) option" where
  "map_pages s mm v [] flags = Some (s, mm)"
| "map_pages s mm v (p # ps) flags = do {
     (s', r) \<leftarrow> vmm_add_page_to_pd s v (p AND 0xFFFFF000) flags;
     mm' \<leftarrow> set_pageframe_used mm (PAGE_INDEX_4K v);
     map_pages s' mm' (v + PAGESIZE_4K) ps flags
   }"

text \<open>\<open>None\<close> for the array is the null pointer; an array that is too short is read past its end.\<close>

definition vmm_map_memory ::
  "vmm_state \<Rightarrow> bitmap \<Rightarrow> u32 \<Rightarrow> u32 list option \<Rightarrow> u32 \<Rightarrow> bool \<Rightarrow> (vmm_state \<times> bitmap \<times> u32) option"
where
  "vmm_map_memory s mm v_address_search_start p_address_array page_count own =
     (case p_address_array of
        None \<Rightarrow> Some (s, mm, 0)
      | Some ps \<Rightarrow>
          if page_count = 0 then Some (s, mm, 0)
          else do {
            let start = unat (PAGE_INDEX_4K v_address_search_start);
            (found_adjacent, v_mem) \<leftarrow>
              map_search mm page_count start (unat (PAGE_INDEX_4K MEMORY_END) - start) 0 0;
            if found_adjacent = page_count then
              (if length ps < unat page_count then None
               else do {
                 (s', mm') \<leftarrow> map_pages s mm v_mem (take (unat page_count) ps)
                                (PG_USER OR (if own then PG_OWNED else 0));
                 Some (s', mm', v_mem)
               })
            else Some (s, mm, 0)
          })"

function unmap_loop ::
  "vmm_state \<Rightarrow> bitmap \<Rightarrow> u32 \<Rightarrow> u32 \<Rightarrow> bool \<Rightarrow> (vmm_state \<times> bitmap \<times> bool) option"
where
  "unmap_loop s mm page_index end_index result =
     (if page_index < end_index then do {
        u \<leftarrow> is_pageframe_used mm page_index;
        if u then do {
          let v_addr = page_index * PAGESIZE_4K;
          (s', r) \<leftarrow> vmm_remove_page_from_pd s v_addr;
          unmap_loop s' (set_pageframe_unused mm v_addr) (page_index + 1) end_index True
        } else unmap_loop s mm (page_index + 1) end_index result
      } else Some (s, mm, result))"
  by pat_completeness auto
termination
  by (relation "measure (\<lambda>(s, mm, i, e, r). unat e - unat i)")
    (auto simp: unat_plus1_less word_less_nat_alt)

declare unmap_loop.simps [simp del]

definition vmm_unmap_memory ::
  "vmm_state \<Rightarrow> bitmap \<Rightarrow> u32 \<Rightarrow> u32 \<Rightarrow> (vmm_state \<times> bitmap \<times> bool) option"
where
  "vmm_unmap_memory s mm v_address page_count =
     (if page_count = 0 then Some (s, mm, False)
      else let start_index = PAGE_INDEX_4K (v_address AND 0xFFFFF000)
           in unmap_loop s mm start_index (start_index + page_count) False)"

section \<open>Initialisation\<close>

text \<open>
  Everything \<^verbatim>\<open>vmm_initialize\<close> does before it turns paging on, when addresses are physical,
  and the switch to the kernel's directory; the kernel heap it starts last is in its own theory.
\<close>

definition frame_bitmap_init :: "nat \<Rightarrow> bitmap \<Rightarrow> bitmap option" where
  "frame_bitmap_init tot bm =
     fold (\<lambda>pg m. Option.bind m (\<lambda>m. set_pageframe_used m (of_nat pg)))
       [0..<unat (PAGE_INDEX_4K RESERVED_AREA)]
       (Some (fold (\<lambda>pg m. m(pg := 0xFF)) [tot div 8..<BITMAP_BYTES]
         (fold (\<lambda>pg m. m(pg := 0)) [0..<tot div 8] bm)))"

definition kernel_pd_init :: "nat \<Rightarrow> u32" where
  "kernel_pd_init i =
     (if i < 4 then (of_nat i * 0x400000) OR (PG_PRESENT OR PG_WRITE OR PG_4MB)
      else if i = 1023 then KERN_PAGE_DIRECTORY OR PG_PRESENT OR PG_WRITE else 0)"

definition vmm_initialize_paging :: "vmm_state \<Rightarrow> u32 \<Rightarrow> vmm_state option" where
  "vmm_initialize_paging s high_mem = do {
     let tot = unat ((high_mem * 1024) div PAGESIZE_4K);
     bm \<leftarrow> frame_bitmap_init tot (vm_bitmap s);
     let pm = (vm_pm s)(frame_of KERN_PAGE_DIRECTORY :=
                (\<lambda>i. if i < 1024 then kernel_pd_init i else vm_pm s (frame_of KERN_PAGE_DIRECTORY) i));
     let pm' = (\<lambda>f i. if frame_of KERN_PD_AREA_BEGIN \<le> f \<and> f < frame_of KERN_PD_AREA_END \<and> i < 1024
                      then 0 else pm f i);
     Some (s\<lparr>vm_total := tot, vm_bitmap := bm, vm_pm := pm', vm_cr3 := KERN_PAGE_DIRECTORY\<rparr>)
   }"

section \<open>Bitmaps\<close>

text \<open>A page is used when its bit is set.\<close>

definition bm_used :: "bitmap \<Rightarrow> nat \<Rightarrow> bool" where
  "bm_used bm page \<longleftrightarrow> bit (bm (page div 8)) (page mod 8)"

lemma and_one_bit: "(b :: 'a::len word) AND 2 ^ i \<noteq> 0 \<longleftrightarrow> bit b i"
proof -
  have "b AND 2 ^ i = (if bit b i then 2 ^ i else 0)"
    by (rule bit_word_eqI) (auto simp: bit_and_iff bit_exp_iff)
  moreover have "bit b i \<Longrightarrow> (2 :: 'a word) ^ i \<noteq> 0"
    using bit_imp_le_length [of b i] by simp
  ultimately show ?thesis by auto
qed

lemma bm_used_iff: "is_pageframe_used bm i = (if unat i < RAM_AS_4K_PAGES then Some (bm_used bm (unat i)) else None)"
proof -
  have "unat i div 8 < BITMAP_BYTES \<longleftrightarrow> unat i < RAM_AS_4K_PAGES"
    by (auto simp: BITMAP_BYTES_def RAM_AS_4K_PAGES_def)
  then show ?thesis
    by (simp add: is_pageframe_used_def page_bit_def and_one_bit bm_used_def Let_def)
qed

lemma div_mod_8_eq: "p div 8 = q div 8 \<Longrightarrow> p mod 8 = q mod 8 \<Longrightarrow> p = (q :: nat)"
  by (metis div_mult_mod_eq)

lemma bit_page_bit: "bit (page_bit p) i \<longleftrightarrow> i = p mod 8"
proof -
  have "p mod 8 < 8" by simp
  then show ?thesis by (auto simp: page_bit_def bit_exp_iff)
qed

lemma set_used_ok:
  assumes "unat i < RAM_AS_4K_PAGES"
  shows "ok (set_pageframe_used bm i) (\<lambda>bm'. \<forall>p. bm_used bm' p \<longleftrightarrow> p = unat i \<or> bm_used bm p)"
proof -
  have "unat i div 8 < BITMAP_BYTES"
    using assms by (simp add: BITMAP_BYTES_def RAM_AS_4K_PAGES_def less_mult_imp_div_less)
  then show ?thesis
    by (auto simp: set_pageframe_used_def bm_used_def bit_or_iff bit_page_bit Let_def
        intro: div_mod_8_eq)
qed

lemma bm_used_unused:
  "bm_used (set_pageframe_unused bm a) p \<longleftrightarrow> p \<noteq> frame_of a \<and> bm_used bm p"
proof -
  have a: "unat (a div PAGESIZE_4K) = frame_of a"
    by (simp add: frame_of_def PAGESIZE_4K_def unat_div_distrib)
  have "p mod 8 < 8" by simp
  then show ?thesis
    by (auto simp: set_pageframe_unused_def a bm_used_def bit_and_iff bit_not_iff bit_page_bit
        Let_def dest: div_mod_8_eq)
qed

lemma full_byte: "b = 0xFF \<longleftrightarrow> (\<forall>i<8. bit (b :: u8) i)"
proof -
  have "bit (0xFF :: u8) i" if "i < 8" for i
  proof -
    have "(0xFF :: u8) = mask 8" by (simp add: mask_eq_exp_minus_1)
    then show ?thesis using that by (simp only: bit_mask_iff) simp
  qed
  then show ?thesis by (auto intro: bit_word_eqI)
qed

lemma first_clear_Some:
  "first_clear_bit b = Some i \<Longrightarrow> i < 8 \<and> \<not> bit b i \<and> (\<forall>j<i. bit b j)"
proof -
  assume "first_clear_bit b = Some i"
  then obtain k where k: "k < 8" "[0..<8] ! k = i" "b AND push_bit i 1 = 0"
      "\<forall>j<k. b AND push_bit ([0..<8] ! j) 1 \<noteq> 0"
    by (auto simp: first_clear_bit_def find_Some_iff)
  have "b AND push_bit j 1 \<noteq> 0" if "j < i" for j
    using k(1,2,4) that by (auto dest: spec [of _ j])
  then show ?thesis using k and_one_bit [of b] by auto
qed

lemma first_clear_None: "first_clear_bit b = None \<longleftrightarrow> b = 0xFF"
proof -
  have "first_clear_bit b = None \<longleftrightarrow> (\<forall>i<8. bit b i)"
    unfolding first_clear_bit_def find_None_iff using and_one_bit [of b] by auto
  then show ?thesis by (simp only: full_byte)
qed

text \<open>The search returns the lowest free frame from a byte on, and fails only when there is none.\<close>

lemma acquire_loop_ok:
  "acquire_loop bm byte =
     (if \<exists>p < RAM_AS_4K_PAGES. 8 * byte \<le> p \<and> \<not> bm_used bm p
      then Some (LEAST p. 8 * byte \<le> p \<and> \<not> bm_used bm p) else None)"
proof (induction bm byte rule: acquire_loop.induct)
  case (1 bm byte)
  have size: "RAM_AS_4K_PAGES = 8 * BITMAP_BYTES" by (simp add: BITMAP_BYTES_def RAM_AS_4K_PAGES_def)
  show ?case
  proof (cases "byte < BITMAP_BYTES")
    case False
    then show ?thesis by (subst acquire_loop.simps) (auto simp: size)
  next
    case in_range: True
    show ?thesis
    proof (cases "first_clear_bit (bm byte)")
      case None
      then have full: "bm byte = 0xFF" by (simp add: first_clear_None)
      then have used: "bm_used bm p" if "8 * byte \<le> p" "p < 8 * Suc byte" for p
      proof -
        have "p div 8 = byte" using that by auto
        then show ?thesis using full full_byte [of "bm byte"] by (simp add: bm_used_def)
      qed
      have shift: "(8 * byte \<le> p \<and> \<not> bm_used bm p) \<longleftrightarrow> (8 * Suc byte \<le> p \<and> \<not> bm_used bm p)" for p
        using used [of p] by (cases "p < 8 * Suc byte") auto
      have "acquire_loop bm byte = acquire_loop bm (Suc byte)"
        using in_range full by (subst acquire_loop.simps) simp
      then show ?thesis unfolding shift using "1.IH"(2) [OF in_range] full by simp
    next
      case (Some i)
      note i = first_clear_Some [OF Some]
      have free: "\<not> bm_used bm (8 * byte + i)" using i by (simp add: bm_used_def)
      have low: "bm_used bm p" if "8 * byte \<le> p" "p < 8 * byte + i" for p
      proof -
        have "p div 8 = byte" using that i by auto
        moreover have "p mod 8 < i" using that i \<open>p div 8 = byte\<close> by (metis add_less_cancel_left mult_div_mod_eq)
        ultimately show ?thesis using i by (simp add: bm_used_def)
      qed
      have "(LEAST p. 8 * byte \<le> p \<and> \<not> bm_used bm p) = 8 * byte + i"
        using free low by (intro Least_equality) (auto simp: not_le [symmetric])
      moreover have "8 * byte + i < RAM_AS_4K_PAGES" using in_range i size by simp
      moreover have "acquire_loop bm byte = Some (8 * byte + i)"
        using in_range Some first_clear_None [of "bm byte"] by (subst acquire_loop.simps) auto
      ultimately show ?thesis using free by (auto intro: le_add1)
    qed
  qed
qed

definition frames_left :: "vmm_state \<Rightarrow> bool" where
  "frames_left s \<longleftrightarrow> (\<exists>f < RAM_AS_4K_PAGES. \<not> bm_used (vm_bitmap s) f)"

lemma frame_of_page:
  assumes "page < RAM_AS_4K_PAGES"
  shows "unat (of_nat page * PAGESIZE_4K) = page * 4096"
    and "frame_of (of_nat page * PAGESIZE_4K) = page"
proof -
  have "page * 4096 < 2 ^ 32" using assms by (simp add: RAM_AS_4K_PAGES_def)
  then have "unat (of_nat (page * 4096) :: u32) = page * 4096"
    by (intro unat_of_nat_small) simp
  then show "unat (of_nat page * PAGESIZE_4K) = page * 4096"
    by (simp add: PAGESIZE_4K_def)
  then show "frame_of (of_nat page * PAGESIZE_4K) = page" by (simp add: frame_of_def)
qed

text \<open>The frame acquired was free, is the lowest free one, and nothing else changes.\<close>

lemma acquire_ok:
  assumes "frames_left s"
  shows "ok (vmm_acquire_page_frame_4k s) (\<lambda>(s', p). \<exists>bm'. s' = s\<lparr>vm_bitmap := bm'\<rparr> \<and>
    frame_of p < RAM_AS_4K_PAGES \<and> unat p = frame_of p * 4096 \<and>
    \<not> bm_used (vm_bitmap s) (frame_of p) \<and> (\<forall>f < frame_of p. bm_used (vm_bitmap s) f) \<and>
    (\<forall>f. bm_used bm' f \<longleftrightarrow> f = frame_of p \<or> bm_used (vm_bitmap s) f))"
proof -
  let ?bm = "vm_bitmap s"
  define page where "page = (LEAST p. \<not> bm_used ?bm p)"
  obtain f where f: "f < RAM_AS_4K_PAGES" "\<not> bm_used ?bm f"
    using assms by (auto simp: frames_left_def)
  have found: "acquire_loop ?bm 0 = Some page"
    using f by (auto simp: acquire_loop_ok page_def)
  have free: "\<not> bm_used ?bm page" unfolding page_def using f(2) by (rule LeastI)
  have low: "bm_used ?bm q" if "q < page" for q
    using not_less_Least that unfolding page_def by blast
  have page: "page < RAM_AS_4K_PAGES"
    unfolding page_def using Least_le [of "\<lambda>p. \<not> bm_used ?bm p" f] f by simp
  then have "unat (of_nat page :: u32) = page"
    by (simp add: unat_of_nat_small RAM_AS_4K_PAGES_def)
  then obtain bm' where bm': "set_pageframe_used ?bm (of_nat page) = Some bm'"
      "\<forall>p. bm_used bm' p \<longleftrightarrow> p = page \<or> bm_used ?bm p"
    using set_used_ok [of "of_nat page" ?bm] page by (auto simp: ok_iff)
  show ?thesis
    using found bm'(1) bm'(2) free low page frame_of_page [OF page]
    by (simp add: vmm_acquire_page_frame_4k_def) blast
qed

section \<open>Entries\<close>

lemma present_iff: "present e \<longleftrightarrow> bit e 0"
  by (simp add: present_def PG_PRESENT_def and_one_eq odd_iff_mod_2_eq_one bit_0 even_iff_mod_2_eq_zero)

lemma and_exp_eq: "(e :: u32) AND 2 ^ i = 2 ^ i \<longleftrightarrow> bit e i" if "i < 32" for i
proof -
  have "e AND 2 ^ i = (if bit e i then 2 ^ i else 0)"
    by (rule bit_word_eqI) (auto simp: bit_and_iff bit_exp_iff)
  moreover have "(2 :: u32) ^ i \<noteq> 0" using that by simp
  ultimately show ?thesis by (auto split: if_splits)
qed

lemma owned_iff: "owned e \<longleftrightarrow> bit e 9"
  using and_exp_eq [of 9 e] by (simp add: owned_def PG_OWNED_def)

lemma big_page_iff: "e AND PG_4MB \<noteq> 0 \<longleftrightarrow> bit e 7"
  using and_one_bit [of e 7] by (simp add: PG_4MB_def)

lemma frame_of_drop: "frame_of e = unat (drop_bit 12 e)"
  by (simp add: frame_of_def unat_drop_bit_eq drop_bit_nat_def)

definition entry :: "u32 \<Rightarrow> u32 \<Rightarrow> u32" where
  "entry p flags = p OR (flags AND 0xFFF) OR (PG_PRESENT OR PG_WRITE)"

lemma bit_low_mask: "bit (0xFFF :: u32) n \<longleftrightarrow> n < 12"
proof -
  have m: "(0xFFF :: u32) = mask 12" by (simp add: mask_eq_exp_minus_1)
  show ?thesis unfolding m bit_mask_iff by auto
qed

lemma aligned_bits: "unat p = frame_of p * 4096 \<Longrightarrow> n < 12 \<Longrightarrow> \<not> bit p n"
proof -
  assume p: "unat p = frame_of p * 4096" and n: "n < 12"
  have "take_bit 12 (unat p) = 0" by (simp add: p take_bit_eq_mod)
  then have "\<not> bit (take_bit 12 (unat p)) n" by simp
  then show ?thesis using n by (simp add: bit_take_bit_iff bit_unsigned_iff)
qed

lemma entry_simps [simp]:
  "present (entry p flags)"
  "frame_of (entry p flags) = frame_of p"
proof -
  show "present (entry p flags)"
    by (simp add: present_iff entry_def PG_PRESENT_def bit_or_iff)
  have "drop_bit 12 (entry p flags) = drop_bit 12 p"
    by (rule bit_word_eqI)
      (auto simp: entry_def bit_drop_bit_eq bit_or_iff bit_and_iff bit_low_mask PG_PRESENT_def
        PG_WRITE_def bit_1_iff bit_numeral_rec)
  then show "frame_of (entry p flags) = frame_of p" by (simp add: frame_of_drop)
qed

lemma entry_4mb:
  "unat p = frame_of p * 4096 \<Longrightarrow> entry p flags AND PG_4MB \<noteq> 0 \<longleftrightarrow> bit flags 7"
  unfolding big_page_iff
  by (simp add: entry_def bit_or_iff bit_and_iff bit_low_mask PG_PRESENT_def PG_WRITE_def
      aligned_bits bit_1_iff) 

lemma entry_owned:
  "unat p = frame_of p * 4096 \<Longrightarrow> owned (entry p flags) \<longleftrightarrow> bit flags 9"
  by (simp add: owned_iff entry_def bit_or_iff bit_and_iff bit_low_mask PG_PRESENT_def PG_WRITE_def
      aligned_bits bit_1_iff)

section \<open>The self-mapped directory\<close>

definition pd_frame :: "vmm_state \<Rightarrow> nat" where
  "pd_frame s = frame_of (vm_cr3 s)"

definition pde :: "vmm_state \<Rightarrow> nat \<Rightarrow> u32" where
  "pde s k = vm_pm s (pd_frame s) k"

text \<open>An entry that points to a page table, and the entries of the tables.\<close>

definition is_table :: "u32 \<Rightarrow> bool" where
  "is_table e \<longleftrightarrow> present e \<and> e AND PG_4MB = 0"

definition pte :: "vmm_state \<Rightarrow> nat \<Rightarrow> nat \<Rightarrow> u32" where
  "pte s k j = (if is_table (pde s k) then vm_pm s (frame_of (pde s k)) j else 0)"

definition self_mapped :: "vmm_state \<Rightarrow> bool" where
  "self_mapped s \<longleftrightarrow> is_table (pde s 1023) \<and> frame_of (pde s 1023) = pd_frame s"

definition pd_ix :: "u32 \<Rightarrow> nat" where
  "pd_ix v = unat v div 0x400000"

definition pt_ix :: "u32 \<Rightarrow> nat" where
  "pt_ix v = unat v div 4096 mod 1024"

lemma code_indices:
  "unat (drop_bit 22 v) = pd_ix v" "unat (drop_bit 12 v AND 0x3FF) = pt_ix (v :: u32)"
proof -
  show "unat (drop_bit 22 v) = pd_ix v"
    by (simp add: pd_ix_def unat_drop_bit_eq drop_bit_nat_def)
  have "(0x3FF :: u32) = mask 10" by (simp add: mask_eq_exp_minus_1)
  then have "drop_bit 12 v AND 0x3FF = take_bit 10 (drop_bit 12 v)"
    by (simp only: take_bit_eq_mask)
  then have "unat (drop_bit 12 v AND 0x3FF) = take_bit 10 (unat (drop_bit 12 v))"
    by (simp add: unsigned_take_bit_eq)
  then show "unat (drop_bit 12 v AND 0x3FF) = pt_ix v"
    by (simp add: pt_ix_def unat_drop_bit_eq drop_bit_nat_def take_bit_eq_mod)
qed

lemma pt_ix_less [simp]: "pt_ix v < 1024"
  by (simp add: pt_ix_def)

lemma pd_ix_less: "pd_ix v < 1024"
  using u32_less [of v] by (simp add: pd_ix_def less_mult_imp_div_less)

lemma translate_view:
  "translate s v =
     (if present (pde s (pd_ix v)) \<and> pde s (pd_ix v) AND PG_4MB \<noteq> 0
      then Some (unat (pde s (pd_ix v)) div 0x400000 * 1024 + pt_ix v, unat v mod 4096 div 4)
      else if present (pte s (pd_ix v) (pt_ix v))
      then Some (frame_of (pte s (pd_ix v) (pt_ix v)), unat v mod 4096 div 4) else None)"
proof -
  have "\<not> present 0" by (simp add: present_iff)
  then show ?thesis
    by (auto simp: translate_def pde_def pd_frame_def pte_def is_table_def pd_ix_def pt_ix_def Let_def)
qed

text \<open>An address taken apart: page and offset, directory and table index.\<close>

lemma page_split:
  assumes "unat v = 4096 * (1024 * k + j) + 4 * i" and "i < 1024" and "j < 1024"
  shows "pd_ix v = k" "pt_ix v = j" "unat v mod 4096 div 4 = i"
proof -
  have "unat v div 4096 = 1024 * k + j"
    unfolding assms(1) using assms(2) by (simp add: div_add1_eq)
  then show "pt_ix v = j" using assms(3) by (simp add: pt_ix_def)
  have "unat v div 0x400000 = unat v div 4096 div 1024" by (simp add: div_mult2_eq [symmetric])
  then show "pd_ix v = k"
    using assms(3) \<open>unat v div 4096 = 1024 * k + j\<close> by (simp add: pd_ix_def)
  have "unat v mod 4096 = 4 * i" unfolding assms(1) using assms(2) by (simp only: mod_mult_self4) simp
  then show "unat v mod 4096 div 4 = i" by simp
qed

lemma unat_word_at:
  assumes "unat base + 4 * i < 2 ^ 32"
  shows "unat (word_at base i) = unat base + 4 * i"
proof -
  have "4 * i < 2 ^ 32" using assms by simp
  then have "unat (of_nat (4 * i) :: u32) = 4 * i" by (intro unat_of_nat_small) simp
  then show ?thesis using assms by (simp add: word_at_def unat_add_small)
qed

lemma unat_pd_word: "i < 1024 \<Longrightarrow> unat (word_at PD_BASE i) = 0xFFFFF000 + 4 * i"
  by (subst unat_word_at) (simp_all add: PD_BASE_def)

lemma unat_pt_word:
  assumes "k < 1024" and "j < 1024"
  shows "unat (word_at (PT_BASE k) j) = 0xFFC00000 + 4096 * k + 4 * j"
proof -
  have "unat (of_nat (4 * (0x400 * k)) :: u32) = 4096 * k"
    using assms(1) by (subst unat_of_nat_small) simp_all
  then have base: "unat (PT_BASE k) = 0xFFC00000 + 4096 * k"
    unfolding PT_BASE_def using assms(1) by (subst unat_add_small) simp_all
  show ?thesis using assms by (subst unat_word_at) (simp_all add: base)
qed

lemma translate_pd:
  assumes "self_mapped s" and "i < 1024"
  shows "translate s (word_at PD_BASE i) = Some (pd_frame s, i)"
proof -
  have "pd_ix (word_at PD_BASE i) = 1023" "pt_ix (word_at PD_BASE i) = 1023"
    "unat (word_at PD_BASE i) mod 4096 div 4 = i"
    using page_split [of "word_at PD_BASE i" 1023 1023 i] assms(2) by (simp_all add: unat_pd_word)
  moreover have "pte s 1023 1023 = pde s 1023"
    using assms(1) by (simp add: pte_def self_mapped_def pde_def)
  ultimately show ?thesis
    using assms(1) by (simp add: translate_view self_mapped_def is_table_def)
qed

lemma translate_pt:
  assumes "self_mapped s" and "k < 1024" and "j < 1024"
  shows "translate s (word_at (PT_BASE k) j) =
    (if present (pde s k) then Some (frame_of (pde s k), j) else None)"
proof -
  let ?a = "word_at (PT_BASE k) j"
  have "pd_ix ?a = 1023" "pt_ix ?a = k" "unat ?a mod 4096 div 4 = j"
    using page_split [of ?a 1023 k j] assms(2,3) by (simp_all add: unat_pt_word)
  moreover have "pte s 1023 k = pde s k"
    using assms(1) by (simp add: pte_def self_mapped_def pde_def)
  ultimately show ?thesis
    using assms(1) by (simp add: translate_view self_mapped_def is_table_def)
qed

lemma vload_pd: "self_mapped s \<Longrightarrow> i < 1024 \<Longrightarrow> vload s (word_at PD_BASE i) = Some (pde s i)"
  by (simp add: vload_def translate_pd pde_def)

lemma vstore_pd:
  "self_mapped s \<Longrightarrow> i < 1024 \<Longrightarrow> vstore s (word_at PD_BASE i) x = Some (pm_write s (pd_frame s) i x)"
  by (simp add: vstore_def translate_pd)

lemma vload_pt:
  "self_mapped s \<Longrightarrow> k < 1024 \<Longrightarrow> j < 1024 \<Longrightarrow> is_table (pde s k) \<Longrightarrow>
   vload s (word_at (PT_BASE k) j) = Some (pte s k j)"
  by (simp add: vload_def translate_pt pte_def is_table_def)

lemma vstore_pt:
  "self_mapped s \<Longrightarrow> k < 1024 \<Longrightarrow> j < 1024 \<Longrightarrow> is_table (pde s k) \<Longrightarrow>
   vstore s (word_at (PT_BASE k) j) x = Some (pm_write s (frame_of (pde s k)) j x)"
  by (simp add: vstore_def translate_pt is_table_def)

text \<open>
  The address space of the active directory: it maps itself, its tables are different used
  frames that are not the directory, and no entry of the user half is a 4 MB page.
\<close>

definition space_ok :: "vmm_state \<Rightarrow> bool" where
  "space_ok s \<longleftrightarrow> self_mapped s \<and> bm_used (vm_bitmap s) (pd_frame s) \<and>
     (\<forall>k < 1023. is_table (pde s k) \<longrightarrow>
        frame_of (pde s k) \<noteq> pd_frame s \<and> bm_used (vm_bitmap s) (frame_of (pde s k))) \<and>
     (\<forall>k < 1023. \<forall>k' < 1023. is_table (pde s k) \<longrightarrow> is_table (pde s k') \<longrightarrow>
        frame_of (pde s k) = frame_of (pde s k') \<longrightarrow> k = k') \<and>
     (\<forall>k < 1023. 256 \<le> k \<longrightarrow> pde s k AND PG_4MB = 0)"

lemma pm_write_simps [simp]:
  "vm_cr3 (pm_write s f i x) = vm_cr3 s"
  "vm_bitmap (pm_write s f i x) = vm_bitmap s"
  "vm_total (pm_write s f i x) = vm_total s"
  "pd_frame (pm_write s f i x) = pd_frame s"
  "vm_pm (pm_write s f i x) g j = (if g = f \<and> j = i then x else vm_pm s g j)"
  by (auto simp: pm_write_def pd_frame_def)

lemma space_tables:
  assumes "space_ok s" and "k < 1023" and "is_table (pde s k)"
  shows "frame_of (pde s k) \<noteq> pd_frame s" "bm_used (vm_bitmap s) (frame_of (pde s k))"
  using assms by (auto simp: space_ok_def)

lemma space_self: "space_ok s \<Longrightarrow> self_mapped s"
  by (simp add: space_ok_def)

text \<open>Writing an entry of a table changes that entry of the space and nothing else.\<close>

lemma write_pte:
  assumes "space_ok s" and "k < 1023" and "is_table (pde s k)"
    and s': "s' = pm_write s (frame_of (pde s k)) j x"
  shows "space_ok s'" "pde s' = pde s"
    and "k' < 1023 \<Longrightarrow> pte s' k' j' = (if k' = k \<and> j' = j then x else pte s k' j')"
proof -
  have pd: "pde s' = pde s"
    using space_tables [OF assms(1-3)] by (auto simp: pde_def s' fun_eq_iff)
  then show "pde s' = pde s" .
  show "space_ok s'" using assms(1) by (simp add: space_ok_def self_mapped_def pd) (simp add: s')
  show "pte s' k' j' = (if k' = k \<and> j' = j then x else pte s k' j')" if "k' < 1023"
  proof (cases "is_table (pde s k') \<and> frame_of (pde s k') = frame_of (pde s k)")
    case True
    then have "k' = k" using assms(1-3) that by (auto simp: space_ok_def)
    then show ?thesis using assms(3) by (simp add: pte_def pd) (simp add: s')
  next
    case False
    then show ?thesis using assms(3) by (auto simp: pte_def pd) (auto simp: s')
  qed
qed

lemma zero_words_ok:
  assumes "space_ok s" and "k < 1023" and "is_table (pde s k)" and "i + n \<le> 1024"
  shows "ok (zero_words s (PT_BASE k) i n) (\<lambda>s'. space_ok s' \<and> pde s' = pde s \<and>
    vm_cr3 s' = vm_cr3 s \<and> vm_bitmap s' = vm_bitmap s \<and> vm_total s' = vm_total s \<and>
    (\<forall>k' < 1023. \<forall>j. pte s' k' j = (if k' = k \<and> i \<le> j \<and> j < i + n then 0 else pte s k' j)))"
  using assms
proof (induction n arbitrary: s i)
  case 0
  then show ?case by auto
next
  case (Suc n)
  let ?s = "pm_write s (frame_of (pde s k)) i 0"
  note w = write_pte [OF Suc.prems(1-3), of ?s i 0, OF refl]
  have "vstore s (word_at (PT_BASE k) i) 0 = Some ?s"
    using Suc.prems by (intro vstore_pt) (auto simp: space_self)
  then have run: "zero_words s (PT_BASE k) i (Suc n) = zero_words ?s (PT_BASE k) (Suc i) n" by simp
  have "ok (zero_words ?s (PT_BASE k) (Suc i) n) (\<lambda>s'. space_ok s' \<and> pde s' = pde ?s \<and>
    vm_cr3 s' = vm_cr3 ?s \<and> vm_bitmap s' = vm_bitmap ?s \<and> vm_total s' = vm_total ?s \<and>
    (\<forall>k' < 1023. \<forall>j. pte s' k' j = (if k' = k \<and> Suc i \<le> j \<and> j < Suc i + n then 0 else pte ?s k' j)))"
    using Suc.prems w by (intro Suc.IH) auto
  then show ?case unfolding run using w by (elim ok_mono) auto
qed

text \<open>At most one more frame is in use.\<close>

definition takes_one :: "vmm_state \<Rightarrow> vmm_state \<Rightarrow> bool" where
  "takes_one s s' \<longleftrightarrow> (\<exists>g. \<forall>f. bm_used (vm_bitmap s') f \<longrightarrow> bm_used (vm_bitmap s) f \<or> f = g)"

lemma takes_one_cong: "vm_bitmap t = vm_bitmap s' \<Longrightarrow> takes_one s t = takes_one s s'"
  by (simp add: takes_one_def)

lemma takes_one_refl [simp]: "takes_one s s"
  by (auto simp: takes_one_def)

text \<open>Installing a free frame as a new, empty table leaves every entry of the space as it was.\<close>

lemma install_table:
  assumes "space_ok s" and "k < 1023" and "256 \<le> k" and "\<not> present (pde s k)"
    and "frames_left s" and "\<not> bit flags 7"
  shows "ok (ensure_table s k flags)
    (\<lambda>s'. space_ok s' \<and> is_table (pde s' k) \<and> (\<forall>k'. k' \<noteq> k \<longrightarrow> pde s' k' = pde s k') \<and>
      vm_cr3 s' = vm_cr3 s \<and> vm_total s' = vm_total s \<and>
      (\<forall>k' < 1023. \<forall>j < 1024. pte s' k' j = pte s k' j) \<and>
      (\<forall>f. bm_used (vm_bitmap s) f \<longrightarrow> bm_used (vm_bitmap s') f) \<and>
      takes_one s s')"
proof -
  obtain bm' p where acq: "vmm_acquire_page_frame_4k s = Some (s\<lparr>vm_bitmap := bm'\<rparr>, p)"
    and p: "unat p = frame_of p * 4096" "\<not> bm_used (vm_bitmap s) (frame_of p)"
    and bm': "\<And>f. bm_used bm' f \<longleftrightarrow> f = frame_of p \<or> bm_used (vm_bitmap s) f"
    using acquire_ok [OF assms(5)] by (auto simp: ok_iff)
  let ?t = "s\<lparr>vm_bitmap := bm'\<rparr>" and ?e = "entry p flags"
  let ?t' = "pm_write ?t (pd_frame s) k ?e"
  have view: "pd_frame ?t = pd_frame s" "pde ?t = pde s" "self_mapped ?t"
    using assms(1) by (auto simp: pd_frame_def pde_def fun_eq_iff space_ok_def self_mapped_def)
  have e4: "?e AND PG_4MB = 0" using entry_4mb [OF p(1), of flags] assms(6) by blast
  then have e: "is_table ?e" by (simp add: is_table_def)
  have pd': "pde ?t' k' = (if k' = k then ?e else pde s k')" for k'
    using view by (simp add: pde_def)
  have sp: "space_ok ?t'"
  proof -
    have used: "bm_used (vm_bitmap ?t') f" if "bm_used (vm_bitmap s) f" for f
      using that bm' by simp
    have fresh: "frame_of (pde s k') \<noteq> frame_of p" if "k' < 1023" "is_table (pde s k')" for k'
      using space_tables [OF assms(1) that] p(2) by metis
    have "frame_of p \<noteq> pd_frame s" using assms(1) p(2) by (auto simp: space_ok_def)
    moreover have "bm_used (vm_bitmap ?t') (frame_of p)" using bm' by simp
    ultimately show ?thesis
      using assms(1-3) e fresh fresh [symmetric] used e4
      unfolding space_ok_def self_mapped_def pd' by (auto simp: view)
  qed
  have st: "vstore ?t (word_at PD_BASE k) (p OR (flags AND 0xFFF) OR (PG_PRESENT OR PG_WRITE)) = Some ?t'"
    using vstore_pd [OF view(3), of k ?e] assms(2) view by (simp add: entry_def)
  have tab: "is_table (pde ?t' k)" using e by (simp add: pd')
  have keep: "pte ?t' k' j = pte s k' j" if "k' < 1023" "k' \<noteq> k" for k' j
  proof -
    have "is_table (pde s k') \<Longrightarrow> frame_of (pde s k') \<noteq> pd_frame s"
      using space_tables [OF assms(1) that(1)] by blast
    then show ?thesis using that(2) by (auto simp: pte_def pd')
  qed
  have none: "pte s k j = 0" for j using assms(4) by (simp add: pte_def is_table_def)
  have "ok (zero_words ?t' (PT_BASE k) 0 1024) (\<lambda>s'. space_ok s' \<and> pde s' = pde ?t' \<and>
    vm_cr3 s' = vm_cr3 ?t' \<and> vm_bitmap s' = vm_bitmap ?t' \<and> vm_total s' = vm_total ?t' \<and>
    (\<forall>k' < 1023. \<forall>j. pte s' k' j = (if k' = k \<and> 0 \<le> j \<and> j < 0 + 1024 then 0 else pte ?t' k' j)))"
    using sp assms(2) tab by (intro zero_words_ok) auto
  moreover have "vload s (word_at PD_BASE k) = Some (pde s k)"
    using vload_pd [OF space_self [OF assms(1)]] assms(2) by simp
  ultimately show ?thesis using assms(4) tab keep none bm' pd'
    by (auto simp: ensure_table_def acq st takes_one_def elim!: ok_mono)
qed

text \<open>Two addresses lie in one page when they agree above the lowest twelve bits.\<close>

definition same_page :: "u32 \<Rightarrow> u32 \<Rightarrow> bool" where
  "same_page v v' \<longleftrightarrow> unat v div 4096 = unat v' div 4096"

lemma same_page_iff: "same_page v v' \<longleftrightarrow> pd_ix v = pd_ix v' \<and> pt_ix v = pt_ix v'"
proof -
  have "unat w div 0x400000 = unat w div 4096 div 1024" for w :: u32
    by (simp add: div_mult2_eq [symmetric])
  then show ?thesis
    unfolding same_page_def pd_ix_def pt_ix_def by (metis div_mult_mod_eq)
qed

definition user_addr :: "u32 \<Rightarrow> bool" where
  "user_addr v \<longleftrightarrow> KERN_HEAP_END \<le> v \<and> v < MEMORY_END"

lemma below_end: "v < MEMORY_END \<Longrightarrow> pd_ix v < 1023"
  by (simp add: MEMORY_END_def word_less_nat_alt pd_ix_def less_mult_imp_div_less)

lemma user_ix:
  assumes "user_addr v"
  shows "pd_ix v < 1023" "256 \<le> pd_ix v" "\<not> v < KERN_HEAP_END"
proof -
  show "pd_ix v < 1023" "\<not> v < KERN_HEAP_END" using assms by (auto simp: user_addr_def below_end)
  have "256 * 0x400000 \<le> unat v"
    using assms by (simp add: user_addr_def KERN_HEAP_END_def word_le_nat_alt)
  then have "256 * 0x400000 div 0x400000 \<le> pd_ix v" unfolding pd_ix_def by (rule div_le_mono)
  then show "256 \<le> pd_ix v" by simp
qed

lemma space_user_pde: "space_ok s \<Longrightarrow> 256 \<le> k \<Longrightarrow> k < 1023 \<Longrightarrow> pde s k AND PG_4MB = 0"
  by (auto simp: space_ok_def)

lemma translate_user:
  "space_ok s \<Longrightarrow> user_addr v \<Longrightarrow>
   translate s v = (if present (pte s (pd_ix v) (pt_ix v))
     then Some (frame_of (pte s (pd_ix v) (pt_ix v)), unat v mod 4096 div 4) else None)"
  using space_user_pde user_ix by (simp add: translate_view)

lemma translate_cong:
  assumes "pte s' (pd_ix v) (pt_ix v) = pte s (pd_ix v) (pt_ix v)"
    and "pde s' (pd_ix v) = pde s (pd_ix v) \<or>
      pde s' (pd_ix v) AND PG_4MB = 0 \<and> pde s (pd_ix v) AND PG_4MB = 0"
  shows "translate s' v = translate s v"
  using assms by (auto simp: translate_view)

lemma add_page_ok:
  assumes sp: "space_ok s" and v: "user_addr v" and free: "translate s v = None"
    and room: "present (pde s (pd_ix v)) \<or> frames_left s" and fl: "\<not> bit flags 7"
  shows "ok (vmm_add_page_to_pd s v p flags) (\<lambda>(s', r). r \<and> space_ok s' \<and>
    pte s' (pd_ix v) (pt_ix v) = entry p flags \<and> vm_cr3 s' = vm_cr3 s \<and> vm_total s' = vm_total s \<and>
    (\<forall>v'. v' < MEMORY_END \<longrightarrow> \<not> same_page v v' \<longrightarrow> translate s' v' = translate s v') \<and>
    (\<forall>f. bm_used (vm_bitmap s) f \<longrightarrow> bm_used (vm_bitmap s') f) \<and>
    takes_one s s')"
proof -
  let ?k = "pd_ix v" and ?j = "pt_ix v"
  note ix = user_ix [OF v]
  have k: "?k < 1024" using ix by simp
  have u4: "pde s ?k AND PG_4MB = 0" using space_user_pde [OF sp] ix by blast
  have "ok (ensure_table s ?k flags) (\<lambda>s1. space_ok s1 \<and> is_table (pde s1 ?k) \<and> (\<forall>k'. k' \<noteq> ?k \<longrightarrow> pde s1 k' = pde s k') \<and>
      vm_cr3 s1 = vm_cr3 s \<and> vm_total s1 = vm_total s \<and>
      (\<forall>k' < 1023. \<forall>j < 1024. pte s1 k' j = pte s k' j) \<and>
      (\<forall>f. bm_used (vm_bitmap s) f \<longrightarrow> bm_used (vm_bitmap s1) f) \<and>
      takes_one s s1)"
    using install_table [OF sp ix(1,2), of flags] room fl sp u4 vload_pd [OF space_self [OF sp] k]
    by (cases "present (pde s ?k)") (auto simp: ensure_table_def is_table_def)
  then obtain s1 where s1: "ensure_table s ?k flags = Some s1" "space_ok s1" "is_table (pde s1 ?k)"
      "\<And>k'. k' \<noteq> ?k \<Longrightarrow> pde s1 k' = pde s k'" "vm_cr3 s1 = vm_cr3 s" "vm_total s1 = vm_total s"
      "\<And>k' j. k' < 1023 \<Longrightarrow> j < 1024 \<Longrightarrow> pte s1 k' j = pte s k' j"
      "\<And>f. bm_used (vm_bitmap s) f \<Longrightarrow> bm_used (vm_bitmap s1) f"
      "takes_one s s1"
    by (auto simp: ok_iff)
  have np: "\<not> present (pte s1 ?k ?j)"
    using free translate_user [OF sp v] s1(7) ix by (auto split: if_splits)
  let ?s2 = "pm_write s1 (frame_of (pde s1 ?k)) ?j (entry p flags)"
  note w = write_pte [OF s1(2) ix(1) s1(3), of ?s2 ?j "entry p flags", OF refl]
  have run: "vmm_add_page_to_pd s v p flags = Some (?s2, True)"
    using s1(1) np ix(3)
      vload_pt [OF space_self [OF s1(2)] k _ s1(3)] vstore_pt [OF space_self [OF s1(2)] k _ s1(3)]
    by (simp add: vmm_add_page_to_pd_def code_indices Let_def)
      (simp add: entry_def)
  have other: "translate ?s2 v' = translate s v'" if "v' < MEMORY_END" "\<not> same_page v v'" for v'
  proof (rule translate_cong)
    show "pte ?s2 (pd_ix v') (pt_ix v') = pte s (pd_ix v') (pt_ix v')"
      using w(3) s1(7) below_end [OF that(1)] that(2) by (auto simp: same_page_iff)
    show "pde ?s2 (pd_ix v') = pde s (pd_ix v') \<or>
        pde ?s2 (pd_ix v') AND PG_4MB = 0 \<and> pde s (pd_ix v') AND PG_4MB = 0"
      using w(2) s1(4) u4 s1(3) by (cases "pd_ix v' = ?k") (auto simp: is_table_def)
  qed
  have "takes_one s ?s2" using s1(9) takes_one_cong [of ?s2 s1] by simp
  then show ?thesis using run w other s1(5,6,8) ix by auto
qed

section \<open>Removing a page\<close>

text \<open>
  The frames a space owns through its user half: used, different from each other, and none
  of them the directory or one of its tables.
\<close>

definition owned_ok :: "vmm_state \<Rightarrow> bool" where
  "owned_ok s \<longleftrightarrow>
     (\<forall>k j. 256 \<le> k \<longrightarrow> k < 1023 \<longrightarrow> j < 1024 \<longrightarrow> owned (pte s k j) \<longrightarrow>
        bm_used (vm_bitmap s) (frame_of (pte s k j)) \<and> frame_of (pte s k j) \<noteq> pd_frame s \<and>
        (\<forall>k' < 1023. is_table (pde s k') \<longrightarrow> frame_of (pde s k') \<noteq> frame_of (pte s k j)) \<and>
        (\<forall>k' j'. 256 \<le> k' \<longrightarrow> k' < 1023 \<longrightarrow> j' < 1024 \<longrightarrow> owned (pte s k' j') \<longrightarrow>
           frame_of (pte s k' j') = frame_of (pte s k j) \<longrightarrow> k' = k \<and> j' = j))"

lemma frame_of_aligned: "frame_of (e AND NOT 0xFFF) = frame_of e"
proof -
  have "drop_bit 12 (e AND NOT 0xFFF) = drop_bit 12 e"
  proof (rule bit_word_eqI)
    fix n
    show "bit (drop_bit 12 (e AND NOT 0xFFF)) n = bit (drop_bit 12 e) n"
      unfolding bit_drop_bit_eq comp_def bit_and_iff bit_not_iff bit_low_mask
      by (auto dest: bit_imp_le_length)
  qed
  then show ?thesis by (simp only: frame_of_drop)
qed

text \<open>The simplifier's form of the same mask.\<close>

lemma frame_of_aligned' [simp]: "frame_of (e AND - 4096) = frame_of e"
  using frame_of_aligned [of e] by simp

lemma not_owned_0 [simp]: "\<not> owned 0" "\<not> present 0"
  by (simp_all add: owned_iff present_iff)

lemma release_simps [simp]:
  "vm_cr3 (vmm_release_page_frame_4k s p) = vm_cr3 s"
  "vm_total (vmm_release_page_frame_4k s p) = vm_total s"
  "vm_pm (vmm_release_page_frame_4k s p) = vm_pm s"
  "pd_frame (vmm_release_page_frame_4k s p) = pd_frame s"
  "pde (vmm_release_page_frame_4k s p) = pde s"
  "pte (vmm_release_page_frame_4k s p) = pte s"
  "self_mapped (vmm_release_page_frame_4k s p) = self_mapped s"
  "bm_used (vm_bitmap (vmm_release_page_frame_4k s p)) f \<longleftrightarrow> f \<noteq> frame_of p \<and> bm_used (vm_bitmap s) f"
  by (auto simp: vmm_release_page_frame_4k_def pd_frame_def pde_def pte_def self_mapped_def
      fun_eq_iff bm_used_unused)

lemma space_release:
  assumes "space_ok s" and "f \<noteq> pd_frame s"
    and "\<And>k'. k' < 1023 \<Longrightarrow> is_table (pde s k') \<Longrightarrow> frame_of (pde s k') \<noteq> f" and "frame_of p = f"
  shows "space_ok (vmm_release_page_frame_4k s p)"
  using assms by (auto simp: space_ok_def)

lemma all_unmapped_ok:
  assumes "self_mapped s" and "k < 1024" and "is_table (pde s k)" and "i + n \<le> 1024"
  shows "all_unmapped s (PT_BASE k) i n = Some (\<forall>j. i \<le> j \<and> j < i + n \<longrightarrow> pte s k j = 0)"
  using assms(4)
proof (induction n arbitrary: i)
  case 0
  then show ?case by auto
next
  case (Suc n)
  have ld: "vload s (word_at (PT_BASE k) i) = Some (pte s k i)"
    using Suc.prems assms(1-3) by (intro vload_pt) auto
  have "(\<forall>j. i \<le> j \<and> j < i + Suc n \<longrightarrow> pte s k j = 0) \<longleftrightarrow>
      pte s k i = 0 \<and> (\<forall>j. Suc i \<le> j \<and> j < Suc i + n \<longrightarrow> pte s k j = 0)"
    by (metis Suc_leD Suc_leI add_Suc_right add_Suc le_neq_implies_less less_add_Suc1 order_refl)
  then show ?case using Suc.IH [of "Suc i"] Suc.prems ld by auto
qed

text \<open>Dropping a table that holds nothing leaves every entry of the space as it was.\<close>

lemma drop_table:
  assumes "space_ok s" and "k < 1023" and "is_table (pde s k)" and "\<forall>j < 1024. pte s k j = 0"
    and s': "s' = vmm_release_page_frame_4k (pm_write s (pd_frame s) k 0) (pde s k AND NOT 0xFFF)"
  shows "space_ok s'" "\<And>k'. k' \<noteq> k \<Longrightarrow> pde s' k' = pde s k'" "pde s' k = 0"
    "\<And>k' j. k' < 1023 \<Longrightarrow> j < 1024 \<Longrightarrow> pte s' k' j = pte s k' j"
proof -
  let ?w = "pm_write s (pd_frame s) k 0"
  have pdw: "pde ?w k' = (if k' = k then 0 else pde s k')" for k' by (simp add: pde_def)
  then show "\<And>k'. k' \<noteq> k \<Longrightarrow> pde s' k' = pde s k'" "pde s' k = 0" by (simp_all add: s')
  have z: "\<not> is_table 0" by (simp add: is_table_def)
  have sp: "space_ok ?w"
    using assms(1,2) z unfolding space_ok_def self_mapped_def pdw by auto
  have "frame_of (pde ?w k') \<noteq> frame_of (pde s k)" if "k' < 1023" "is_table (pde ?w k')" for k'
    using that assms(1-3) z by (auto simp: pdw space_ok_def split: if_splits)
  then show "space_ok s'" unfolding s'
    using sp space_tables [OF assms(1-3)]
    by (intro space_release [where f = "frame_of (pde s k)"]) (auto simp: frame_of_aligned)
  show "pte s' k' j = pte s k' j" if "k' < 1023" "j < 1024" for k' j
  proof (cases "k' = k")
    case True
    then show ?thesis using assms(4) that z by (simp add: s' pte_def [of ?w] pdw)
  next
    case False
    then show ?thesis
      using space_tables [OF assms(1) that(1)] by (auto simp: s' pte_def pdw)
  qed
qed

lemma free_empty_ok:
  assumes "space_ok s" and "k < 1023" and "is_table (pde s k)"
  shows "ok (free_empty_table s k) (\<lambda>s'. space_ok s' \<and> vm_cr3 s' = vm_cr3 s \<and>
    vm_total s' = vm_total s \<and> (\<forall>k' < 1023. \<forall>j < 1024. pte s' k' j = pte s k' j) \<and>
    (\<forall>k'. k' \<noteq> k \<longrightarrow> pde s' k' = pde s k') \<and> (pde s' k = pde s k \<or> pde s' k = 0) \<and>
    (\<forall>f. f \<noteq> frame_of (pde s k) \<longrightarrow> bm_used (vm_bitmap s') f = bm_used (vm_bitmap s) f) \<and>
    (\<forall>f. bm_used (vm_bitmap s') f \<longrightarrow> bm_used (vm_bitmap s) f))"
proof (cases "(\<forall>j < 1024. pte s k j = 0) \<and> owned (pde s k)")
  case True
  let ?s = "vmm_release_page_frame_4k (pm_write s (pd_frame s) k 0) (pde s k AND NOT 0xFFF)"
  note d = drop_table [OF assms, of ?s, OF _ refl]
  have "free_empty_table s k = Some ?s"
    using True assms space_self [OF assms(1)]
    by (simp add: free_empty_table_def all_unmapped_ok vload_pd vstore_pd)
  then show ?thesis using d True by auto
next
  case False
  then have "free_empty_table s k = Some s"
    using assms space_self [OF assms(1)]
    by (auto simp: free_empty_table_def all_unmapped_ok vload_pd)
  then show ?thesis using assms by simp
qed

lemma remove_page_ok:
  assumes sp: "space_ok s" and ow: "owned_ok s" and v: "user_addr v"
  shows "ok (vmm_remove_page_from_pd s v) (\<lambda>(s', r). (r \<longleftrightarrow> present (pde s (pd_ix v))) \<and> space_ok s' \<and>
    translate s' v = None \<and> vm_cr3 s' = vm_cr3 s \<and> vm_total s' = vm_total s \<and>
    (\<forall>v'. v' < MEMORY_END \<longrightarrow> \<not> same_page v v' \<longrightarrow> translate s' v' = translate s v') \<and>
    (owned (pte s (pd_ix v) (pt_ix v)) \<longrightarrow>
       \<not> bm_used (vm_bitmap s') (frame_of (pte s (pd_ix v) (pt_ix v)))) \<and>
    (\<forall>f. bm_used (vm_bitmap s') f \<longrightarrow> bm_used (vm_bitmap s) f))"
proof -
  let ?k = "pd_ix v" and ?j = "pt_ix v"
  let ?e = "pte s ?k ?j"
  note ix = user_ix [OF v]
  have k: "?k < 1024" using ix by simp
  have u4: "pde s ?k AND PG_4MB = 0" using space_user_pde [OF sp] ix by blast
  have ld: "vload s (word_at PD_BASE ?k) = Some (pde s ?k)" using vload_pd [OF space_self [OF sp] k] .
  show ?thesis
  proof (cases "present (pde s ?k)")
    case False
    then have "?e = 0" by (simp add: pte_def is_table_def)
    then show ?thesis using False sp ix ld translate_user [OF sp v]
      by (simp add: vmm_remove_page_from_pd_def code_indices Let_def)
  next
    case True
    then have tab: "is_table (pde s ?k)" using u4 by (simp add: is_table_def)
    let ?s1 = "if owned ?e then vmm_release_page_frame_4k s (?e AND NOT 0xFFF) else s"
    have sp1: "space_ok ?s1"
      using sp ow ix by (auto simp: owned_ok_def intro!: space_release [where f = "frame_of ?e"])
    have v1: "pde ?s1 = pde s" "pte ?s1 = pte s" "pd_frame ?s1 = pd_frame s"
        "vm_cr3 ?s1 = vm_cr3 s" "vm_total ?s1 = vm_total s"
      by auto
    have bm1: "bm_used (vm_bitmap ?s1) f \<longleftrightarrow> \<not> (owned ?e \<and> f = frame_of ?e) \<and> bm_used (vm_bitmap s) f" for f
      by auto
    let ?s2 = "pm_write ?s1 (frame_of (pde s ?k)) ?j 0"
    have tab1: "is_table (pde ?s1 ?k)" using tab by (simp only: v1)
    have s2: "space_ok ?s2" "pde ?s2 = pde s"
        "\<And>k' j'. k' < 1023 \<Longrightarrow> pte ?s2 k' j' = (if k' = ?k \<and> j' = ?j then 0 else pte s k' j')"
      using write_pte [OF sp1 ix(1) tab1, of ?s2 ?j 0] by (simp_all only: v1)
    have tab2: "is_table (pde ?s2 ?k)" using tab by (simp only: s2(2))
    obtain s3 where s3: "free_empty_table ?s2 ?k = Some s3" "space_ok s3" "vm_cr3 s3 = vm_cr3 ?s2"
        "vm_total s3 = vm_total ?s2" "\<And>k' j. k' < 1023 \<Longrightarrow> j < 1024 \<Longrightarrow> pte s3 k' j = pte ?s2 k' j"
        "\<And>k'. k' \<noteq> ?k \<Longrightarrow> pde s3 k' = pde ?s2 k'" "pde s3 ?k = pde ?s2 ?k \<or> pde s3 ?k = 0"
        "\<And>f. bm_used (vm_bitmap s3) f \<Longrightarrow> bm_used (vm_bitmap ?s2) f"
      using free_empty_ok [OF s2(1) ix(1) tab2] by (auto simp only: ok_iff)
    have lp: "vload s (word_at (PT_BASE ?k) ?j) = Some ?e"
      using vload_pt [OF space_self [OF sp] k _ tab] by simp
    have wp: "vstore ?s1 (word_at (PT_BASE ?k) ?j) 0 = Some ?s2"
      using vstore_pt [OF space_self [OF sp1] k _ tab1, of ?j 0] by (simp only: v1) simp
    have run: "vmm_remove_page_from_pd s v = Some (s3, True)"
      unfolding vmm_remove_page_from_pd_def code_indices Let_def
      using True ix(3) ld lp wp s3(1) by (cases "owned ?e") simp_all
    have gone: "translate s3 v = None"
      using translate_user [OF s3(2) v] s3(5) [OF ix(1), of ?j] s2(3) [OF ix(1), of ?j] by simp
    have other: "translate s3 v' = translate s v'" if "v' < MEMORY_END" "\<not> same_page v v'" for v'
    proof (rule translate_cong)
      show "pte s3 (pd_ix v') (pt_ix v') = pte s (pd_ix v') (pt_ix v')"
        using s3(5) s2(3) below_end [OF that(1)] that(2) by (auto simp: same_page_iff)
      show "pde s3 (pd_ix v') = pde s (pd_ix v') \<or>
          pde s3 (pd_ix v') AND PG_4MB = 0 \<and> pde s (pd_ix v') AND PG_4MB = 0"
        using s3(6,7) s2(2) u4 by (cases "pd_ix v' = ?k") auto
    qed
    show ?thesis using run s3(2,3,4,8) gone other True bm1 v1(4,5) by auto
  qed
qed

section \<open>The memory of a process\<close>

definition page_addr :: "nat \<Rightarrow> u32" where
  "page_addr q = of_nat q * PAGESIZE_4K"

text \<open>Every user page the bitmap of the process leaves free is unmapped.\<close>

definition coherent :: "vmm_state \<Rightarrow> bitmap \<Rightarrow> bool" where
  "coherent s mm \<longleftrightarrow>
     (\<forall>q. 0x40000 \<le> q \<longrightarrow> q < 0xFFC00 \<longrightarrow> \<not> bm_used mm q \<longrightarrow> translate s (page_addr q) = None)"

definition free_run :: "bitmap \<Rightarrow> nat \<Rightarrow> nat \<Rightarrow> bool" where
  "free_run mm q n \<longleftrightarrow> (\<forall>i < n. \<not> bm_used mm (q + i))"

lemma page_addr_nat: "q < RAM_AS_4K_PAGES \<Longrightarrow> unat (page_addr q) = q * 4096"
  by (simp add: page_addr_def frame_of_page)

lemma page_addr_user:
  assumes "0x40000 \<le> q" and "q < 0xFFC00"
  shows "user_addr (page_addr q)" "page_addr q \<noteq> 0" "PAGE_INDEX_4K (page_addr q) = of_nat q"
    "page_addr q + PAGESIZE_4K = page_addr (Suc q)"
proof -
  have u: "unat (page_addr q) = q * 4096" using assms by (simp add: page_addr_nat RAM_AS_4K_PAGES_def)
  have q: "unat (of_nat q :: u32) = q" using assms(2) by (intro unat_of_nat_small) simp
  show "user_addr (page_addr q)"
    using assms u by (simp add: user_addr_def KERN_HEAP_END_def MEMORY_END_def word_le_nat_alt word_less_nat_alt)
  show "page_addr q \<noteq> 0" using u assms(1) by (auto simp: word_unat_eq_iff)
  show "PAGE_INDEX_4K (page_addr q) = of_nat q"
    using u q by (simp add: PAGE_INDEX_4K_def word_unat_eq_iff unat_drop_bit_eq drop_bit_nat_def)
  show "page_addr q + PAGESIZE_4K = page_addr (Suc q)"
    by (simp add: page_addr_def PAGESIZE_4K_def algebra_simps)
qed

lemma same_page_addr:
  "q < RAM_AS_4K_PAGES \<Longrightarrow> q' < RAM_AS_4K_PAGES \<Longrightarrow> same_page (page_addr q) (page_addr q') \<longleftrightarrow> q = q'"
  by (simp add: same_page_def page_addr_nat)

lemma map_search_ok:
  assumes "page_index + n \<le> RAM_AS_4K_PAGES" and "unat found \<le> page_index"
    and "unat found < unat page_count"
    and "found \<noteq> 0 \<Longrightarrow> v = page_addr (page_index - unat found)"
    and "free_run mm (page_index - unat found) (unat found)"
  shows "ok (map_search mm page_count page_index n found v) (\<lambda>(f, w).
    (f = page_count \<longrightarrow> (\<exists>q. w = page_addr q \<and> page_index - unat found \<le> q \<and>
       q + unat page_count \<le> page_index + n \<and> free_run mm q (unat page_count))) \<and>
    (f \<noteq> page_count \<longrightarrow> (\<forall>q. page_index - unat found \<le> q \<longrightarrow>
       q + unat page_count \<le> page_index + n \<longrightarrow> \<not> free_run mm q (unat page_count))))"
  using assms
proof (induction n arbitrary: page_index found v)
  case 0
  then show ?case by auto
next
  case (Suc n)
  let ?i = page_index and ?c = "unat page_count"
  have ix: "unat (of_nat ?i :: u32) = ?i" "?i < RAM_AS_4K_PAGES"
    using Suc.prems(1) by (auto simp: unat_of_nat_small RAM_AS_4K_PAGES_def)
  show ?case
  proof (cases "bm_used mm ?i")
    case True
    then have run: "map_search mm page_count ?i (Suc n) found v = map_search mm page_count (Suc ?i) n 0 0"
      using ix Suc.prems(3) by (auto simp: bm_used_iff word_unat_eq_iff)
    have none: "\<not> free_run mm q ?c" if "?i - unat found \<le> q" "q \<le> ?i" for q
    proof
      assume "free_run mm q ?c"
      moreover have "?i - q < ?c" using that Suc.prems(2,3) by simp
      ultimately have "\<not> bm_used mm (q + (?i - q))" unfolding free_run_def by blast
      with True that(2) show False by simp
    qed
    have IH: "ok (map_search mm page_count (Suc ?i) n 0 0) (\<lambda>(f, w).
      (f = page_count \<longrightarrow> (\<exists>q. w = page_addr q \<and> Suc ?i - unat (0 :: u32) \<le> q \<and>
         q + ?c \<le> Suc ?i + n \<and> free_run mm q ?c)) \<and>
      (f \<noteq> page_count \<longrightarrow> (\<forall>q. Suc ?i - unat (0 :: u32) \<le> q \<longrightarrow>
         q + ?c \<le> Suc ?i + n \<longrightarrow> \<not> free_run mm q ?c)))"
      using Suc.prems by (intro Suc.IH) (auto simp: free_run_def)
    show ?thesis unfolding run using IH
    proof (elim ok_mono, clarify, intro conjI impI allI)
      fix f w
      assume "f = page_count" and "f = page_count \<longrightarrow> (\<exists>q. w = page_addr q \<and> Suc ?i - unat (0 :: u32) \<le> q \<and>
         q + ?c \<le> Suc ?i + n \<and> free_run mm q ?c)"
      then show "\<exists>q. w = page_addr q \<and> ?i - unat found \<le> q \<and> q + ?c \<le> ?i + Suc n \<and> free_run mm q ?c"
        by auto
    next
      fix f q
      assume "f \<noteq> page_count" and "f \<noteq> page_count \<longrightarrow> (\<forall>q. Suc ?i - unat (0 :: u32) \<le> q \<longrightarrow>
         q + ?c \<le> Suc ?i + n \<longrightarrow> \<not> free_run mm q ?c)" and "?i - unat found \<le> q" and "q + ?c \<le> ?i + Suc n"
      then show "\<not> free_run mm q ?c" using none by (cases "q \<le> ?i") auto
    qed
  next
    case False
    let ?v = "if found = 0 then of_nat ?i * PAGESIZE_4K else v"
    have f1: "unat (found + 1) = Suc (unat found)"
      using Suc.prems(3) unat_plus1_less [of found page_count] by (simp add: word_less_nat_alt)
    have v: "?v = page_addr (Suc ?i - unat (found + 1))"
      using Suc.prems(4) f1 by (auto simp: page_addr_def)
    have fr: "free_run mm (Suc ?i - unat (found + 1)) (unat (found + 1))"
      using Suc.prems(2,5) False unfolding f1 free_run_def by (auto simp: less_Suc_eq)
    show ?thesis
    proof (cases "found + 1 = page_count")
      case True
      then have "map_search mm page_count ?i (Suc n) found v = Some (page_count, ?v)"
        using ix False by (auto simp: bm_used_iff)
      then show ?thesis using v fr True f1 Suc.prems(2)
        by (auto intro!: exI [of _ "?i - unat found"])
    next
      case go: False
      then have run: "map_search mm page_count ?i (Suc n) found v =
          map_search mm page_count (Suc ?i) n (found + 1) ?v"
        using ix False by (auto simp: bm_used_iff)
      have "unat (found + 1) < ?c"
        using go f1 Suc.prems(3) by (metis Suc_lessI word_unat_eq_iff)
      then have "ok (map_search mm page_count (Suc ?i) n (found + 1) ?v) (\<lambda>(f, w).
        (f = page_count \<longrightarrow> (\<exists>q. w = page_addr q \<and> Suc ?i - unat (found + 1) \<le> q \<and>
           q + ?c \<le> Suc ?i + n \<and> free_run mm q ?c)) \<and>
        (f \<noteq> page_count \<longrightarrow> (\<forall>q. Suc ?i - unat (found + 1) \<le> q \<longrightarrow>
           q + ?c \<le> Suc ?i + n \<longrightarrow> \<not> free_run mm q ?c)))"
        using Suc.prems(1,2) f1 v fr by (intro Suc.IH) auto
      then show ?thesis unfolding run f1 by simp
    qed
  qed
qed

definition free_frames :: "vmm_state \<Rightarrow> nat" where
  "free_frames s = card {f. f < RAM_AS_4K_PAGES \<and> \<not> bm_used (vm_bitmap s) f}"

lemma frames_left_iff: "frames_left s \<longleftrightarrow> 0 < free_frames s"
  by (auto simp: frames_left_def free_frames_def card_gt_0_iff)

lemma free_frames_step:
  assumes "takes_one s s'"
  shows "free_frames s \<le> Suc (free_frames s')"
proof -
  let ?F = "\<lambda>s. {f. f < RAM_AS_4K_PAGES \<and> \<not> bm_used (vm_bitmap s) f}"
  obtain g where "?F s \<subseteq> insert g (?F s')" using assms unfolding takes_one_def by blast
  then have "card (?F s) \<le> card (insert g (?F s'))" by (intro card_mono) auto
  also have "\<dots> \<le> Suc (card (?F s'))" by (simp add: card_insert_le_m1 card_insert_if)
  finally show ?thesis by (simp add: free_frames_def)
qed

text \<open>The loop over the frames: page \<open>q + i\<close> is mapped to frame \<open>i\<close> of the array.\<close>

lemma map_pages_ok:
  assumes "space_ok s" and "coherent s mm" and "0x40000 \<le> q" and "q + length ps \<le> 0xFFC00"
    and "free_run mm q (length ps)" and "length ps \<le> free_frames s" and "\<not> bit flags 7"
  shows "ok (map_pages s mm (page_addr q) ps flags) (\<lambda>(s', mm'). space_ok s' \<and> coherent s' mm' \<and>
    vm_cr3 s' = vm_cr3 s \<and>
    (\<forall>i < length ps. translate s' (page_addr (q + i)) = Some (frame_of (ps ! i), 0)) \<and>
    (\<forall>p. bm_used mm' p \<longleftrightarrow> bm_used mm p \<or> q \<le> p \<and> p < q + length ps) \<and>
    (\<forall>v. v < MEMORY_END \<longrightarrow> (\<forall>i < length ps. \<not> same_page (page_addr (q + i)) v) \<longrightarrow>
       translate s' v = translate s v))"
  using assms
proof (induction ps arbitrary: s mm q)
  case Nil
  then show ?case by auto
next
  case (Cons p ps)
  let ?v = "page_addr q"
  have q: "0x40000 \<le> q" "q < 0xFFC00" "q < RAM_AS_4K_PAGES"
    using Cons.prems(3,4) by (auto simp: RAM_AS_4K_PAGES_def)
  note pa = page_addr_user [OF q(1,2)]
  have free: "\<not> bm_used mm q" using Cons.prems(5) by (auto simp: free_run_def dest: spec [of _ 0])
  then have un: "translate s ?v = None" using Cons.prems(2) q by (auto simp: coherent_def)
  have room: "frames_left s" using Cons.prems(6) by (simp add: frames_left_iff)
  let ?e = "entry (p AND 0xFFFFF000) flags"
  obtain s1 where s1: "vmm_add_page_to_pd s ?v (p AND 0xFFFFF000) flags = Some (s1, True)"
      "space_ok s1" "pte s1 (pd_ix ?v) (pt_ix ?v) = ?e" "vm_cr3 s1 = vm_cr3 s"
      "\<And>v'. v' < MEMORY_END \<Longrightarrow> \<not> same_page ?v v' \<Longrightarrow> translate s1 v' = translate s v'"
      "takes_one s s1"
    using add_page_ok [OF Cons.prems(1) pa(1) un _ Cons.prems(7), of "p AND 0xFFFFF000"] room
    by (auto simp: ok_iff)
  have m: "(0xFFFFF000 :: u32) = - 4096" by simp
  have fp: "frame_of ?e = frame_of p" by (simp only: entry_simps m frame_of_aligned')
  have off: "unat ?v mod 4096 div 4 = 0" using q by (simp add: page_addr_nat)
  have here: "translate s1 ?v = Some (frame_of p, 0)"
    using translate_user [OF s1(2) pa(1)] s1(3) fp off by simp
  have "unat (of_nat q :: u32) = q" using q(2) by (intro unat_of_nat_small) simp
  then obtain mm1 where mm1: "set_pageframe_used mm (PAGE_INDEX_4K ?v) = Some mm1"
      "\<And>p. bm_used mm1 p \<longleftrightarrow> p = q \<or> bm_used mm p"
    using set_used_ok [of "PAGE_INDEX_4K ?v" mm] pa(3) q(3) by (auto simp: ok_iff)
  have run: "map_pages s mm ?v (p # ps) flags = map_pages s1 mm1 (page_addr (Suc q)) ps flags"
    using s1(1) mm1(1) pa(4) by simp
  have apart: "\<not> same_page ?v (page_addr q')" if "q' \<noteq> q" "q' < 0xFFC00" for q'
    using that q same_page_addr [of q q'] by (simp add: RAM_AS_4K_PAGES_def)
  have below: "page_addr q' < MEMORY_END" if "0x40000 \<le> q'" "q' < 0xFFC00" for q'
    using page_addr_user(1) [OF that] by (simp add: user_addr_def)
  have coh: "coherent s1 mm1"
    unfolding coherent_def
  proof (intro allI impI)
    fix q'
    assume a: "0x40000 \<le> q'" "q' < 0xFFC00" "\<not> bm_used mm1 q'"
    then have "q' \<noteq> q" "\<not> bm_used mm q'" using mm1(2) by auto
    then show "translate s1 (page_addr q') = None"
      using s1(5) [OF below apart] a Cons.prems(2) by (simp add: coherent_def)
  qed
  have "free_run mm1 (Suc q) (length ps)"
    using Cons.prems(5) mm1(2) by (auto simp: free_run_def dest: spec [of _ "Suc _"])
  moreover have "length ps \<le> free_frames s1"
    using free_frames_step [OF s1(6)] Cons.prems(6) by simp
  ultimately have "ok (map_pages s1 mm1 (page_addr (Suc q)) ps flags) (\<lambda>(s', mm'). space_ok s' \<and>
    coherent s' mm' \<and> vm_cr3 s' = vm_cr3 s1 \<and>
    (\<forall>i < length ps. translate s' (page_addr (Suc q + i)) = Some (frame_of (ps ! i), 0)) \<and>
    (\<forall>p. bm_used mm' p \<longleftrightarrow> bm_used mm1 p \<or> Suc q \<le> p \<and> p < Suc q + length ps) \<and>
    (\<forall>v. v < MEMORY_END \<longrightarrow> (\<forall>i < length ps. \<not> same_page (page_addr (Suc q + i)) v) \<longrightarrow>
       translate s' v = translate s1 v))"
    using s1(2) coh Cons.prems q by (intro Cons.IH) auto
  then obtain s' mm' where r: "map_pages s1 mm1 (page_addr (Suc q)) ps flags = Some (s', mm')"
      "space_ok s'" "coherent s' mm'" "vm_cr3 s' = vm_cr3 s1"
      "\<And>i. i < length ps \<Longrightarrow> translate s' (page_addr (Suc q + i)) = Some (frame_of (ps ! i), 0)"
      "\<And>p. bm_used mm' p \<longleftrightarrow> bm_used mm1 p \<or> Suc q \<le> p \<and> p < Suc q + length ps"
      "\<And>v. v < MEMORY_END \<Longrightarrow> (\<And>i. i < length ps \<Longrightarrow> \<not> same_page (page_addr (Suc q + i)) v) \<Longrightarrow>
         translate s' v = translate s1 v"
    by (auto simp: ok_iff)
  have first: "translate s' ?v = Some (frame_of p, 0)"
  proof -
    have "\<not> same_page (page_addr (Suc q + i)) ?v" if "i < length ps" for i
      using apart [of "Suc q + i"] that Cons.prems(4) by (simp add: same_page_def)
    then show ?thesis using r(7) [OF below [OF q(1,2)]] here by simp
  qed
  have each: "translate s' (page_addr (q + i)) = Some (frame_of ((p # ps) ! i), 0)"
    if "i < length (p # ps)" for i
    using that first r(5) [of "i - 1"] by (cases i) auto
  have rest: "translate s' v = translate s v"
    if "v < MEMORY_END" "\<And>i. i < length (p # ps) \<Longrightarrow> \<not> same_page (page_addr (q + i)) v" for v
    using r(7) [OF that(1)] s1(5) [OF that(1)] that(2) [of 0] that(2) [of "Suc _"] by simp
  show ?case unfolding run using r(1-4,6) each rest mm1(2) s1(4) by auto
qed

section \<open>Counting frames\<close>

lemma used_page_loop_ok:
  "i + n \<le> RAM_AS_4K_PAGES \<Longrightarrow>
   used_page_loop bm i n c = Some (c + card {p. i \<le> p \<and> p < i + n \<and> bm_used bm p})"
proof (induction n arbitrary: i c)
  case 0
  have "{p. i \<le> p \<and> p < i \<and> bm_used bm p} = {}" by auto
  then show ?case by simp
next
  case (Suc n)
  have ix: "unat (of_nat i :: u32) = i" "i < RAM_AS_4K_PAGES"
    using Suc.prems by (auto simp: unat_of_nat_small RAM_AS_4K_PAGES_def)
  let ?R = "{p. Suc i \<le> p \<and> p < Suc i + n \<and> bm_used bm p}"
  have "{p. i \<le> p \<and> p < i + Suc n \<and> bm_used bm p} = (if bm_used bm i then insert i ?R else ?R)"
    by (auto simp: Suc_le_eq order.strict_iff_order)
  moreover have "finite ?R" by (rule finite_subset [of _ "{..< Suc i + n}"]) auto
  ultimately show ?case using Suc.IH [of "Suc i"] Suc.prems ix by (simp add: bm_used_iff)
qed

lemma free_count_ok:
  assumes "vm_total s \<le> RAM_AS_4K_PAGES"
  shows "vmm_get_free_page_count s = Some (card {p. p < vm_total s \<and> \<not> bm_used (vm_bitmap s) p})"
proof -
  let ?U = "{p. p < vm_total s \<and> bm_used (vm_bitmap s) p}"
  have "{p. p < vm_total s \<and> \<not> bm_used (vm_bitmap s) p} = {..< vm_total s} - ?U" by auto
  moreover have "card ({..< vm_total s} - ?U) = vm_total s - card ?U"
    by (subst card_Diff_subset) (auto intro: finite_subset [of _ "{..< vm_total s}"])
  ultimately show ?thesis
    using used_page_loop_ok [of 0 "vm_total s"] assms
    by (simp add: vmm_get_free_page_count_def vmm_get_used_page_count_def)
qed

section \<open>Initialisation\<close>

lemma fold_const: "fold (\<lambda>p (m :: nat \<Rightarrow> u8). m(p := c)) [a..<b] m0 = (\<lambda>p. if a \<le> p \<and> p < b then c else m0 p)"
  by (induction b) (auto simp: fun_eq_iff less_Suc_eq)

lemma fold_set_used:
  assumes "n \<le> RAM_AS_4K_PAGES"
  shows "ok (fold (\<lambda>pg m. Option.bind m (\<lambda>m. set_pageframe_used m (of_nat pg))) [0..<n] (Some bm))
    (\<lambda>bm'. \<forall>p. bm_used bm' p \<longleftrightarrow> p < n \<or> bm_used bm p)"
  using assms
proof (induction n)
  case (Suc n)
  then obtain b where b: "fold (\<lambda>pg m. Option.bind m (\<lambda>m. set_pageframe_used m (of_nat pg))) [0..<n] (Some bm) = Some b"
      "\<forall>p. bm_used b p \<longleftrightarrow> p < n \<or> bm_used bm p"
    by (auto simp: ok_iff)
  have "unat (of_nat n :: u32) = n" using Suc.prems by (simp add: unat_of_nat_small RAM_AS_4K_PAGES_def)
  then show ?case using set_used_ok [of "of_nat n" b] b Suc.prems by (auto simp: ok_iff)
qed simp

lemma bm_used_full_byte: "bm (p div 8) = 0xFF \<Longrightarrow> bm_used bm p"
  using full_byte [of "bm (p div 8)"] by (simp add: bm_used_def)

text \<open>The first four entries are the 4 MB pages of the identity map.\<close>

lemma kernel_pd_low:
  assumes "i < 4"
  shows "present (kernel_pd_init i)" "kernel_pd_init i AND PG_4MB \<noteq> 0"
    "unat (kernel_pd_init i) div 0x400000 = i"
proof -
  have "i = 0 \<or> i = 1 \<or> i = 2 \<or> i = 3" using assms by auto
  then show "present (kernel_pd_init i)" "kernel_pd_init i AND PG_4MB \<noteq> 0"
    "unat (kernel_pd_init i) div 0x400000 = i"
    by (auto simp: kernel_pd_init_def present_def PG_PRESENT_def PG_WRITE_def PG_4MB_def)
qed

lemma kernel_pd_self: "is_table (kernel_pd_init 1023)" "frame_of (kernel_pd_init 1023) = 1"
  by (simp_all add: kernel_pd_init_def is_table_def present_def frame_of_def KERN_PAGE_DIRECTORY_def
      PG_PRESENT_def PG_WRITE_def PG_4MB_def)

lemma kernel_pd_rest: "4 \<le> i \<Longrightarrow> i \<noteq> 1023 \<Longrightarrow> kernel_pd_init i = 0"
  by (simp add: kernel_pd_init_def)

lemma init_bitmap_ok:
  assumes "tot \<le> RAM_AS_4K_PAGES"
  shows "ok (frame_bitmap_init tot bm) (\<lambda>bm'. \<forall>p < RAM_AS_4K_PAGES.
    bm_used bm' p \<longleftrightarrow> p < 4096 \<or> tot div 8 \<le> p div 8)"
proof -
  let ?b = "fold (\<lambda>pg m. m(pg := 0xFF)) [tot div 8..<BITMAP_BYTES] (fold (\<lambda>pg m. m(pg := 0)) [0..<tot div 8] bm)"
  have b: "?b x = (if tot div 8 \<le> x then 0xFF else 0)" if "x < BITMAP_BYTES" for x
    using that by (simp add: fold_const)
  have used: "bm_used ?b p \<longleftrightarrow> tot div 8 \<le> p div 8" if "p < RAM_AS_4K_PAGES" for p
  proof -
    have "p div 8 < BITMAP_BYTES" using that by (simp add: BITMAP_BYTES_def RAM_AS_4K_PAGES_def less_mult_imp_div_less)
    from b [OF this] show ?thesis
      using bm_used_full_byte [of ?b p] by (auto simp: bm_used_def split: if_splits)
  qed
  have n: "unat (PAGE_INDEX_4K RESERVED_AREA) = 4096"
    by (simp add: PAGE_INDEX_4K_def RESERVED_AREA_def)
  show ?thesis
    unfolding frame_bitmap_init_def n
    using fold_set_used [of 4096 ?b] used by (auto simp: RAM_AS_4K_PAGES_def elim!: ok_mono)
qed

lemma init_ok:
  shows "ok (vmm_initialize_paging s high_mem) (\<lambda>s'. space_ok s' \<and> vm_cr3 s' = KERN_PAGE_DIRECTORY \<and>
    vm_total s' = unat ((high_mem * 1024) div PAGESIZE_4K) \<and>
    (\<forall>p < RAM_AS_4K_PAGES. bm_used (vm_bitmap s') p \<longleftrightarrow> p < 4096 \<or> vm_total s' div 8 \<le> p div 8) \<and>
    (\<forall>v. unat v < 0x1000000 \<longrightarrow> translate s' v = Some (unat v div 4096, unat v mod 4096 div 4)) \<and>
    (\<forall>v. 0x1000000 \<le> unat v \<longrightarrow> v < MEMORY_END \<longrightarrow> translate s' v = None))"
proof -
  let ?tot = "unat ((high_mem * 1024) div PAGESIZE_4K)"
  have "?tot \<le> RAM_AS_4K_PAGES"
    using u32_less [of "high_mem * 1024"]
    by (simp add: PAGESIZE_4K_def unat_div_distrib RAM_AS_4K_PAGES_def less_mult_imp_div_less less_imp_le)
  then obtain bm' where bm': "frame_bitmap_init ?tot (vm_bitmap s) = Some bm'"
      "\<forall>p < RAM_AS_4K_PAGES. bm_used bm' p \<longleftrightarrow> p < 4096 \<or> ?tot div 8 \<le> p div 8"
    using init_bitmap_ok [of ?tot "vm_bitmap s"] by (auto simp: ok_iff)
  then obtain s' where s': "vmm_initialize_paging s high_mem = Some s'"
      "vm_total s' = ?tot" "vm_bitmap s' = bm'" "vm_cr3 s' = KERN_PAGE_DIRECTORY"
      "\<And>i. i < 1024 \<Longrightarrow> vm_pm s' 1 i = kernel_pd_init i"
    by (simp add: vmm_initialize_paging_def frame_of_def KERN_PAGE_DIRECTORY_def
        KERN_PD_AREA_BEGIN_def KERN_PD_AREA_END_def)
  have pdf: "pd_frame s' = 1" by (simp add: pd_frame_def s' frame_of_def KERN_PAGE_DIRECTORY_def)
  have pd: "pde s' i = kernel_pd_init i" if "i < 1024" for i using s'(5) that by (simp add: pde_def pdf)
  have tab: "\<not> is_table (pde s' i)" if "i < 1023" for i
    using that kernel_pd_low [of i] kernel_pd_rest [of i] by (cases "i < 4") (auto simp: pd is_table_def)
  have sp: "space_ok s'"
    using tab kernel_pd_self bm'(2) kernel_pd_rest
    by (auto simp: space_ok_def self_mapped_def pd pdf s'(3) RAM_AS_4K_PAGES_def)
  have low: "translate s' v = Some (unat v div 4096, unat v mod 4096 div 4)" if "unat v < 0x1000000" for v
  proof -
    have "pd_ix v < 4" using that by (simp add: pd_ix_def less_mult_imp_div_less)
    moreover have "unat v div 4096 = pd_ix v * 1024 + pt_ix v"
    proof -
      have "pd_ix v = unat v div 4096 div 1024" by (simp add: pd_ix_def div_mult2_eq [symmetric])
      then show ?thesis by (simp add: pt_ix_def)
    qed
    ultimately show ?thesis using kernel_pd_low [of "pd_ix v"] by (simp add: translate_view pd)
  qed
  have high: "translate s' v = None" if "0x1000000 \<le> unat v" "v < MEMORY_END" for v
  proof -
    have "4 * 0x400000 div 0x400000 \<le> pd_ix v" unfolding pd_ix_def using that(1) by (intro div_le_mono) simp
    then show ?thesis
      using below_end [OF that(2)] kernel_pd_rest [of "pd_ix v"]
      by (simp add: translate_view pd pte_def is_table_def)
  qed
  show ?thesis using s'(1-4) sp bm'(2) low high by simp
qed

section \<open>The interface of the frame allocator\<close>

text \<open>
  What the kernel heap, the program break and the page tables rely on: a frame that is
  handed out was free and is the only one that changes; a frame given back is free again.
\<close>

locale frame_source =
  fixes used :: "'s \<Rightarrow> nat \<Rightarrow> bool"
    and acquire :: "'s \<Rightarrow> ('s \<times> u32) option"
    and release :: "'s \<Rightarrow> u32 \<Rightarrow> 's"
  assumes acquire_fresh: "\<exists>f < RAM_AS_4K_PAGES. \<not> used s f \<Longrightarrow>
      ok (acquire s) (\<lambda>(s', p). frame_of p < RAM_AS_4K_PAGES \<and> unat p = frame_of p * 4096 \<and>
        \<not> used s (frame_of p) \<and> (\<forall>f. used s' f \<longleftrightarrow> f = frame_of p \<or> used s f))"
    and release_free: "used (release s p) f \<longleftrightarrow> f \<noteq> frame_of p \<and> used s f"

fun acquire_many :: "('s \<Rightarrow> ('s \<times> u32) option) \<Rightarrow> 's \<Rightarrow> nat \<Rightarrow> ('s \<times> u32 list) option" where
  "acquire_many acquire s 0 = Some (s, [])"
| "acquire_many acquire s (Suc n) = do {
     (s', p) \<leftarrow> acquire s;
     (s'', ps) \<leftarrow> acquire_many acquire s' n;
     Some (s'', p # ps)
   }"

context frame_source begin

definition avail :: "'s \<Rightarrow> nat" where
  "avail s = card {f. f < RAM_AS_4K_PAGES \<and> \<not> used s f}"

lemma avail_acquire:
  assumes "f < RAM_AS_4K_PAGES" and "\<not> used s f" and "\<forall>g. used s' g \<longleftrightarrow> g = f \<or> used s g"
  shows "avail s = Suc (avail s')"
proof -
  have "{g. g < RAM_AS_4K_PAGES \<and> \<not> used s g} = insert f {g. g < RAM_AS_4K_PAGES \<and> \<not> used s' g}"
    using assms by auto
  moreover have "f \<notin> {g. g < RAM_AS_4K_PAGES \<and> \<not> used s' g}" using assms(3) by simp
  ultimately show ?thesis by (simp add: avail_def)
qed

lemma acquire_many_ok:
  assumes "n \<le> avail s"
  shows "ok (acquire_many acquire s n) (\<lambda>(s', ps). length ps = n \<and> distinct (map frame_of ps) \<and>
    (\<forall>p \<in> set ps. unat p = frame_of p * 4096 \<and> \<not> used s (frame_of p)) \<and>
    (\<forall>f. used s' f \<longleftrightarrow> f \<in> frame_of ` set ps \<or> used s f) \<and> avail s = n + avail s')"
  using assms
proof (induction n arbitrary: s)
  case 0
  then show ?case by simp
next
  case (Suc n)
  then have "\<exists>f < RAM_AS_4K_PAGES. \<not> used s f"
    unfolding avail_def by (metis (mono_tags, lifting) Suc_le_D card.empty empty_Collect_eq nat.distinct(1))
  then obtain s1 p where s1: "acquire s = Some (s1, p)" "frame_of p < RAM_AS_4K_PAGES"
      "unat p = frame_of p * 4096" "\<not> used s (frame_of p)" "\<forall>f. used s1 f \<longleftrightarrow> f = frame_of p \<or> used s f"
    using acquire_fresh [of s] by (auto simp: ok_iff)
  have av: "avail s = Suc (avail s1)" using avail_acquire [OF s1(2,4,5)] .
  then obtain s2 ps where s2: "acquire_many acquire s1 n = Some (s2, ps)" "length ps = n"
      "distinct (map frame_of ps)" "\<forall>p \<in> set ps. unat p = frame_of p * 4096 \<and> \<not> used s1 (frame_of p)"
      "\<forall>f. used s2 f \<longleftrightarrow> f \<in> frame_of ` set ps \<or> used s1 f" "avail s1 = n + avail s2"
    using Suc.IH [of s1] Suc.prems by (auto simp: ok_iff)
  have "frame_of p \<notin> frame_of ` set ps" using s2(4) s1(5) by force
  then show ?case using s1 s2 av by (auto simp: image_iff)
qed

lemma release_acquired:
  assumes "acquire s = Some (s', p)" and "\<exists>f < RAM_AS_4K_PAGES. \<not> used s f"
  shows "used (release s' p) f = used s f"
  using acquire_fresh [OF assms(2)] assms(1) by (auto simp: release_free)

end

interpretation pf: frame_source "\<lambda>s. bm_used (vm_bitmap s)" vmm_acquire_page_frame_4k
  vmm_release_page_frame_4k
proof
  fix s :: vmm_state
  assume "\<exists>f < RAM_AS_4K_PAGES. \<not> bm_used (vm_bitmap s) f"
  then have "frames_left s" by (simp add: frames_left_def)
  from acquire_ok [OF this]
  show "ok (vmm_acquire_page_frame_4k s) (\<lambda>(s', p). frame_of p < RAM_AS_4K_PAGES \<and>
      unat p = frame_of p * 4096 \<and> \<not> bm_used (vm_bitmap s) (frame_of p) \<and>
      (\<forall>f. bm_used (vm_bitmap s') f \<longleftrightarrow> f = frame_of p \<or> bm_used (vm_bitmap s) f))"
    by (auto elim!: ok_mono)
qed simp

lemma avail_free_frames: "pf.avail s = free_frames s"
  by (simp add: pf.avail_def free_frames_def)

section \<open>Properties\<close>

text \<open>A machine with empty memory, for the examples: 64 MB give 16384 frames.\<close>

definition vmm_zero :: vmm_state where
  "vmm_zero = \<lparr>vm_pm = (\<lambda>_ _. 0), vm_cr3 = 0, vm_bitmap = (\<lambda>_. 0), vm_total = 0\<rparr>"

lemma vmm_zero_init:
  obtains s where "vmm_initialize_paging vmm_zero 65536 = Some s" "space_ok s"
    "\<And>v. 0x1000000 \<le> unat v \<Longrightarrow> v < MEMORY_END \<Longrightarrow> translate s v = None" "12288 \<le> free_frames s"
proof -
  obtain s where s: "vmm_initialize_paging vmm_zero 65536 = Some s" "space_ok s"
      "vm_total s = unat ((65536 * 1024) div PAGESIZE_4K)"
      "\<forall>p < RAM_AS_4K_PAGES. bm_used (vm_bitmap s) p \<longleftrightarrow> p < 4096 \<or> vm_total s div 8 \<le> p div 8"
      "\<forall>v. 0x1000000 \<le> unat v \<longrightarrow> v < MEMORY_END \<longrightarrow> translate s v = None"
    using init_ok [of vmm_zero 65536] by (auto simp: ok_iff)
  have tot: "vm_total s = 16384" using s(3) by (simp add: PAGESIZE_4K_def)
  have "{4096..<16384} \<subseteq> {f. f < RAM_AS_4K_PAGES \<and> \<not> bm_used (vm_bitmap s) f}"
    using s(4) tot by (auto simp: RAM_AS_4K_PAGES_def)
  then have "card {4096..<16384 :: nat} \<le> free_frames s"
    unfolding free_frames_def by (intro card_mono) auto
  then show thesis using that [of s] s by simp
qed

text \<open>
  Page frames are handed out without overlap: \<open>n\<close> successive acquisitions return \<open>n\<close>
  different page-aligned frames that were all free, mark exactly those used, and do not fail
  while that many frames are free. Releasing a frame undoes its acquisition.
\<close>

theorem vmm_frames_distinct:
  assumes "n \<le> free_frames s"
  shows "\<exists>s' ps. acquire_many vmm_acquire_page_frame_4k s n = Some (s', ps) \<and> length ps = n \<and>
    distinct (map frame_of ps) \<and> (\<forall>p \<in> set ps. unat p = frame_of p * 4096 \<and>
      \<not> bm_used (vm_bitmap s) (frame_of p)) \<and>
    (\<forall>f. bm_used (vm_bitmap s') f \<longleftrightarrow> f \<in> frame_of ` set ps \<or> bm_used (vm_bitmap s) f) \<and>
    (\<forall>p f. bm_used (vm_bitmap (vmm_release_page_frame_4k s' p)) f \<longleftrightarrow>
      f \<noteq> frame_of p \<and> bm_used (vm_bitmap s') f)"
  using pf.acquire_many_ok [of n s] assms by (auto simp: avail_free_frames ok_iff)

theorem vmm_frames_distinct_witness:
  "\<exists>s s' ps. vmm_initialize_paging vmm_zero 65536 = Some s \<and>
     acquire_many vmm_acquire_page_frame_4k s 3 = Some (s', ps) \<and> distinct (map frame_of ps) \<and> length ps = 3"
proof -
  obtain s where s: "vmm_initialize_paging vmm_zero 65536 = Some s" "12288 \<le> free_frames s"
    by (rule vmm_zero_init)
  from vmm_frames_distinct [of 3 s] s show ?thesis by auto
qed

text \<open>
  C1: \<^verbatim>\<open>vmm_add_page_to_pd\<close> on an unmapped user page returns true and maps exactly that page:
  the processor's walk of the tables in memory now leads to the given frame, every other
  page below the table area translates as before, and the directory still maps itself with
  tables that do not overlap, whether or not a new table had to be installed.
\<close>

theorem vmm_add_page_maps:
  assumes "space_ok s" and "user_addr v" and "translate s v = None"
    and "present (pde s (pd_ix v)) \<or> frames_left s" and "\<not> bit flags 7"
  shows "\<exists>s'. vmm_add_page_to_pd s v p flags = Some (s', True) \<and> space_ok s' \<and>
    translate s' v = Some (frame_of p, unat v mod 4096 div 4) \<and>
    (\<forall>v'. v' < MEMORY_END \<and> \<not> same_page v v' \<longrightarrow> translate s' v' = translate s v')"
proof -
  obtain s' where s': "vmm_add_page_to_pd s v p flags = Some (s', True)" "space_ok s'"
      "pte s' (pd_ix v) (pt_ix v) = entry p flags"
      "\<And>v'. v' < MEMORY_END \<Longrightarrow> \<not> same_page v v' \<Longrightarrow> translate s' v' = translate s v'"
    using add_page_ok [OF assms, of p] by (auto simp: ok_iff)
  have "translate s' v = Some (frame_of p, unat v mod 4096 div 4)"
    using translate_user [OF s'(2) assms(2)] s'(3) by simp
  then show ?thesis using s' by auto
qed

theorem vmm_add_page_maps_witness:
  "\<exists>s s'. vmm_initialize_paging vmm_zero 65536 = Some s \<and>
     vmm_add_page_to_pd s 0x40000000 0x1234000 PG_USER = Some (s', True) \<and>
     translate s' 0x40000000 = Some (0x1234, 0)"
proof -
  obtain s where s: "vmm_initialize_paging vmm_zero 65536 = Some s" "space_ok s"
    "\<And>v. 0x1000000 \<le> unat v \<Longrightarrow> v < MEMORY_END \<Longrightarrow> translate s v = None" "12288 \<le> free_frames s"
    by (rule vmm_zero_init) blast
  have "user_addr 0x40000000" by (simp add: user_addr_def KERN_HEAP_END_def MEMORY_END_def)
  moreover have "translate s 0x40000000 = None" using s(3) by (simp add: MEMORY_END_def)
  moreover have "frames_left s" using s(4) by (simp add: frames_left_iff)
  moreover have "\<not> bit PG_USER 7" by (simp add: PG_USER_def)
  ultimately show ?thesis using vmm_add_page_maps [of s "0x40000000" PG_USER "0x1234000"] s(1,2)
    by (auto simp: frame_of_def)
qed

text \<open>
  C2: \<^verbatim>\<open>vmm_remove_page_from_pd\<close> on a user page leaves it unmapped and every other page below
  the table area as it was, also when the emptied table is given back; a frame the page
  owned is free afterwards, no frame becomes used, and the result says whether there was a table.
\<close>

theorem vmm_remove_page_unmaps:
  assumes "space_ok s" and "owned_ok s" and "user_addr v"
  shows "\<exists>s'. vmm_remove_page_from_pd s v = Some (s', present (pde s (pd_ix v))) \<and> space_ok s' \<and>
    translate s' v = None \<and>
    (\<forall>v'. v' < MEMORY_END \<and> \<not> same_page v v' \<longrightarrow> translate s' v' = translate s v') \<and>
    (owned (pte s (pd_ix v) (pt_ix v)) \<longrightarrow>
       \<not> bm_used (vm_bitmap s') (frame_of (pte s (pd_ix v) (pt_ix v)))) \<and>
    (\<forall>f. bm_used (vm_bitmap s') f \<longrightarrow> bm_used (vm_bitmap s) f)"
  using remove_page_ok [OF assms] by (auto simp: ok_iff)

text \<open>A space with one page at \<^verbatim>\<open>0x40000000\<close> that owns frame 5000; its table is frame 4096.\<close>

definition one_page :: vmm_state where
  "one_page = \<lparr>vm_pm = (\<lambda>f i. if f = 1 \<and> i = 1023 then 0x1003 else if f = 1 \<and> i = 256 then 0x1000207
       else if f = 4096 \<and> i = 0 then 0x1388207 else 0),
     vm_cr3 = 0x1000, vm_bitmap = (\<lambda>i. 0xFF), vm_total = 16384\<rparr>"

lemma one_page_ok: "space_ok one_page" "owned_ok one_page" "user_addr 0x40000000"
  "pte one_page 256 0 = 0x1388207"
proof -
  have used: "bm_used (vm_bitmap one_page) f" for f
    by (rule bm_used_full_byte) (simp add: one_page_def)
  have pdf: "pd_frame one_page = 1" by (simp add: pd_frame_def one_page_def frame_of_def)
  have pd: "pde one_page i = (if i = 1023 then 0x1003 else if i = 256 then 0x1000207 else 0)" for i
    by (simp add: pde_def pdf) (simp add: one_page_def)
  have e: "is_table 0x1003" "is_table 0x1000207" "\<not> is_table 0" "frame_of 0x1003 = 1"
      "frame_of 0x1000207 = 4096" "frame_of 0x1388207 = 5000"
    by (simp_all add: is_table_def present_def PG_PRESENT_def PG_4MB_def frame_of_def)
  show "space_ok one_page"
    using e used by (auto simp: space_ok_def self_mapped_def pd pdf PG_4MB_def split: if_splits)
  have pt: "pte one_page k j = (if k = 256 \<and> j = 0 then 0x1388207 else 0)" if "k < 1023" for k j
    using that e by (auto simp: pte_def pd) (auto simp: one_page_def)
  show "owned_ok one_page"
    using e used by (auto simp: owned_ok_def pt pd pdf split: if_splits)
  show "user_addr 0x40000000" by (simp add: user_addr_def KERN_HEAP_END_def MEMORY_END_def)
  show "pte one_page 256 0 = 0x1388207" using pt [of 256 0] by simp
qed

theorem vmm_remove_page_unmaps_witness:
  "\<exists>s' r. vmm_remove_page_from_pd one_page 0x40000000 = Some (s', r) \<and>
     translate s' 0x40000000 = None \<and> \<not> bm_used (vm_bitmap s') 5000"
proof -
  have "pd_ix 0x40000000 = 256" "pt_ix 0x40000000 = 0" by (simp_all add: pd_ix_def pt_ix_def)
  moreover have "owned 0x1388207" "frame_of 0x1388207 = 5000"
    by (simp_all add: owned_def PG_OWNED_def frame_of_def)
  ultimately show ?thesis
    using vmm_remove_page_unmaps [OF one_page_ok(1,2,3)] one_page_ok(4) by auto
qed

lemma vmm_map_memory_ok:
  assumes "space_ok s" and "coherent s mm" and "USER_OFFSET \<le> start" and "start < MEMORY_END"
    and "0 < n" and "unat n \<le> length ps" and "unat n \<le> free_frames s"
  shows "\<exists>s' mm' v. vmm_map_memory s mm start (Some ps) n own = Some (s', mm', v) \<and>
    (v = 0 \<longrightarrow> s' = s \<and> mm' = mm \<and>
      (\<forall>q. unat start div 4096 \<le> q \<and> q + unat n \<le> 0xFFC00 \<longrightarrow> \<not> free_run mm q (unat n))) \<and>
    (v \<noteq> 0 \<longrightarrow> (\<exists>q. v = page_addr q \<and> unat start div 4096 \<le> q \<and> q + unat n \<le> 0xFFC00 \<and>
      free_run mm q (unat n) \<and> space_ok s' \<and> coherent s' mm' \<and>
      (\<forall>i < unat n. translate s' (page_addr (q + i)) = Some (frame_of (ps ! i), 0)) \<and>
      (\<forall>p. bm_used mm' p \<longleftrightarrow> bm_used mm p \<or> q \<le> p \<and> p < q + unat n) \<and>
      (\<forall>w. w < MEMORY_END \<and> (\<forall>i < unat n. \<not> same_page (page_addr (q + i)) w) \<longrightarrow>
        translate s' w = translate s w)))"
proof -
  let ?b = "unat start div 4096" and ?n = "unat n" and ?ps = "take (unat n) ps"
  let ?fl = "PG_USER OR (if own then PG_OWNED else 0)"
  have st: "unat (PAGE_INDEX_4K start) = ?b" "unat (PAGE_INDEX_4K MEMORY_END) = 0xFFC00"
    by (simp_all add: PAGE_INDEX_4K_def MEMORY_END_def unat_drop_bit_eq drop_bit_nat_def)
  have "0x40000000 div 4096 \<le> ?b"
    using assms(3) by (intro div_le_mono) (simp add: USER_OFFSET_def word_le_nat_alt)
  then have lo: "0x40000 \<le> ?b" by simp
  have "unat start < 0xFFC00 * 4096" using assms(4) by (simp add: MEMORY_END_def word_less_nat_alt)
  then have hi: "?b < 0xFFC00" by (rule less_mult_imp_div_less)
  have n: "0 < ?n" "n \<noteq> 0" using assms(5) by (auto simp: word_less_nat_alt)
  have fl: "\<not> bit ?fl 7" by (simp add: PG_USER_def PG_OWNED_def bit_or_iff)
  obtain f w where search: "map_search mm n ?b (0xFFC00 - ?b) 0 0 = Some (f, w)"
    and hit: "f = n \<Longrightarrow> \<exists>q. w = page_addr q \<and> ?b \<le> q \<and> q + ?n \<le> 0xFFC00 \<and> free_run mm q ?n"
    and miss: "f \<noteq> n \<Longrightarrow> \<forall>q. ?b \<le> q \<longrightarrow> q + ?n \<le> 0xFFC00 \<longrightarrow> \<not> free_run mm q ?n"
    using map_search_ok [of ?b "0xFFC00 - ?b" 0 n 0 mm] hi n
    by (auto simp: ok_iff RAM_AS_4K_PAGES_def free_run_def)
  show ?thesis
  proof (cases "f = n")
    case False
    then show ?thesis using search miss n st by (simp add: vmm_map_memory_def)
  next
    case True
    then obtain q where q: "w = page_addr q" "?b \<le> q" "q + ?n \<le> 0xFFC00" "free_run mm q ?n"
      using hit by blast
    have len: "length ?ps = ?n" using assms(6) by simp
    have "ok (map_pages s mm (page_addr q) ?ps ?fl) (\<lambda>(s', mm'). space_ok s' \<and> coherent s' mm' \<and>
      vm_cr3 s' = vm_cr3 s \<and>
      (\<forall>i < length ?ps. translate s' (page_addr (q + i)) = Some (frame_of (?ps ! i), 0)) \<and>
      (\<forall>p. bm_used mm' p \<longleftrightarrow> bm_used mm p \<or> q \<le> p \<and> p < q + length ?ps) \<and>
      (\<forall>v. v < MEMORY_END \<longrightarrow> (\<forall>i < length ?ps. \<not> same_page (page_addr (q + i)) v) \<longrightarrow>
         translate s' v = translate s v))"
      using assms(1,2,7) lo q len fl by (intro map_pages_ok) auto
    then obtain s' mm' where r: "map_pages s mm (page_addr q) ?ps ?fl = Some (s', mm')"
        "space_ok s'" "coherent s' mm'"
        "\<forall>i < ?n. translate s' (page_addr (q + i)) = Some (frame_of (ps ! i), 0)"
        "\<forall>p. bm_used mm' p \<longleftrightarrow> bm_used mm p \<or> q \<le> p \<and> p < q + ?n"
        "\<forall>v. v < MEMORY_END \<longrightarrow> (\<forall>i < ?n. \<not> same_page (page_addr (q + i)) v) \<longrightarrow>
          translate s' v = translate s v"
      using len by (auto simp: ok_iff)
    have "page_addr q \<noteq> 0" using page_addr_user(2) [of q] lo q n(1) by simp
    moreover have "vmm_map_memory s mm start (Some ps) n own = Some (s', mm', page_addr q)"
      using search True n st q(1) r(1) assms(6) by (simp add: vmm_map_memory_def)
    ultimately show ?thesis using q r(2-6) by auto
  qed
qed

text \<open>
  C3: \<^verbatim>\<open>vmm_map_memory\<close> finds adjacent free pages of the process whenever there are enough of
  them from the start address on, and otherwise returns null and changes nothing. On success
  the \<open>i\<close>-th page of the range it returns is mapped to the \<open>i\<close>-th frame of the array, the pages
  were free and are now marked in the bitmap, and every other page is mapped as before.
\<close>

theorem vmm_map_memory_correct:
  assumes "space_ok s" and "coherent s mm" and "USER_OFFSET \<le> start" and "start < MEMORY_END"
    and "0 < n" and "unat n \<le> length ps" and "unat n \<le> free_frames s"
  shows "\<exists>s' mm' v. vmm_map_memory s mm start (Some ps) n own = Some (s', mm', v) \<and>
    (v = 0 \<longrightarrow> s' = s \<and> mm' = mm \<and>
      (\<forall>q. unat start div 4096 \<le> q \<and> q + unat n \<le> 0xFFC00 \<longrightarrow> \<not> free_run mm q (unat n))) \<and>
    (v \<noteq> 0 \<longrightarrow> (\<exists>q. v = page_addr q \<and> unat start div 4096 \<le> q \<and> q + unat n \<le> 0xFFC00 \<and>
      free_run mm q (unat n) \<and> space_ok s' \<and> coherent s' mm' \<and>
      (\<forall>i < unat n. translate s' (page_addr (q + i)) = Some (frame_of (ps ! i), 0)) \<and>
      (\<forall>p. bm_used mm' p \<longleftrightarrow> bm_used mm p \<or> q \<le> p \<and> p < q + unat n) \<and>
      (\<forall>w. w < MEMORY_END \<and> (\<forall>i < unat n. \<not> same_page (page_addr (q + i)) w) \<longrightarrow>
        translate s' w = translate s w)))"
  by (rule vmm_map_memory_ok [OF assms])

theorem vmm_map_memory_correct_witness:
  "\<exists>s s' mm' v. vmm_initialize_paging vmm_zero 65536 = Some s \<and>
     vmm_map_memory s (\<lambda>_. 0) 0x80000000 (Some [0x2000000, 0x2001000]) 2 True = Some (s', mm', v) \<and> v \<noteq> 0"
proof -
  obtain s where s: "vmm_initialize_paging vmm_zero 65536 = Some s" "space_ok s"
    "\<And>v. 0x1000000 \<le> unat v \<Longrightarrow> v < MEMORY_END \<Longrightarrow> translate s v = None" "12288 \<le> free_frames s"
    by (rule vmm_zero_init) blast
  have "coherent s (\<lambda>_. 0)"
    unfolding coherent_def
  proof (intro allI impI)
    fix q :: nat
    assume q: "0x40000 \<le> q" "q < 0xFFC00"
    from page_addr_user(1) [OF this] page_addr_nat [of q] q
    show "translate s (page_addr q) = None"
      by (intro s(3)) (auto simp: user_addr_def RAM_AS_4K_PAGES_def)
  qed
  then obtain s' mm' v where r: "vmm_map_memory s (\<lambda>_. 0) 0x80000000 (Some [0x2000000, 0x2001000]) 2 True = Some (s', mm', v)"
      "v = 0 \<longrightarrow> (\<forall>q. 0x80000 \<le> q \<and> q + 2 \<le> 0xFFC00 \<longrightarrow> \<not> free_run (\<lambda>_. 0) q 2)"
    using vmm_map_memory_correct [OF s(2), of "\<lambda>_. 0" "0x80000000" 2 "[0x2000000, 0x2001000]" True] s(4)
    by (auto simp: USER_OFFSET_def MEMORY_END_def)
  have "free_run (\<lambda>_. 0) 0x80000 2" by (simp add: free_run_def bm_used_def)
  then have "v \<noteq> 0" using r(2) by (auto dest: spec [of _ "0x80000"])
  then show ?thesis using s(1) r(1) by blast
qed



end
