(* ===== verification/KHeap.thy ===== *)
theory KHeap
  imports Vmm
begin

text \<open>
  \<^verbatim>\<open>kernel/alloc.c\<close>: the kernel heap (\<^verbatim>\<open>kmalloc\<close>, \<^verbatim>\<open>kfree\<close>) and the program break of a process.

  The heap is a sequence of chunks, each behind a four-byte header. The headers are a map from
  addresses; the bytes between them belong to the callers. \<open>None\<close> is \<^verbatim>\<open>PANIC\<close>.
\<close>

section \<open>State\<close>

record malloc_header =
  mh_size :: u32
  mh_used :: bool

record kheap_state =
  kh_vm :: vmm_state
  kh_heap :: u32
  kh_used :: u32
  kh_hdr :: "u32 \<Rightarrow> malloc_header"

definition KMALLOC_MINSIZE :: u32 where "KMALLOC_MINSIZE = 16"

definition sizeof_header :: u32 where "sizeof_header = 4"

text \<open>The size is a bit field of 31 bits.\<close>

definition put_header :: "kheap_state \<Rightarrow> u32 \<Rightarrow> u32 \<Rightarrow> bool \<Rightarrow> kheap_state" where
  "put_header s chunk sz u =
     s\<lparr>kh_hdr := (kh_hdr s)(chunk := \<lparr>mh_size = sz AND 0x7FFFFFFF, mh_used = u\<rparr>)\<rparr>"

section \<open>Growing the heap\<close>

fun ksbrk_loop :: "vmm_state \<Rightarrow> u32 \<Rightarrow> nat \<Rightarrow> (vmm_state \<times> u32) option" where
  "ksbrk_loop vm heap 0 = Some (vm, heap)"
| "ksbrk_loop vm heap (Suc n) = do {
     (vm1, p_addr) \<leftarrow> vmm_acquire_page_frame_4k vm;
     if sint p_addr < 0 then None
     else do {
       (vm2, r) \<leftarrow> vmm_add_page_to_pd vm1 heap p_addr 0;
       ksbrk_loop vm2 (heap + PAGESIZE_4K) n
     }
   }"

definition ksbrk_page :: "kheap_state \<Rightarrow> i32 \<Rightarrow> (kheap_state \<times> u32) option" where
  "ksbrk_page s n =
     (if kh_heap s + n * PAGESIZE_4K > KERN_HEAP_END then Some (s, - 1)
      else do {
        let chunk = kh_heap s;
        (vm, heap) \<leftarrow> ksbrk_loop (kh_vm s) (kh_heap s) (if sint n \<le> 0 then 0 else unat n);
        Some (put_header (s\<lparr>kh_vm := vm, kh_heap := heap\<rparr>) chunk (PAGESIZE_4K * n) False, chunk)
      })"

definition initialize_kernel_heap :: "kheap_state \<Rightarrow> kheap_state option" where
  "initialize_kernel_heap s = do {
     (s', r) \<leftarrow> ksbrk_page (s\<lparr>kh_heap := KERN_HEAP_BEGIN\<rparr>) 1;
     Some s'
   }"

text \<open>\<^verbatim>\<open>vmm_initialize\<close> as a whole: paging, then the heap.\<close>

definition vmm_initialize :: "kheap_state \<Rightarrow> u32 \<Rightarrow> kheap_state option" where
  "vmm_initialize s high_mem = do {
     vm \<leftarrow> vmm_initialize_paging (kh_vm s) high_mem;
     initialize_kernel_heap (s\<lparr>kh_vm := vm\<rparr>)
   }"

section \<open>kmalloc and kfree\<close>

text \<open>The search loop; it ends in \<^verbatim>\<open>PANIC\<close> on a corrupted chain.\<close>

partial_function (option) kmalloc_find ::
  "kheap_state \<Rightarrow> u32 \<Rightarrow> u32 \<Rightarrow> (kheap_state \<times> u32) option"
where
  "kmalloc_find s realsize chunk =
     (if mh_used (kh_hdr s chunk) \<or> mh_size (kh_hdr s chunk) < realsize then
        (if mh_size (kh_hdr s chunk) = 0 then None
         else let chunk' = chunk + mh_size (kh_hdr s chunk)
              in if chunk' = kh_heap s then
                   Option.bind (ksbrk_page s (realsize div PAGESIZE_4K + 1)) (\<lambda>(s', r).
                     if sint r < 0 then None else kmalloc_find s' realsize chunk')
                 else if chunk' > kh_heap s then None
                 else kmalloc_find s realsize chunk')
      else Some (s, chunk))"

definition real_size :: "u32 \<Rightarrow> u32" where
  "real_size sz = (let r = sizeof_header + sz in if r < KMALLOC_MINSIZE then KMALLOC_MINSIZE else r)"

text \<open>The two branches at the end of \<open>kmalloc\<close>.\<close>

definition take_chunk :: "kheap_state \<Rightarrow> u32 \<Rightarrow> u32 \<Rightarrow> kheap_state" where
  "take_chunk s chunk realsize =
     (let csize = mh_size (kh_hdr s chunk)
      in if csize - realsize < KMALLOC_MINSIZE then put_header s chunk csize True
         else put_header (put_header s (chunk + realsize) (csize - realsize) False) chunk realsize True)"

definition kmalloc :: "kheap_state \<Rightarrow> u32 \<Rightarrow> (kheap_state \<times> ptr) option" where
  "kmalloc s sz =
     (if sz = 0 then Some (s, 0)
      else do {
        let realsize = real_size sz;
        (s1, chunk) \<leftarrow> kmalloc_find s realsize KERN_HEAP_BEGIN;
        let s2 = take_chunk s1 chunk realsize;
        Some (s2\<lparr>kh_used := kh_used s2 + realsize\<rparr>, chunk + sizeof_header)
      })"

partial_function (option) merge_loop :: "kheap_state \<Rightarrow> u32 \<Rightarrow> kheap_state option" where
  "merge_loop s chunk =
     (let h = kh_hdr s chunk; other = chunk + mh_size h
      in if other \<noteq> 0 \<and> other < kh_heap s \<and> \<not> mh_used (kh_hdr s other)
         then merge_loop (put_header s chunk (mh_size h + mh_size (kh_hdr s other)) (mh_used h)) chunk
         else Some s)"

definition kfree :: "kheap_state \<Rightarrow> ptr \<Rightarrow> kheap_state option" where
  "kfree s v_addr =
     (if v_addr = 0 then Some s
      else let chunk = v_addr - sizeof_header;
               s1 = put_header s chunk (mh_size (kh_hdr s chunk)) False;
               s2 = s1\<lparr>kh_used := kh_used s1 - mh_size (kh_hdr s1 chunk)\<rparr>
           in merge_loop s2 chunk)"

definition get_kernel_heap_used :: "kheap_state \<Rightarrow> u32" where
  "get_kernel_heap_used s = kh_used s"

section \<open>The program break\<close>

text \<open>The fields of \<^verbatim>\<open>Process\<close> the break uses; its pages are those of the active directory.\<close>

record brk_process =
  brk_begin :: u32
  brk_end :: u32
  brk_next_unallocated_page_begin :: u32
  mmapped_virtual_memory :: bitmap

fun sbrk_grow :: "vmm_state \<Rightarrow> 'a brk_process_scheme \<Rightarrow> nat \<Rightarrow> (vmm_state \<times> 'a brk_process_scheme) option"
where
  "sbrk_grow vm proc 0 = Some (vm, proc)"
| "sbrk_grow vm proc (Suc n) =
     (if brk_next_unallocated_page_begin proc + PAGESIZE_4K > MEMORY_END - PAGESIZE_4K
      then Some (vm, proc)
      else do {
        (vm1, p_addr) \<leftarrow> vmm_acquire_page_frame_4k vm;
        if sint p_addr < 0 then Some (vm1, proc)
        else do {
          (vm2, r) \<leftarrow> vmm_add_page_to_pd vm1 (brk_next_unallocated_page_begin proc) p_addr
                        (PG_USER OR PG_OWNED);
          mm \<leftarrow> set_pageframe_used (mmapped_virtual_memory proc)
                 (PAGE_INDEX_4K (brk_next_unallocated_page_begin proc));
          sbrk_grow vm2 (proc\<lparr>mmapped_virtual_memory := mm,
            brk_next_unallocated_page_begin := brk_next_unallocated_page_begin proc + PAGESIZE_4K\<rparr>) n
        }
      })"

fun sbrk_shrink :: "vmm_state \<Rightarrow> 'a brk_process_scheme \<Rightarrow> nat \<Rightarrow> (vmm_state \<times> 'a brk_process_scheme) option"
where
  "sbrk_shrink vm proc 0 = Some (vm, proc)"
| "sbrk_shrink vm proc (Suc n) =
     (if brk_next_unallocated_page_begin proc - PAGESIZE_4K \<ge> brk_begin proc
      then do {
        let page = brk_next_unallocated_page_begin proc - PAGESIZE_4K;
        (vm1, r) \<leftarrow> vmm_remove_page_from_pd vm page;
        sbrk_shrink vm1 (proc\<lparr>brk_next_unallocated_page_begin := page,
          mmapped_virtual_memory := set_pageframe_unused (mmapped_virtual_memory proc) page\<rparr>) n
      } else sbrk_shrink vm proc n)"

definition sbrk_page :: "vmm_state \<Rightarrow> 'a brk_process_scheme \<Rightarrow> i32 \<Rightarrow> (vmm_state \<times> 'a brk_process_scheme) option"
where
  "sbrk_page vm proc page_count =
     (if sint page_count > 0 then sbrk_grow vm proc (nat (sint page_count))
      else if sint page_count < 0 then sbrk_shrink vm proc (nat (- sint page_count))
      else Some (vm, proc))"

text \<open>The result is the previous break, or \<open>-1\<close> when there are not enough free frames.\<close>

definition sbrk :: "vmm_state \<Rightarrow> 'a brk_process_scheme \<Rightarrow> i32 \<Rightarrow>
  (vmm_state \<times> 'a brk_process_scheme \<times> u32) option"
where
  "sbrk vm proc n_bytes = do {
     let previous_break = brk_end proc;
     if sint n_bytes > 0 then do {
       let remaining = brk_next_unallocated_page_begin proc - brk_end proc;
       if sint n_bytes > sint remaining then do {
         let needed = n_bytes - remaining;
         let pages = (needed - 1) div PAGESIZE_4K + 1;
         freePages \<leftarrow> vmm_get_free_page_count vm;
         if unat pages + 1 > freePages then Some (vm, proc, - 1)
         else do {
           (vm', proc') \<leftarrow> sbrk_page vm proc pages;
           Some (vm', proc'\<lparr>brk_end := brk_end proc' + n_bytes\<rparr>, previous_break)
         }
       } else Some (vm, proc\<lparr>brk_end := brk_end proc + n_bytes\<rparr>, previous_break)
     } else if sint n_bytes < 0 then do {
       let currentPageBegin = brk_next_unallocated_page_begin proc - PAGESIZE_4K;
       let remaining = brk_end proc - currentPageBegin;
       if sint (- n_bytes) > sint remaining then do {
         let bytesInPreviousPages = - n_bytes - remaining;
         let pages = (bytesInPreviousPages - 1) div PAGESIZE_4K + 1;
         (vm', proc') \<leftarrow> sbrk_page vm proc (- pages);
         Some (vm', proc'\<lparr>brk_end := brk_end proc' + n_bytes\<rparr>, previous_break)
       } else Some (vm, proc\<lparr>brk_end := brk_end proc + n_bytes\<rparr>, previous_break)
     } else Some (vm, proc\<lparr>brk_end := brk_end proc + n_bytes\<rparr>, previous_break)
   }"

definition initialize_program_break :: "vmm_state \<Rightarrow> 'a brk_process_scheme \<Rightarrow> u32 \<Rightarrow>
  (vmm_state \<times> 'a brk_process_scheme) option"
where
  "initialize_program_break vm proc sz = do {
     (vm', proc', r) \<leftarrow> sbrk vm (proc\<lparr>brk_begin := USER_OFFSET, brk_end := USER_OFFSET,
       brk_next_unallocated_page_begin := USER_OFFSET\<rparr>) sz;
     Some (vm', proc')
   }"

section \<open>The chain of chunks\<close>

text \<open>
  The abstract heap: the sizes of the chunks from an address on, and whether they are used.
  The headers of the state describe such a list when it tiles the space up to the heap's end.
\<close>

type_synonym chunks = "(nat \<times> bool) list"

fun tiles :: "(u32 \<Rightarrow> malloc_header) \<Rightarrow> nat \<Rightarrow> chunks \<Rightarrow> nat \<Rightarrow> bool" where
  "tiles h a [] e \<longleftrightarrow> a = e"
| "tiles h a ((n, u) # cs) e \<longleftrightarrow>
     16 \<le> n \<and> a + n \<le> e \<and> h (of_nat a) = \<lparr>mh_size = of_nat n, mh_used = u\<rparr> \<and> tiles h (a + n) cs e"

definition heap_base :: nat where "heap_base = 0x2000000"
definition heap_limit :: nat where "heap_limit = 0x40000000"

definition heap_ok :: "kheap_state \<Rightarrow> chunks \<Rightarrow> bool" where
  "heap_ok s cs \<longleftrightarrow> tiles (kh_hdr s) heap_base cs (unat (kh_heap s)) \<and>
     unat (kh_heap s) \<le> heap_limit \<and> cs \<noteq> []"

text \<open>The blocks in use, by address and size.\<close>

fun used_blocks :: "nat \<Rightarrow> chunks \<Rightarrow> (nat \<times> nat) list" where
  "used_blocks a [] = []"
| "used_blocks a ((n, u) # cs) = (if u then [(a, n)] else []) @ used_blocks (a + n) cs"

definition total_size :: "chunks \<Rightarrow> nat" where
  "total_size cs = sum_list (map fst cs)"

lemma total_size_simps [simp]:
  "total_size [] = 0" "total_size (c # cs) = fst c + total_size cs"
  "total_size (xs @ ys) = total_size xs + total_size ys"
  by (simp_all add: total_size_def)

lemma used_blocks_append:
  "used_blocks a (xs @ ys) = used_blocks a xs @ used_blocks (a + total_size xs) ys"
  by (induction a xs rule: used_blocks.induct) (auto simp: add.assoc)

lemma tiles_append:
  "tiles h a (xs @ ys) e \<longleftrightarrow>
     tiles h a xs (a + total_size xs) \<and> a + total_size xs \<le> e \<and> tiles h (a + total_size xs) ys e"
  (is "_ \<longleftrightarrow> ?R a xs")
proof (induction a xs rule: used_blocks.induct)
  case (1 a)
  have "tiles h a ys e \<Longrightarrow> a \<le> e" for a by (induction ys arbitrary: a) auto
  then show ?case by auto
next
  case (2 a n u cs)
  then show ?case by (auto simp: add.assoc)
qed

lemma tiles_size: "tiles h a cs e \<Longrightarrow> e = a + total_size cs"
  by (induction a cs rule: used_blocks.induct) auto

lemma tiles_upto: "tiles h a cs e \<Longrightarrow> e' = a + total_size cs \<Longrightarrow> tiles h a cs e'"
  using tiles_size by blast

text \<open>Headers outside the range do not matter.\<close>

lemma tiles_cong:
  "tiles h a cs e \<Longrightarrow> (\<And>x. a \<le> x \<Longrightarrow> x < e \<Longrightarrow> h' (of_nat x) = h (of_nat x)) \<Longrightarrow> tiles h' a cs e"
proof (induction a cs rule: used_blocks.induct)
  case (2 a n u cs)
  then show ?case by auto
qed auto

text \<open>Blocks in use do not overlap, and lie inside the heap.\<close>

lemma used_blocks_range:
  "tiles h a cs e \<Longrightarrow> (b, n) \<in> set (used_blocks a cs) \<Longrightarrow> a \<le> b \<and> b + n \<le> e \<and> 16 \<le> n"
  by (induction a cs rule: used_blocks.induct) (auto split: if_splits)

lemma used_blocks_disjoint:
  "tiles h a cs e \<Longrightarrow> (b, n) \<in> set (used_blocks a cs) \<Longrightarrow> (b', n') \<in> set (used_blocks a cs) \<Longrightarrow>
   (b, n) = (b', n') \<or> b + n \<le> b' \<or> b' + n' \<le> b"
proof (induction a cs rule: used_blocks.induct)
  case (2 a m u cs)
  have t: "tiles h (a + m) cs e" using "2.prems"(1) by simp
  note rng = used_blocks_range [OF t]
  show ?case
    using "2.prems"(2,3) "2.IH" [OF t] rng [of b n] rng [of b' n'] by (auto split: if_splits)
qed simp

section \<open>First fit\<close>

fun fits :: "nat \<Rightarrow> nat \<times> bool \<Rightarrow> bool" where
  "fits r (n, u) \<longleftrightarrow> \<not> u \<and> r \<le> n"

lemma of_nat_fits:
  assumes "n \<le> heap_limit"
  shows "of_nat n < (r :: u32) \<longleftrightarrow> n < unat r" "of_nat n = (0 :: u32) \<longleftrightarrow> n = 0"
proof -
  have "unat (of_nat n :: u32) = n" using assms by (intro unat_of_nat_small) (simp add: heap_limit_def)
  then show "of_nat n < (r :: u32) \<longleftrightarrow> n < unat r" "of_nat n = (0 :: u32) \<longleftrightarrow> n = 0"
    by (auto simp: word_less_nat_alt unsigned_eq_0_iff [symmetric])
qed

lemma addr_add:
  assumes "a + n \<le> heap_limit"
  shows "of_nat a + of_nat n = (of_nat (a + n) :: u32)" "unat (of_nat (a + n) :: u32) = a + n"
proof -
  show "of_nat a + of_nat n = (of_nat (a + n) :: u32)" by simp
  show "unat (of_nat (a + n) :: u32) = a + n"
    using assms by (intro unat_of_nat_small) (simp add: heap_limit_def)
qed

lemma find_skip:
  assumes "tiles (kh_hdr s) a (c # c' # cs) (unat (kh_heap s))" and "unat (kh_heap s) \<le> heap_limit"
    and "\<not> fits (unat r) c"
  shows "kmalloc_find s r (of_nat a) = kmalloc_find s r (of_nat (a + fst c))"
proof -
  obtain n u where c: "c = (n, u)" by (cases c)
  obtain n' u' where c': "c' = (n', u')" by (cases c')
  have h: "kh_hdr s (of_nat a) = \<lparr>mh_size = of_nat n, mh_used = u\<rparr>" "16 \<le> n" "16 \<le> n'"
    "a + n + n' \<le> unat (kh_heap s)"
    using assms(1) by (auto simp: c c')
  have un: "unat (of_nat (a + n) :: u32) = a + n" using h assms(2) by (intro addr_add) simp
  have lt: "of_nat (a + n) < kh_heap s" unfolding word_less_nat_alt un using h by simp
  have n: "of_nat n \<noteq> (0 :: u32)" "u \<or> of_nat n < r"
    using h assms(2,3) of_nat_fits(1) [of n r] of_nat_fits(2) [of n] by (auto simp: c)
  show ?thesis
    using h(1) n lt by (subst kmalloc_find.simps) (auto simp: c Let_def)
qed

lemma find_hit:
  assumes "tiles (kh_hdr s) a (c # cs) (unat (kh_heap s))" and "unat (kh_heap s) \<le> heap_limit"
    and "fits (unat r) c"
  shows "kmalloc_find s r (of_nat a) = Some (s, of_nat a)"
proof -
  obtain n u where c: "c = (n, u)" by (cases c)
  have h: "kh_hdr s (of_nat a) = \<lparr>mh_size = of_nat n, mh_used = u\<rparr>" "a + n \<le> unat (kh_heap s)"
    using assms(1) by (auto simp: c)
  then have "\<not> of_nat n < r" "\<not> u" using assms(2,3) of_nat_fits(1) [of n r] of_nat_fits(2) [of n] by (auto simp: c)
  then show ?thesis using h(1) by (subst kmalloc_find.simps) simp
qed

text \<open>What growing does to the headers.\<close>

lemma ksbrk_loop_heap: "ksbrk_loop vm a n = Some (vm', a') \<Longrightarrow> a' = a + of_nat n * PAGESIZE_4K"
proof (induction n arbitrary: vm a)
  case (Suc n)
  then obtain vm2 where "ksbrk_loop vm2 (a + PAGESIZE_4K) n = Some (vm', a')"
    by (auto split: Option.bind_splits if_splits)
  from Suc.IH [OF this] show ?case by (simp add: algebra_simps)
qed simp

lemma low31:
  assumes "n < 2 ^ 31"
  shows "(of_nat n :: u32) AND 0x7FFFFFFF = of_nat n"
proof -
  have m: "(0x7FFFFFFF :: u32) = mask 31" by (simp add: mask_eq_exp_minus_1)
  have "unat (of_nat n :: u32) = n" using assms by (intro unat_of_nat_small) simp
  then have "take_bit 31 (of_nat n :: u32) = of_nat n"
    using assms by (simp add: word_unat_eq_iff unsigned_take_bit_eq take_bit_nat_eq_self)
  then show ?thesis by (simp only: m take_bit_eq_mask)
qed

lemma sint_small: "unat (w :: u32) < 2 ^ 31 \<Longrightarrow> \<not> sint w < 0"
  by (simp add: sint_nonneg)

lemma grow_ok:
  assumes "unat (kh_heap s) \<le> heap_limit" and "unat r \<le> 0x3F000000"
    and "ksbrk_page s (r div PAGESIZE_4K + 1) = Some (s', c)" and "\<not> sint c < 0"
  shows "\<exists>N. unat r < N \<and> c = kh_heap s \<and> unat (kh_heap s') = unat (kh_heap s) + N \<and>
    unat (kh_heap s') \<le> heap_limit \<and> kh_used s' = kh_used s \<and> 16 \<le> N \<and>
    kh_hdr s' = (kh_hdr s)(kh_heap s := \<lparr>mh_size = of_nat N, mh_used = False\<rparr>)"
proof -
  let ?n = "unat r div 4096 + 1" and ?w = "r div PAGESIZE_4K + 1"
  let ?N = "4096 * (unat r div 4096 + 1)"
  have q: "unat (r div PAGESIZE_4K) = unat r div 4096" by (simp add: PAGESIZE_4K_def unat_div_distrib)
  have nb: "?n \<le> 0x3F001" "?N \<le> 0x3F001000" using assms(2) div_le_mono [OF assms(2), of 4096] by auto
  have un: "unat ?w = ?n" using nb(1) by (subst unat_add_small) (simp_all add: q)
  have w: "?w = of_nat ?n" using un by (metis of_nat_unat ucast_id)
  have prod: "?w * PAGESIZE_4K = of_nat ?N"
    unfolding w by (simp add: PAGESIZE_4K_def)
  have sN: "unat (of_nat ?N :: u32) = ?N" using nb by (intro unat_of_nat_small) simp
  have top: "unat (kh_heap s + ?w * PAGESIZE_4K) = unat (kh_heap s) + ?N"
    unfolding prod using assms(1) nb sN by (subst unat_add_small) (simp_all add: heap_limit_def)
  have notbig: "\<not> kh_heap s + ?w * PAGESIZE_4K > KERN_HEAP_END"
  proof
    assume "kh_heap s + ?w * PAGESIZE_4K > KERN_HEAP_END"
    then have "c = - 1" using assms(3) by (simp add: ksbrk_page_def)
    then show False using assms(4) by simp
  qed
  then have bound: "unat (kh_heap s) + ?N \<le> heap_limit"
    using top by (simp add: word_less_nat_alt KERN_HEAP_END_def heap_limit_def)
  have cnt: "(if sint ?w \<le> 0 then 0 else unat ?w) = ?n"
  proof -
    have "\<not> sint ?w < 0" using un nb(1) by (intro sint_small) simp
    moreover have "sint ?w \<noteq> 0" using un by (auto simp: signed_eq_0_iff)
    ultimately show ?thesis using un by simp
  qed
  obtain vm heap where l: "ksbrk_loop (kh_vm s) (kh_heap s) ?n = Some (vm, heap)"
    and s': "s' = put_header (s\<lparr>kh_vm := vm, kh_heap := heap\<rparr>) (kh_heap s) (PAGESIZE_4K * ?w) False"
    and c: "c = kh_heap s"
    using assms(3) notbig unfolding ksbrk_page_def cnt Let_def
    by (auto split: Option.bind_splits simp del: ksbrk_loop.simps)
  have "heap = kh_heap s + ?w * PAGESIZE_4K" using ksbrk_loop_heap [OF l] by (simp add: w)
  moreover have "PAGESIZE_4K * ?w AND 0x7FFFFFFF = of_nat ?N"
    using low31 [of ?N] nb(2) prod by (simp add: mult.commute)
  moreover have "unat r < ?N" using dividend_less_times_div [of 4096 "unat r"] by simp
  ultimately show ?thesis using s' c top bound
    by (intro exI [of _ ?N]) (simp add: put_header_def)
qed

lemma find_first:
  assumes "tiles (kh_hdr s) a (pre @ c # post) (unat (kh_heap s))" and "unat (kh_heap s) \<le> heap_limit"
    and "\<forall>x \<in> set pre. \<not> fits (unat r) x" and "fits (unat r) c"
  shows "kmalloc_find s r (of_nat a) = Some (s, of_nat (a + total_size pre))"
  using assms
proof (induction pre arbitrary: a)
  case Nil
  then show ?case by (simp add: find_hit)
next
  case (Cons d pre)
  obtain c' cs where cs: "pre @ c # post = c' # cs" by (cases "pre @ c # post") auto
  have "kmalloc_find s r (of_nat a) = kmalloc_find s r (of_nat (a + fst d))"
    using Cons.prems cs by (intro find_skip [of s a d c' cs]) auto
  moreover have "tiles (kh_hdr s) (a + fst d) (pre @ c # post) (unat (kh_heap s))"
    using Cons.prems(1) by (cases d) simp
  ultimately show ?case using Cons.IH [of "a + fst d"] Cons.prems by (simp add: add.assoc)
qed

lemma find_grow:
  assumes "tiles (kh_hdr s) a cs (unat (kh_heap s))" and "unat (kh_heap s) \<le> heap_limit"
    and "cs \<noteq> []" and "\<forall>x \<in> set cs. \<not> fits (unat r) x" and "unat r \<le> 0x3F000000"
  shows "kmalloc_find s r (of_nat a) =
    Option.bind (ksbrk_page s (r div PAGESIZE_4K + 1)) (\<lambda>(s', c).
      if sint c < 0 then None else Some (s', kh_heap s))"
  using assms
proof (induction cs arbitrary: a)
  case Nil
  then show ?case by simp
next
  case (Cons d cs)
  obtain n u where d: "d = (n, u)" by (cases d)
  show ?case
  proof (cases cs)
    case (Cons c' cs')
    have "kmalloc_find s r (of_nat a) = kmalloc_find s r (of_nat (a + fst d))"
      using Cons.prems Cons by (intro find_skip [of s a d c' cs']) auto
    moreover have "tiles (kh_hdr s) (a + fst d) cs (unat (kh_heap s))" using Cons.prems(1) by (simp add: d)
    ultimately show ?thesis using Cons.IH [of "a + fst d"] Cons.prems Cons by simp
  next
    case Nil
    have h: "kh_hdr s (of_nat a) = \<lparr>mh_size = of_nat n, mh_used = u\<rparr>" "16 \<le> n" "a + n = unat (kh_heap s)"
      using Cons.prems(1) by (auto simp: d Nil)
    have nz: "of_nat n \<noteq> (0 :: u32)" "u \<or> of_nat n < r"
      using h Cons.prems(2,4) of_nat_fits(1) [of n r] of_nat_fits(2) [of n] by (auto simp: d)
    have e: "of_nat a + of_nat n = kh_heap s"
      using h(3) by (metis of_nat_add of_nat_unat ucast_id)
    have step: "kmalloc_find s r (of_nat a) =
        Option.bind (ksbrk_page s (r div PAGESIZE_4K + 1)) (\<lambda>(s', c).
          if sint c < 0 then None else kmalloc_find s' r (kh_heap s))"
      using h(1) nz by (subst kmalloc_find.simps) (auto simp: Let_def e)
    have hit: "kmalloc_find s' r (kh_heap s) = Some (s', kh_heap s)"
      if g: "ksbrk_page s (r div PAGESIZE_4K + 1) = Some (s', c)" "\<not> sint c < 0" for s' c
    proof -
      obtain N where N: "unat r < N" "unat (kh_heap s') = unat (kh_heap s) + N" "unat (kh_heap s') \<le> heap_limit"
          "kh_hdr s' = (kh_hdr s)(kh_heap s := \<lparr>mh_size = of_nat N, mh_used = False\<rparr>)"
        using grow_ok [OF Cons.prems(2,5) g] by blast
      then have "\<not> of_nat N < r" using of_nat_fits(1) [of N r] by simp
      then show ?thesis using N(4) by (subst kmalloc_find.simps) simp
    qed
    show ?thesis unfolding step
      by (cases "ksbrk_page s (r div PAGESIZE_4K + 1)") (auto simp: hit)
  qed
qed

section \<open>Allocating and freeing\<close>

lemma put_header_simps [simp]:
  "kh_heap (put_header s c n u) = kh_heap s" "kh_vm (put_header s c n u) = kh_vm s"
  "kh_used (put_header s c n u) = kh_used s"
  "kh_hdr (put_header s c n u) = (kh_hdr s)(c := \<lparr>mh_size = n AND 0x7FFFFFFF, mh_used = u\<rparr>)"
  by (simp_all add: put_header_def)

lemma addr_inj: "a \<le> heap_limit \<Longrightarrow> b \<le> heap_limit \<Longrightarrow> of_nat a = (of_nat b :: u32) \<longleftrightarrow> a = b"
  using addr_add(2) [of 0 a] addr_add(2) [of 0 b] by (metis add_0)

text \<open>
  Rewriting the part of a chain that covers one chunk: the new headers tile the same range
  and nothing else is touched.
\<close>

lemma tiles_replace:
  assumes "tiles h a (pre @ mid @ post) e" and "e \<le> heap_limit"
    and "tiles h' (a + total_size pre) mid' (a + total_size pre + total_size mid)"
    and "\<And>x. a \<le> x \<Longrightarrow> x < e \<Longrightarrow>
      \<not> (a + total_size pre \<le> x \<and> x < a + total_size pre + total_size mid) \<Longrightarrow> h' (of_nat x) = h (of_nat x)"
  shows "tiles h' a (pre @ mid' @ post) e"
proof -
  let ?b = "a + total_size pre" and ?c = "a + total_size pre + total_size mid"
  have t: "tiles h a pre ?b" "tiles h ?b mid ?c" "tiles h ?c post e" "?c \<le> e"
    using assms(1) by (auto simp: tiles_append)
  have sz: "total_size mid' = total_size mid" using tiles_size [OF assms(3)] by simp
  have "tiles h' a pre ?b" by (rule tiles_cong [OF t(1)]) (use t(4) assms(4) in auto)
  moreover have "tiles h' ?c post e" by (rule tiles_cong [OF t(3)]) (use assms(4) in auto)
  ultimately show ?thesis using assms(3) t(4) by (simp add: tiles_append sz add.assoc)
qed

definition carve :: "nat \<Rightarrow> nat \<Rightarrow> chunks" where
  "carve r n = (if n - r < 16 then [(n, True)] else [(r, True), (n - r, False)])"

lemma take_chunk_ok:
  assumes "tiles (kh_hdr s) a (pre @ (n, False) # post) e" and "e \<le> heap_limit"
    and "unat r \<le> n" and "16 \<le> unat r"
  shows "tiles (kh_hdr (take_chunk s (of_nat (a + total_size pre)) r)) a (pre @ carve (unat r) n @ post) e"
proof -
  let ?b = "a + total_size pre"
  let ?h' = "kh_hdr (take_chunk s (of_nat ?b) r)"
  have t: "tiles (kh_hdr s) a (pre @ [(n, False)] @ post) e" using assms(1) by simp
  have b: "kh_hdr s (of_nat ?b) = \<lparr>mh_size = of_nat n, mh_used = False\<rparr>" "?b + n \<le> e"
    using assms(1) by (auto simp: tiles_append)
  have n31: "n < 2 ^ 31" using b(2) assms(2) by (simp add: heap_limit_def)
  have un: "unat (of_nat n :: u32) = n" using n31 by (intro unat_of_nat_small) simp
  have le: "r \<le> of_nat n" by (simp add: word_le_nat_alt un assms(3))
  have diff: "unat (of_nat n - r) = n - unat r" using unat_sub_le [OF le] un by simp
  have min: "of_nat n - r < KMALLOC_MINSIZE \<longleftrightarrow> n - unat r < 16"
    by (simp add: word_less_nat_alt diff KMALLOC_MINSIZE_def)
  have rw: "of_nat (unat r) = r" by simp
  have r31: "r AND 0x7FFFFFFF = r" using low31 [of "unat r"] assms(3) n31 by simp
  have mid: "tiles ?h' ?b (carve (unat r) n) (?b + n)"
  proof (cases "n - unat r < 16")
    case True
    then show ?thesis using b assms(3,4) low31 [OF n31]
      by (simp add: take_chunk_def min carve_def)
  next
    case False
    then have ne: "of_nat (?b + unat r) \<noteq> (of_nat ?b :: u32)"
      using addr_inj [of "?b + unat r" ?b] b(2) assms(2,3,4) by auto
    have "(of_nat (n - unat r) :: u32) AND 0x7FFFFFFF = of_nat (n - unat r)"
      using n31 by (intro low31) simp
    then show ?thesis
      using False b(1) ne assms(3,4) r31
      by (simp add: take_chunk_def min carve_def Let_def)
  qed
  show ?thesis
  proof (rule tiles_replace [OF t assms(2)])
    show "tiles ?h' ?b (carve (unat r) n) (?b + total_size [(n, False)])" using mid by simp
    fix x
    assume x: "a \<le> x" "x < e" "\<not> (?b \<le> x \<and> x < ?b + total_size [(n, False)])"
    have "of_nat x \<noteq> (of_nat ?b :: u32)" "\<not> n - unat r < 16 \<Longrightarrow> of_nat x \<noteq> (of_nat (?b + unat r) :: u32)"
      using addr_inj [of x ?b] addr_inj [of x "?b + unat r"] x b(2) assms(2,3,4) by auto
    then show "?h' (of_nat x) = kh_hdr s (of_nat x)"
      using b(1) by (auto simp: take_chunk_def min Let_def)
  qed
qed

lemma take_chunk_simps [simp]:
  "kh_heap (take_chunk s c r) = kh_heap s" "kh_used (take_chunk s c r) = kh_used s"
  "kh_vm (take_chunk s c r) = kh_vm s"
  by (simp_all add: take_chunk_def Let_def)

lemma real_size_ok:
  assumes "unat sz \<le> 0x3E000000"
  shows "unat (real_size sz) = max 16 (unat sz + 4)"
proof -
  have "unat (sizeof_header + sz) = 4 + unat sz"
    using assms by (subst unat_add_small) (simp_all add: sizeof_header_def)
  then show ?thesis by (simp add: real_size_def KMALLOC_MINSIZE_def word_less_nat_alt Let_def max_def)
qed

text \<open>
  Allocation on the abstract heap: the chunks before, the chunk that is taken (an old one, or
  the one the heap grew by) and the chunks behind it.
\<close>

definition allocates :: "chunks \<Rightarrow> nat \<Rightarrow> chunks \<Rightarrow> nat \<Rightarrow> bool" where
  "allocates cs r cs' p \<longleftrightarrow> (\<exists>pre n post grown.
     cs @ grown = pre @ (n, False) # post \<and> r \<le> n \<and> cs' = pre @ carve r n @ post \<and>
     p = heap_base + total_size pre + 4 \<and> (grown = [] \<or> (\<exists>N. grown = [(N, False)])))"

lemma kmalloc_ok:
  assumes h: "heap_ok s cs" and sz: "0 < sz" "unat sz \<le> 0x3E000000"
    and ret: "(\<exists>c \<in> set cs. fits (unat (real_size sz)) c) \<or>
      (\<exists>s' c. ksbrk_page s (real_size sz div PAGESIZE_4K + 1) = Some (s', c) \<and> \<not> sint c < 0)"
  shows "ok (kmalloc s sz) (\<lambda>(s', p). \<exists>cs'. heap_ok s' cs' \<and>
    allocates cs (unat (real_size sz)) cs' (unat p) \<and> kh_used s' = kh_used s + real_size sz)"
proof -
  let ?r = "real_size sz"
  have r: "16 \<le> unat ?r" "unat ?r \<le> 0x3F000000" using real_size_ok [OF sz(2)] sz(2) by auto
  have base: "KERN_HEAP_BEGIN = of_nat heap_base" by (simp add: KERN_HEAP_BEGIN_def heap_base_def)
  have t: "tiles (kh_hdr s) heap_base cs (unat (kh_heap s))" "unat (kh_heap s) \<le> heap_limit" "cs \<noteq> []"
    using h by (auto simp: heap_ok_def)
  have "\<exists>s1 pre n post grown. kmalloc_find s ?r KERN_HEAP_BEGIN = Some (s1, of_nat (heap_base + total_size pre)) \<and>
      cs @ grown = pre @ (n, False) # post \<and> unat ?r \<le> n \<and> (grown = [] \<or> (\<exists>N. grown = [(N, False)])) \<and>
      tiles (kh_hdr s1) heap_base (cs @ grown) (unat (kh_heap s1)) \<and> unat (kh_heap s1) \<le> heap_limit \<and>
      kh_used s1 = kh_used s"
  proof (cases "\<exists>c \<in> set cs. fits (unat ?r) c")
    case True
    then obtain pre c post where c: "cs = pre @ c # post" "fits (unat ?r) c" "\<forall>x \<in> set pre. \<not> fits (unat ?r) x"
      using split_list_first_prop by metis
    obtain n where n: "c = (n, False)" "unat ?r \<le> n" using c(2) by (cases c) auto
    show ?thesis
      using find_first [OF _ t(2) c(3,2), of heap_base post] t c(1) n base
      by (intro exI [of _ s] exI [of _ pre] exI [of _ n] exI [of _ post] exI [of _ "[]"]) auto
  next
    case False
    then obtain s1 c where g: "ksbrk_page s (?r div PAGESIZE_4K + 1) = Some (s1, c)" "\<not> sint c < 0"
      using ret by blast
    obtain N where N: "unat ?r < N" "unat (kh_heap s1) = unat (kh_heap s) + N" "unat (kh_heap s1) \<le> heap_limit"
        "kh_used s1 = kh_used s" "16 \<le> N"
        "kh_hdr s1 = (kh_hdr s)(kh_heap s := \<lparr>mh_size = of_nat N, mh_used = False\<rparr>)"
      using grow_ok [OF t(2) r(2) g] by blast
    have e: "unat (kh_heap s) = heap_base + total_size cs" using tiles_size [OF t(1)] .
    then have he: "kh_heap s = of_nat (heap_base + total_size cs)" by (metis of_nat_unat ucast_id)
    have fd: "kmalloc_find s ?r KERN_HEAP_BEGIN = Some (s1, kh_heap s)"
      using find_grow [OF t _ r(2)] False g base by auto
    have "tiles (kh_hdr s1) heap_base cs (unat (kh_heap s))"
    proof (rule tiles_cong [OF t(1)])
      fix x assume "heap_base \<le> x" "x < unat (kh_heap s)"
      then show "kh_hdr s1 (of_nat x) = kh_hdr s (of_nat x)"
        using N(6) addr_inj [of x "unat (kh_heap s)"] t(2) by auto
    qed
    then have "tiles (kh_hdr s1) heap_base (cs @ [(N, False)]) (unat (kh_heap s1))"
      using N e he by (auto simp: tiles_append)
    then show ?thesis using N fd he
      by (intro exI [of _ s1] exI [of _ cs] exI [of _ N] exI [of _ "[]"] exI [of _ "[(N, False)]"]) auto
  qed
  then obtain s1 pre n post grown where f: "kmalloc_find s ?r KERN_HEAP_BEGIN = Some (s1, of_nat (heap_base + total_size pre))"
      "cs @ grown = pre @ (n, False) # post" "unat ?r \<le> n" "grown = [] \<or> (\<exists>N. grown = [(N, False)])"
      "tiles (kh_hdr s1) heap_base (pre @ (n, False) # post) (unat (kh_heap s1))" "unat (kh_heap s1) \<le> heap_limit"
      "kh_used s1 = kh_used s"
    by metis
  let ?c = "of_nat (heap_base + total_size pre) :: u32"
  have "tiles (kh_hdr (take_chunk s1 ?c ?r)) heap_base (pre @ carve (unat ?r) n @ post) (unat (kh_heap s1))"
    using take_chunk_ok [OF f(5,6,3) r(1)] .
  then have ok': "heap_ok ((take_chunk s1 ?c ?r)\<lparr>kh_used := kh_used s1 + ?r\<rparr>) (pre @ carve (unat ?r) n @ post)"
    using f(6) by (simp add: heap_ok_def carve_def)
  have "heap_base + total_size pre + n \<le> heap_limit" using f(5,6) by (auto simp: tiles_append)
  then have p: "unat (?c + sizeof_header) = heap_base + total_size pre + 4"
    using addr_add(2) [of "heap_base + total_size pre" 4] r(1) f(3)
    by (simp add: sizeof_header_def add.assoc)
  have run: "kmalloc s sz = Some ((take_chunk s1 ?c ?r)\<lparr>kh_used := kh_used s1 + ?r\<rparr>, ?c + sizeof_header)"
    using sz(1) f(1) by (auto simp: kmalloc_def Let_def)
  have "allocates cs (unat ?r) (pre @ carve (unat ?r) n @ post) (heap_base + total_size pre + 4)"
    unfolding allocates_def using f(2,3,4) by blast
  then show ?thesis unfolding run using ok' f(7) p by auto
qed

text \<open>Exactly one block more is in use, and it is large enough.\<close>

lemma allocates_used:
  assumes "allocates cs r cs' p" and "tiles h heap_base cs' e" and "16 \<le> r"
  shows "\<exists>m. r \<le> m \<and> (p - 4, m) \<notin> set (used_blocks heap_base cs) \<and>
    set (used_blocks heap_base cs') = insert (p - 4, m) (set (used_blocks heap_base cs))"
proof -
  obtain pre n post grown where a: "cs @ grown = pre @ (n, False) # post" "r \<le> n"
      "cs' = pre @ carve r n @ post" "p = heap_base + total_size pre + 4"
      "grown = [] \<or> (\<exists>N. grown = [(N, False)])"
    using assms(1) by (auto simp: allocates_def)
  let ?b = "heap_base + total_size pre"
  have "used_blocks x grown = []" for x using a(5) by auto
  then have old: "used_blocks heap_base cs = used_blocks heap_base pre @ used_blocks (?b + n) post"
    using used_blocks_append [of heap_base cs grown] by (simp add: a(1) used_blocks_append)
  have sz: "total_size (carve r n) = n" using a(2) by (simp add: carve_def)
  have t: "tiles h heap_base pre ?b" "tiles h (?b + n) post e"
    using assms(2) by (auto simp: a(3) tiles_append sz add.assoc)
  have new: "(?b, m) \<notin> set (used_blocks heap_base cs)" for m
    using used_blocks_range [OF t(1), of ?b m] used_blocks_range [OF t(2), of ?b m] a(2) assms(3)
    by (auto simp: old)
  have "\<exists>m. r \<le> m \<and> set (used_blocks heap_base cs') = insert (?b, m) (set (used_blocks heap_base cs))"
    using a(2) by (auto simp: a(3) old used_blocks_append carve_def add.assoc)
  then show ?thesis using new a(4) by auto
qed

lemma merge_loop_ok:
  assumes "tiles (kh_hdr s) a (pre @ (n, u) # post) (unat (kh_heap s))" and "unat (kh_heap s) \<le> heap_limit"
  shows "ok (merge_loop s (of_nat (a + total_size pre))) (\<lambda>s'. kh_heap s' = kh_heap s \<and> kh_used s' = kh_used s \<and>
    tiles (kh_hdr s') a (pre @ (n + total_size (takeWhile (\<lambda>c. \<not> snd c) post), u) #
      dropWhile (\<lambda>c. \<not> snd c) post) (unat (kh_heap s)))"
  using assms
proof (induction post arbitrary: n s)
  case Nil
  let ?b = "a + total_size pre"
  have h: "kh_hdr s (of_nat ?b) = \<lparr>mh_size = of_nat n, mh_used = u\<rparr>" "?b + n = unat (kh_heap s)"
    using Nil.prems by (auto simp: tiles_append)
  have e: "of_nat ?b + of_nat n = kh_heap s" using h(2) by (metis of_nat_add of_nat_unat ucast_id)
  have "merge_loop s (of_nat ?b) = Some s"
    using h(1) e by (subst merge_loop.simps) (simp add: Let_def)
  then show ?case using Nil.prems by simp
next
  case (Cons d post)
  let ?b = "a + total_size pre"
  obtain m v where d: "d = (m, v)" by (cases d)
  have t: "tiles (kh_hdr s) a (pre @ [(n, u), (m, v)] @ post) (unat (kh_heap s))"
    using Cons.prems(1) by (simp add: d)
  have h: "kh_hdr s (of_nat ?b) = \<lparr>mh_size = of_nat n, mh_used = u\<rparr>"
      "kh_hdr s (of_nat (?b + n)) = \<lparr>mh_size = of_nat m, mh_used = v\<rparr>" "?b + n + m \<le> unat (kh_heap s)"
      "16 \<le> m" "16 \<le> n"
    using t by (auto simp: tiles_append)
  have un: "unat (of_nat (?b + n) :: u32) = ?b + n" using addr_add(2) [of ?b n] h(3) Cons.prems(2) by simp
  have pos: "of_nat (?b + n) \<noteq> (0 :: u32)" "of_nat (?b + n) < kh_heap s"
    using un h by (auto simp: word_less_nat_alt unsigned_eq_0_iff [symmetric] simp del: of_nat_add)
  have o: "of_nat ?b + of_nat n = (of_nat (?b + n) :: u32)" by simp
  show ?case
  proof (cases v)
    case True
    then have "merge_loop s (of_nat ?b) = Some s"
      using h(1,2) by (subst merge_loop.simps) (simp add: Let_def)
    then show ?thesis using Cons.prems d True by simp
  next
    case False
    let ?s = "put_header s (of_nat ?b) (of_nat n + of_nat m) u"
    have run: "merge_loop s (of_nat ?b) = merge_loop ?s (of_nat ?b)"
      using h(1,2) pos False by (subst merge_loop.simps) (simp add: Let_def)
    have nm: "n + m < 2 ^ 31" using h(3) Cons.prems(2) by (simp add: heap_limit_def)
    have t': "tiles (kh_hdr ?s) a (pre @ [(n + m, u)] @ post) (unat (kh_heap s))"
    proof (rule tiles_replace [OF t Cons.prems(2)])
      show "tiles (kh_hdr ?s) ?b [(n + m, u)] (?b + total_size [(n, u), (m, v)])"
        using low31 [OF nm] h(4) by simp
      fix x assume x: "a \<le> x" "x < unat (kh_heap s)" "\<not> (?b \<le> x \<and> x < ?b + total_size [(n, u), (m, v)])"
      then have "of_nat x \<noteq> (of_nat ?b :: u32)"
        using addr_inj [of x ?b] h(3,5) Cons.prems(2) by auto
      then show "kh_hdr ?s (of_nat x) = kh_hdr s (of_nat x)" by simp
    qed
    have "ok (merge_loop ?s (of_nat ?b)) (\<lambda>s'. kh_heap s' = kh_heap ?s \<and> kh_used s' = kh_used ?s \<and>
      tiles (kh_hdr s') a (pre @ (n + m + total_size (takeWhile (\<lambda>c. \<not> snd c) post), u) #
        dropWhile (\<lambda>c. \<not> snd c) post) (unat (kh_heap ?s)))"
      by (rule Cons.IH) (use t' Cons.prems(2) in \<open>simp_all del: put_header_simps(4)\<close>)
    then show ?thesis unfolding run using d False by (simp add: add.assoc)
  qed
qed

text \<open>Freeing on the abstract heap: the chunk and the free ones directly behind it become one.\<close>

definition frees :: "chunks \<Rightarrow> nat \<Rightarrow> chunks \<Rightarrow> nat \<Rightarrow> bool" where
  "frees cs p cs' n \<longleftrightarrow> (\<exists>pre post. cs = pre @ (n, True) # post \<and> p = heap_base + total_size pre + 4 \<and>
     cs' = pre @ (n + total_size (takeWhile (\<lambda>c. \<not> snd c) post), False) # dropWhile (\<lambda>c. \<not> snd c) post)"

lemma used_block_split:
  "(b, n) \<in> set (used_blocks a cs) \<Longrightarrow> \<exists>pre post. cs = pre @ (n, True) # post \<and> b = a + total_size pre"
proof (induction a cs rule: used_blocks.induct)
  case (2 a m u cs)
  show ?case
  proof (cases "u \<and> (b, n) = (a, m)")
    case True
    then show ?thesis by (intro exI [of _ "[]"] exI [of _ cs]) auto
  next
    case False
    then have "(b, n) \<in> set (used_blocks (a + m) cs)" using "2.prems" by (auto split: if_splits)
    then obtain pre post where "cs = pre @ (n, True) # post" "b = a + m + total_size pre" using "2.IH" by blast
    then show ?thesis by (intro exI [of _ "(m, u) # pre"] exI [of _ post]) simp
  qed
qed simp

lemma free_prefix_unused: "used_blocks a cs = used_blocks (a + total_size (takeWhile (\<lambda>c. \<not> snd c) cs))
    (dropWhile (\<lambda>c. \<not> snd c) cs)"
  by (induction a cs rule: used_blocks.induct) (auto simp: add.assoc)

lemma frees_used:
  assumes "frees cs p cs' n" and "tiles h heap_base cs e"
  shows "set (used_blocks heap_base cs') = set (used_blocks heap_base cs) - {(p - 4, n)}"
proof -
  obtain pre post where f: "cs = pre @ (n, True) # post" "p = heap_base + total_size pre + 4"
      "cs' = pre @ (n + total_size (takeWhile (\<lambda>c. \<not> snd c) post), False) # dropWhile (\<lambda>c. \<not> snd c) post"
    using assms(1) by (auto simp: frees_def)
  let ?b = "heap_base + total_size pre"
  have u': "used_blocks heap_base cs' = used_blocks heap_base pre @ used_blocks (?b + n) post"
    using free_prefix_unused [of "?b + n" post] by (simp add: f(3) used_blocks_append add.assoc)
  have t: "tiles h heap_base pre ?b" "tiles h (?b + n) post e" "16 \<le> n"
    using assms(2) by (auto simp: f(1) tiles_append)
  have "(?b, n) \<notin> set (used_blocks heap_base pre)" "(?b, n) \<notin> set (used_blocks (?b + n) post)"
    using used_blocks_range [OF t(1), of ?b n] used_blocks_range [OF t(2), of ?b n] t(3) by auto
  then show ?thesis using u' f(2) by (auto simp: f(1) used_blocks_append)
qed

lemma kfree_ok:
  assumes h: "heap_ok s cs" and b: "(unat p - 4, n) \<in> set (used_blocks heap_base cs)" and p: "4 \<le> unat p"
  shows "ok (kfree s p) (\<lambda>s'. \<exists>cs'. heap_ok s' cs' \<and> frees cs (unat p) cs' n \<and>
    kh_used s' = kh_used s - of_nat n)"
proof -
  have t: "tiles (kh_hdr s) heap_base cs (unat (kh_heap s))" "unat (kh_heap s) \<le> heap_limit"
    using h by (auto simp: heap_ok_def)
  obtain pre post where cs: "cs = pre @ (n, True) # post" "unat p - 4 = heap_base + total_size pre"
    using used_block_split [OF b] by blast
  let ?b = "heap_base + total_size pre"
  have chunk: "p - sizeof_header = of_nat ?b"
  proof -
    have "unat (p - 4) = ?b" using cs(2) p by (subst unat_sub_le) (auto simp: word_le_nat_alt)
    then show ?thesis unfolding sizeof_header_def by (metis of_nat_unat ucast_id)
  qed
  have hd: "kh_hdr s (of_nat ?b) = \<lparr>mh_size = of_nat n, mh_used = True\<rparr>" "?b + n \<le> unat (kh_heap s)" "16 \<le> n"
    using t(1) by (auto simp: cs(1) tiles_append)
  have n31: "n < 2 ^ 31" using hd(2) t(2) by (simp add: heap_limit_def)
  let ?s = "put_header s (of_nat ?b) (of_nat n) False"
  let ?s2 = "?s\<lparr>kh_used := kh_used ?s - of_nat n\<rparr>"
  have t2: "tiles (kh_hdr ?s) heap_base (pre @ [(n, False)] @ post) (unat (kh_heap s))"
  proof (rule tiles_replace [of "kh_hdr s" _ pre "[(n, True)]"])
    show "tiles (kh_hdr s) heap_base (pre @ [(n, True)] @ post) (unat (kh_heap s))"
      using t(1) by (simp add: cs(1))
    show "tiles (kh_hdr ?s) ?b [(n, False)] (?b + total_size [(n, True)])"
      using low31 [OF n31] hd(3) by simp
    fix x assume x: "heap_base \<le> x" "x < unat (kh_heap s)" "\<not> (?b \<le> x \<and> x < ?b + total_size [(n, True)])"
    then have "of_nat x \<noteq> (of_nat ?b :: u32)"
      using addr_inj [of x ?b] hd(2,3) t(2) by auto
    then show "kh_hdr ?s (of_nat x) = kh_hdr s (of_nat x)" by simp
  qed (rule t(2))
  have run: "kfree s p = merge_loop ?s2 (of_nat ?b)"
    using p hd(1) low31 [OF n31] by (auto simp: kfree_def chunk Let_def)
  have "ok (merge_loop ?s2 (of_nat ?b)) (\<lambda>s'. kh_heap s' = kh_heap ?s2 \<and> kh_used s' = kh_used ?s2 \<and>
    tiles (kh_hdr s') heap_base (pre @ (n + total_size (takeWhile (\<lambda>c. \<not> snd c) post), False) #
      dropWhile (\<lambda>c. \<not> snd c) post) (unat (kh_heap ?s2)))"
    using t2 t(2) by (intro merge_loop_ok) auto
  moreover have "frees cs (unat p) (pre @ (n + total_size (takeWhile (\<lambda>c. \<not> snd c) post), False) #
      dropWhile (\<lambda>c. \<not> snd c) post) n"
    unfolding frees_def using cs p by (intro exI [of _ pre] exI [of _ post]) auto
  ultimately show ?thesis unfolding run
    using t(2) by (auto simp: heap_ok_def elim!: ok_mono)
qed

text \<open>Without a fitting chunk and without room to grow, allocation ends in \<^verbatim>\<open>PANIC\<close>.\<close>

lemma kmalloc_returns:
  assumes h: "heap_ok s cs" and sz: "0 < sz" "unat sz \<le> 0x3E000000" and "kmalloc s sz \<noteq> None"
  shows "(\<exists>c \<in> set cs. fits (unat (real_size sz)) c) \<or>
    (\<exists>s' c. ksbrk_page s (real_size sz div PAGESIZE_4K + 1) = Some (s', c) \<and> \<not> sint c < 0)"
proof (rule ccontr)
  let ?r = "real_size sz"
  assume n: "\<not> ?thesis"
  have base: "KERN_HEAP_BEGIN = of_nat heap_base" by (simp add: KERN_HEAP_BEGIN_def heap_base_def)
  have "unat ?r \<le> 0x3F000000" using real_size_ok [OF sz(2)] sz(2) by auto
  then have "kmalloc_find s ?r KERN_HEAP_BEGIN = None"
    using find_grow [of s heap_base cs ?r] h n base by (auto simp: heap_ok_def split: Option.bind_splits)
  moreover have "sz \<noteq> 0" using sz(1) by auto
  ultimately show False using assms(4) by (simp add: kmalloc_def)
qed

section \<open>The interface of the heap\<close>

text \<open>
  What the rest of the kernel relies on: the blocks in use, by address and size, never
  overlap; a successful allocation adds one block that is large enough, and freeing a block
  removes exactly that block.
\<close>

locale block_allocator =
  fixes holds :: "'s \<Rightarrow> (nat \<times> nat) set \<Rightarrow> bool"
    and malloc :: "'s \<Rightarrow> u32 \<Rightarrow> ('s \<times> ptr) option"
    and free :: "'s \<Rightarrow> ptr \<Rightarrow> 's option"
    and max_size :: nat
  assumes separate: "holds s B \<Longrightarrow> (b, n) \<in> B \<Longrightarrow> (b', n') \<in> B \<Longrightarrow>
      (b, n) = (b', n') \<or> b + n \<le> b' \<or> b' + n' \<le> b"
    and malloc_step: "holds s B \<Longrightarrow> 0 < sz \<Longrightarrow> unat sz \<le> max_size \<Longrightarrow> malloc s sz = Some (s', p) \<Longrightarrow>
      \<exists>m. 4 \<le> unat p \<and> unat sz + 4 \<le> m \<and> (unat p - 4, m) \<notin> B \<and> holds s' (insert (unat p - 4, m) B)"
    and free_step: "holds s B \<Longrightarrow> (unat p - 4, n) \<in> B \<Longrightarrow> 4 \<le> unat p \<Longrightarrow>
      ok (free s p) (\<lambda>s'. holds s' (B - {(unat p - 4, n)}))"

context block_allocator begin

text \<open>The bytes of a new allocation overlap no block that was in use.\<close>

lemma malloc_fresh:
  assumes "holds s B" and "0 < sz" and "unat sz \<le> max_size" and "malloc s sz = Some (s', p)"
    and "(b, n) \<in> B"
  shows "unat p + unat sz \<le> b \<or> b + n \<le> unat p"
proof -
  obtain m where m: "4 \<le> unat p" "unat sz + 4 \<le> m" "(unat p - 4, m) \<notin> B" "holds s' (insert (unat p - 4, m) B)"
    using malloc_step [OF assms(1-4)] by blast
  have "(unat p - 4, m) \<noteq> (b, n)" using m(3) assms(5) by auto
  then have "unat p - 4 + m \<le> b \<or> b + n \<le> unat p - 4"
    using separate [OF m(4), of "unat p - 4" m b n] assms(5) by auto
  then show ?thesis using m(1,2) by auto
qed

text \<open>Allocating and freeing again leaves the same blocks in use.\<close>

lemma malloc_free:
  assumes "holds s B" and "0 < sz" and "unat sz \<le> max_size" and "malloc s sz = Some (s', p)"
  shows "ok (free s' p) (\<lambda>s''. holds s'' B)"
proof -
  obtain m where m: "4 \<le> unat p" "(unat p - 4, m) \<notin> B" "holds s' (insert (unat p - 4, m) B)"
    using malloc_step [OF assms] by blast
  have "insert (unat p - 4, m) B - {(unat p - 4, m)} = B" using m(2) by auto
  then show ?thesis using free_step [OF m(3) _ m(1), of m] by simp
qed

end

definition heap_holds :: "kheap_state \<Rightarrow> (nat \<times> nat) set \<Rightarrow> bool" where
  "heap_holds s B \<longleftrightarrow> (\<exists>cs. heap_ok s cs \<and> B = set (used_blocks heap_base cs))"

interpretation kheap: block_allocator heap_holds kmalloc kfree "0x3E000000"
proof
  fix s B and b n b' n' :: nat
  assume "heap_holds s B" "(b, n) \<in> B" "(b', n') \<in> B"
  then show "(b, n) = (b', n') \<or> b + n \<le> b' \<or> b' + n' \<le> b"
    unfolding heap_holds_def heap_ok_def using used_blocks_disjoint by metis
next
  fix s B sz s' p
  assume a: "heap_holds s B" "0 < sz" "unat sz \<le> 0x3E000000" "kmalloc s sz = Some (s', p)"
  then obtain cs where cs: "heap_ok s cs" "B = set (used_blocks heap_base cs)"
    by (auto simp: heap_holds_def)
  have r: "16 \<le> unat (real_size sz)" "unat sz + 4 \<le> unat (real_size sz)"
    using real_size_ok [OF a(3)] by auto
  obtain cs' where cs': "heap_ok s' cs'" "allocates cs (unat (real_size sz)) cs' (unat p)"
    using kmalloc_ok [OF cs(1) a(2,3) kmalloc_returns [OF cs(1) a(2,3)]] a(4) by auto
  have p: "4 \<le> unat p" using cs'(2) by (auto simp: allocates_def)
  have t: "tiles (kh_hdr s') heap_base cs' (unat (kh_heap s'))" using cs'(1) by (simp add: heap_ok_def)
  obtain m where m: "unat (real_size sz) \<le> m" "(unat p - 4, m) \<notin> B"
      "set (used_blocks heap_base cs') = insert (unat p - 4, m) B"
    using allocates_used [OF cs'(2) t r(1)] cs(2) by blast
  then have "heap_holds s' (insert (unat p - 4, m) B)" using cs'(1) unfolding heap_holds_def by metis
  then show "\<exists>m. 4 \<le> unat p \<and> unat sz + 4 \<le> m \<and> (unat p - 4, m) \<notin> B \<and> heap_holds s' (insert (unat p - 4, m) B)"
    using p m(1,2) r(2) by (intro exI [of _ m]) simp
next
  fix s B p n
  assume a: "heap_holds s B" "(unat p - 4, n) \<in> B" "4 \<le> unat (p :: u32)"
  then obtain cs where cs: "heap_ok s cs" "B = set (used_blocks heap_base cs)"
    by (auto simp: heap_holds_def)
  from kfree_ok [OF cs(1) _ a(3), of n] a(2) cs(2)
  have "ok (kfree s p) (\<lambda>s'. \<exists>cs'. heap_ok s' cs' \<and> frees cs (unat p) cs' n \<and>
      kh_used s' = kh_used s - of_nat n)" by simp
  then show "ok (kfree s p) (\<lambda>s'. heap_holds s' (B - {(unat p - 4, n)}))"
    using frees_used cs unfolding heap_holds_def heap_ok_def by (elim ok_mono) metis
qed

section \<open>Properties\<close>

text \<open>A heap of one free page, for the examples.\<close>

definition one_page_heap :: kheap_state where
  "one_page_heap = \<lparr>kh_vm = vmm_zero, kh_heap = 0x2001000, kh_used = 0,
     kh_hdr = (\<lambda>_. \<lparr>mh_size = 4096, mh_used = False\<rparr>)\<rparr>"

lemma one_page_heap_ok: "heap_ok one_page_heap [(4096, False)]" "heap_holds one_page_heap {}"
proof -
  show h: "heap_ok one_page_heap [(4096, False)]"
    by (simp add: heap_ok_def one_page_heap_def heap_base_def heap_limit_def)
  then show "heap_holds one_page_heap {}" by (force simp: heap_holds_def)
qed



text \<open>
  C5: \<^verbatim>\<open>kfree\<close> of a block in use ends, gives back exactly that block, leaves every other block
  where it is and the chunks a gapless tiling, merging the free chunks directly behind it.
\<close>

theorem kfree_correct:
  assumes "heap_ok s cs" and "(unat p - 4, n) \<in> set (used_blocks heap_base cs)" and "4 \<le> unat p"
  shows "\<exists>s' cs'. kfree s p = Some s' \<and> heap_ok s' cs' \<and> frees cs (unat p) cs' n \<and>
    set (used_blocks heap_base cs') = set (used_blocks heap_base cs) - {(unat p - 4, n)}"
proof -
  obtain s' cs' where r: "kfree s p = Some s'" "heap_ok s' cs'" "frees cs (unat p) cs' n"
    using kfree_ok [OF assms] by (auto simp: ok_iff)
  then show ?thesis using frees_used [OF r(3)] assms(1) unfolding heap_ok_def by blast
qed

theorem kfree_correct_witness:
  "\<exists>s' cs'. kfree (one_page_heap\<lparr>kh_hdr := (\<lambda>_. \<lparr>mh_size = 4096, mh_used = True\<rparr>)\<rparr>) 0x2000004 = Some s' \<and>
     heap_ok s' cs' \<and> set (used_blocks heap_base cs') = {}"
proof -
  let ?s = "one_page_heap\<lparr>kh_hdr := (\<lambda>_. \<lparr>mh_size = 4096, mh_used = True\<rparr>)\<rparr>"
  have "heap_ok ?s [(4096, True)]"
    by (simp add: heap_ok_def one_page_heap_def heap_base_def heap_limit_def)
  from kfree_correct [OF this, of "0x2000004" 4096] show ?thesis
    by (auto simp: heap_base_def)
qed

text \<open>
  The count of used heap bytes drifts: \<^verbatim>\<open>kmalloc\<close> adds the rounded request but \<^verbatim>\<open>kfree\<close>
  subtracts the chunk's size, so allocating a chunk that is not split and freeing it again
  lowers the count by the slack, although the same blocks are in use as before.
\<close>

theorem kheap_accounting_drift:
  assumes "heap_ok s cs" and "0 < sz" and "unat sz \<le> 0x3E000000"
    and "kmalloc s sz = Some (s', p)" and "kfree s' p = Some s''"
    and "heap_ok s' cs'" and "(unat p - 4, n) \<in> set (used_blocks heap_base cs')" and "4 \<le> unat p"
  shows "get_kernel_heap_used s'' = get_kernel_heap_used s - (of_nat n - real_size sz)"
proof -
  have "kh_used s' = kh_used s + real_size sz"
    using kmalloc_ok [OF assms(1-3) kmalloc_returns [OF assms(1-3)]] assms(4) by auto
  moreover have "kh_used s'' = kh_used s' - of_nat n"
    using kfree_ok [OF assms(6-8)] assms(5) by auto
  ultimately show ?thesis by (simp add: get_kernel_heap_used_def)
qed

theorem kheap_accounting_drift_witness:
  "\<exists>s' p s''. kmalloc one_page_heap 4084 = Some (s', p) \<and> kfree s' p = Some s'' \<and>
     get_kernel_heap_used s'' = get_kernel_heap_used one_page_heap - 8"
proof -
  let ?s = "take_chunk one_page_heap 0x2000000 4088"
  let ?s' = "?s\<lparr>kh_used := kh_used ?s + 4088\<rparr>"
  have r: "real_size 4084 = 4088" by (simp add: real_size_def sizeof_header_def KMALLOC_MINSIZE_def)
  have "kmalloc_find one_page_heap 4088 0x2000000 = Some (one_page_heap, 0x2000000)"
    by (subst kmalloc_find.simps) (simp add: one_page_heap_def)
  then have run: "kmalloc one_page_heap 4084 = Some (?s', 0x2000004)"
    by (simp add: kmalloc_def r KERN_HEAP_BEGIN_def sizeof_header_def Let_def)
  have h: "heap_ok ?s' [(4096, True)]"
    by (simp add: heap_ok_def one_page_heap_def heap_base_def heap_limit_def take_chunk_def
        put_header_def KMALLOC_MINSIZE_def)
  have b: "(unat (0x2000004 :: u32) - 4, 4096) \<in> set (used_blocks heap_base [(4096, True)])"
    by (simp add: heap_base_def)
  obtain s'' where f: "kfree ?s' 0x2000004 = Some s''"
    using kfree_ok [OF h b] by (auto simp: ok_iff)
  from kheap_accounting_drift [OF one_page_heap_ok(1) _ _ run f h b]
  have "get_kernel_heap_used s'' = get_kernel_heap_used one_page_heap - 8" by (simp add: r)
  then show ?thesis using run f by blast
qed

text \<open>
  The request size is not checked for overflow: a request of almost 4 GB is treated as one
  of twelve bytes.
\<close>

theorem kmalloc_size_wraps:
  assumes "0xFFFFFFFC \<le> sz"
  shows "kmalloc s sz = kmalloc s 12"
proof -
  define k where "k = unat sz - 0xFFFFFFFC"
  have "k < 4" using u32_less [of sz] by (simp add: k_def)
  then have "k = 0 \<or> k = 1 \<or> k = 2 \<or> k = 3" by arith
  moreover have "sz = 0xFFFFFFFC + of_nat k"
    using assms by (simp add: k_def word_le_nat_alt of_nat_diff)
  ultimately have "sz \<in> {0xFFFFFFFC, 0xFFFFFFFD, 0xFFFFFFFE, 0xFFFFFFFF}" by auto
  then have "real_size sz = real_size 12" "sz \<noteq> 0"
    by (auto simp: real_size_def sizeof_header_def KMALLOC_MINSIZE_def)
  then show ?thesis by (simp add: kmalloc_def)
qed

theorem kmalloc_size_wraps_witness:
  "kmalloc one_page_heap 0xFFFFFFFF = kmalloc one_page_heap 12"
  by (rule kmalloc_size_wraps) simp

end
