(* ===== verification/Terminal.thy ===== *)
theory Terminal
  imports CommonLib
begin

text \<open>
  \<^verbatim>\<open>kernel/terminal.c\<close> and \<^verbatim>\<open>kernel/vgaterminal.c\<close>: the character terminal, its cell buffer and
  cursor, and the VGA text screen behind it.

  The window size is the tty's, so every operation gets it as an argument. The calls of the
  display functions (made only for the active terminal) are recorded in order with what they
  read of the terminal; \<open>vga_call\<close> gives the effect each has on the VGA memory.
\<close>

section \<open>State\<close>

record winsize_t =
  ws_row :: u16
  ws_col :: u16
  ws_xpixel :: u16
  ws_ypixel :: u16

datatype display_call =
    Refresh "u8 list"
  | AddCharacter u16 u16 u8
  | MoveCursor u16 u16 u16 u16

record terminal_t =
  t_buffer :: "u8 list"
  t_current_line :: u16
  t_current_column :: u16
  t_color :: u8
  t_disabled :: bool
  t_active :: bool
  t_display :: bool
  t_calls :: "display_call list"

definition display :: "terminal_t \<Rightarrow> display_call \<Rightarrow> terminal_t" where
  "display t c = (if t_active t \<and> t_display t then t\<lparr>t_calls := t_calls t @ [c]\<rparr> else t)"

text \<open>An access to the cell buffer at an \<^verbatim>\<open>int\<close> offset.\<close>

definition put_at :: "u8 list \<Rightarrow> int \<Rightarrow> u8 \<Rightarrow> u8 list option" where
  "put_at buf i v = (if 0 \<le> i then wr buf (nat i) v else None)"

definition row_i :: "winsize_t \<Rightarrow> int" where "row_i ws = int (unat (ws_row ws))"
definition col_i :: "winsize_t \<Rightarrow> int" where "col_i ws = int (unat (ws_col ws))"

definition cell_offset :: "winsize_t \<Rightarrow> int \<Rightarrow> int \<Rightarrow> int" where
  "cell_offset ws line column = (line * col_i ws + column) * 2"

section \<open>Operations\<close>

definition terminal_move_cursor :: "winsize_t \<Rightarrow> terminal_t \<Rightarrow> u16 \<Rightarrow> u16 \<Rightarrow> terminal_t" where
  "terminal_move_cursor ws t line column =
     (if t_disabled t then t
      else let line' = (if line \<ge> ws_row ws then ws_row ws - 1 else line);
               column' = (if column \<ge> ws_col ws then ws_col ws - 1 else column);
               t' = display t (MoveCursor (t_current_line t) (t_current_column t) line' column')
           in t'\<lparr>t_current_line := line', t_current_column := column'\<rparr>)"

text \<open>\<^verbatim>\<open>terminal_print\<close> writes the text and its colour from a cell on.\<close>

fun print_loop :: "u8 list \<Rightarrow> int \<Rightarrow> u8 \<Rightarrow> u8 list \<Rightarrow> u8 list option" where
  "print_loop buf video color [] = None"
| "print_loop buf video color (c # text) =
     (if c \<noteq> 0 then do {
        b1 \<leftarrow> put_at buf video c;
        b2 \<leftarrow> put_at b1 (video + 1) color;
        print_loop b2 (video + 2) color text
      } else Some buf)"

definition terminal_print :: "winsize_t \<Rightarrow> terminal_t \<Rightarrow> int \<Rightarrow> int \<Rightarrow> u8 list \<Rightarrow> terminal_t option" where
  "terminal_print ws t row column text =
     (if t_disabled t then Some t
      else do {
        b \<leftarrow> print_loop (t_buffer t) (cell_offset ws row column) (t_color t) text;
        Some (t\<lparr>t_buffer := b\<rparr>)
      })"

text \<open>The two nested loops of the scroll copy each cell from the line below.\<close>

fun scroll_columns :: "u8 list \<Rightarrow> nat \<Rightarrow> nat \<Rightarrow> nat \<Rightarrow> nat \<Rightarrow> u8 list option" where
  "scroll_columns buf w line column 0 = Some buf"
| "scroll_columns buf w line column (Suc n) = do {
     a \<leftarrow> rd buf (((line + 1) * w + column) * 2);
     b1 \<leftarrow> wr buf ((line * w + column) * 2) a;
     b \<leftarrow> rd b1 (((line + 1) * w + column) * 2 + 1);
     b2 \<leftarrow> wr b1 ((line * w + column) * 2 + 1) b;
     scroll_columns b2 w line (Suc column) n
   }"

fun scroll_lines :: "u8 list \<Rightarrow> nat \<Rightarrow> nat \<Rightarrow> nat \<Rightarrow> u8 list option" where
  "scroll_lines buf w line 0 = Some buf"
| "scroll_lines buf w line (Suc n) = do {
     b \<leftarrow> scroll_columns buf w line 0 w;
     scroll_lines b w (Suc line) n
   }"

fun blank_cells :: "u8 list \<Rightarrow> u8 \<Rightarrow> int \<Rightarrow> nat \<Rightarrow> u8 list option" where
  "blank_cells buf color i 0 = Some buf"
| "blank_cells buf color i (Suc n) = do {
     b1 \<leftarrow> put_at buf i 0;
     b2 \<leftarrow> put_at b1 (i + 1) color;
     blank_cells b2 color (i + 2) n
   }"

definition terminal_scroll_up :: "winsize_t \<Rightarrow> terminal_t \<Rightarrow> terminal_t option" where
  "terminal_scroll_up ws t = do {
     let w = unat (ws_col ws);
     b1 \<leftarrow> scroll_lines (t_buffer t) w 0 (unat (ws_row ws) - 1);
     b2 \<leftarrow> blank_cells b1 (t_color t) (cell_offset ws (row_i ws - 1) 0) w;
     let t' = t\<lparr>t_buffer := b2\<rparr>;
     Some (display t' (Refresh b2))
   }"

definition terminal_clear :: "winsize_t \<Rightarrow> terminal_t \<Rightarrow> terminal_t option" where
  "terminal_clear ws t =
     (if t_disabled t then Some t
      else do {
        b \<leftarrow> blank_cells (t_buffer t) (t_color t) 0 (unat (ws_row ws) * unat (ws_col ws));
        Some (terminal_move_cursor ws (t\<lparr>t_buffer := b\<rparr>) 0 0)
      })"

text \<open>Writing a character and the colour into the cell under the cursor.\<close>

definition write_cell :: "winsize_t \<Rightarrow> terminal_t \<Rightarrow> u8 \<Rightarrow> terminal_t option" where
  "write_cell ws t c = do {
     let i = cell_offset ws (int (unat (t_current_line t))) (int (unat (t_current_column t)));
     b1 \<leftarrow> put_at (t_buffer t) i c;
     b2 \<leftarrow> put_at b1 (i + 1) (t_color t);
     Some (t\<lparr>t_buffer := b2\<rparr>)
   }"

definition put_printing :: "winsize_t \<Rightarrow> terminal_t \<Rightarrow> u8 \<Rightarrow> terminal_t option" where
  "put_printing ws t c = do {
     let t1 = (if t_current_column t \<ge> ws_col ws
               then terminal_move_cursor ws t (t_current_line t + 1) 0 else t);
     t2 \<leftarrow> (if int (unat (t_current_line t1)) \<ge> row_i ws - 1
            then terminal_scroll_up ws
                   (terminal_move_cursor ws t1 (t_current_line t1 - 1) (t_current_column t1))
            else Some t1);
     t3 \<leftarrow> write_cell ws t2 c;
     let t4 = display t3 (AddCharacter (t_current_line t3) (t_current_column t3) c);
     Some (terminal_move_cursor ws t4 (t_current_line t4) (t_current_column t4 + 1))
   }"

definition put_newline :: "winsize_t \<Rightarrow> terminal_t \<Rightarrow> terminal_t option" where
  "put_newline ws t = do {
     let t1 = terminal_move_cursor ws t (t_current_line t + 1) (t_current_column t);
     t2 \<leftarrow> (if int (unat (t_current_line t1)) \<ge> row_i ws - 1
            then terminal_scroll_up ws
                   (terminal_move_cursor ws t1 (t_current_line t1 - 1) (t_current_column t1))
            else Some t1);
     Some (terminal_move_cursor ws t2 (t_current_line t2) (t_current_column t2))
   }"

definition terminal_put_character :: "winsize_t \<Rightarrow> terminal_t \<Rightarrow> u8 \<Rightarrow> terminal_t option" where
  "terminal_put_character ws t c =
     (if t_disabled t then Some t
      else if c = 10 then put_newline ws t
      else if c = 13 then Some (terminal_move_cursor ws t (t_current_line t) 0)
      else if c = 8 \<and> t_current_column t > 0 then
        write_cell ws (terminal_move_cursor ws t (t_current_line t) (t_current_column t - 1)) 0
      else if c = 8 \<and> t_current_line t > 0 then
        write_cell ws (terminal_move_cursor ws t (t_current_line t - 1) (ws_col ws - 1)) 0
      else put_printing ws t c)"

fun put_text_loop :: "winsize_t \<Rightarrow> terminal_t \<Rightarrow> u8 list \<Rightarrow> nat \<Rightarrow> terminal_t option" where
  "put_text_loop ws t [] i = None"
| "put_text_loop ws t (c # text) i =
     (if c \<noteq> 0 \<and> 0 < i then do {
        t' \<leftarrow> terminal_put_character ws t c;
        put_text_loop ws t' text (i - 1)
      } else Some t)"

text \<open>The text is read up to a NUL or one character past \<^verbatim>\<open>size\<close>, whichever comes first.\<close>

definition terminal_put_text :: "winsize_t \<Rightarrow> terminal_t \<Rightarrow> u8 list \<Rightarrow> u32 \<Rightarrow> terminal_t option" where
  "terminal_put_text ws t text sz = (if t_disabled t then Some t else put_text_loop ws t text (unat sz))"

section \<open>Keys\<close>

definition KM_Ctrl :: u8 where "KM_Ctrl = 4"

definition isgraph :: "u8 \<Rightarrow> bool" where
  "isgraph a \<longleftrightarrow> (ucast a - 0x21 :: u32) < 0x5e"

definition toupper :: "u8 \<Rightarrow> u8" where
  "toupper a = a AND 0x5f"

text \<open>The bytes \<^verbatim>\<open>terminal_send_key\<close> writes to the tty's master side.\<close>

definition key_sequence :: "u8 \<Rightarrow> u8 \<Rightarrow> u8 list" where
  "key_sequence modifier character =
     (if character = 0xE6 then [27, 91, 53, 126]
      else if character = 0xE7 then [27, 91, 54, 126]
      else if character = 0xE0 then [27, 91, 72]
      else if character = 0xE1 then [27, 91, 70]
      else if character = 0xE8 then [27, 91, 50, 126]
      else if character = 0xE9 then [27, 91, 51, 126]
      else if character = 0xE2 then [27, 91, 65]
      else if character = 0xE3 then [27, 91, 66]
      else if character = 0xE5 then [27, 91, 67]
      else if character = 0xE4 then [27, 91, 68]
      else if modifier = KM_Ctrl \<and> isgraph character then [toupper character - 64]
      else [character])"

section \<open>The VGA screen\<close>

definition XGA_HEIGHT :: nat where "XGA_HEIGHT = 25"
definition XGA_WIDTH :: nat where "XGA_WIDTH = 80"

definition vgaterminal_setup :: "winsize_t \<Rightarrow> winsize_t" where
  "vgaterminal_setup ws = ws\<lparr>ws_row := of_nat XGA_HEIGHT, ws_col := of_nat XGA_WIDTH\<rparr>"

record vga_state =
  vga_video :: "u8 list"
  vga_cursor :: u16

text \<open>Black background, light green text.\<close>

definition g_color :: u8 where "g_color = 0x0A"

definition vgaterminal_refresh_terminal :: "vga_state \<Rightarrow> u8 list \<Rightarrow> vga_state option" where
  "vgaterminal_refresh_terminal vga buffer = do {
     v \<leftarrow> memcpy (vga_video vga) buffer (of_nat (XGA_HEIGHT * XGA_WIDTH * 2));
     Some (vga\<lparr>vga_video := v\<rparr>)
   }"

definition vgaterminal_add_character :: "vga_state \<Rightarrow> u16 \<Rightarrow> u16 \<Rightarrow> u8 \<Rightarrow> vga_state option" where
  "vgaterminal_add_character vga line column character = do {
     let i = (unat line * XGA_WIDTH + unat column) * 2;
     v1 \<leftarrow> wr (vga_video vga) i character;
     v2 \<leftarrow> wr v1 (i + 1) g_color;
     Some (vga\<lparr>vga_video := v2\<rparr>)
   }"

text \<open>The cursor registers get the high and the low byte of the location.\<close>

definition vgaterminal_move_cursor :: "vga_state \<Rightarrow> u16 \<Rightarrow> u16 \<Rightarrow> vga_state" where
  "vgaterminal_move_cursor vga line column = vga\<lparr>vga_cursor := line * of_nat XGA_WIDTH + column\<rparr>"

fun vga_call :: "vga_state \<Rightarrow> display_call \<Rightarrow> vga_state option" where
  "vga_call vga (Refresh buffer) = vgaterminal_refresh_terminal vga buffer"
| "vga_call vga (AddCharacter line column c) = vgaterminal_add_character vga line column c"
| "vga_call vga (MoveCursor old_line old_column line column) =
     Some (vgaterminal_move_cursor vga line column)"

fun vga_run :: "vga_state \<Rightarrow> display_call list \<Rightarrow> vga_state option" where
  "vga_run vga [] = Some vga"
| "vga_run vga (c # cs) = do { vga' \<leftarrow> vga_call vga c; vga_run vga' cs }"

section \<open>Creation\<close>

text \<open>
  The buffer comes from \<^verbatim>\<open>kmalloc\<close> with unknown contents; the window size has been set by
  \<^verbatim>\<open>vgaterminal_setup\<close> or \<^verbatim>\<open>fbterminal_setup\<close>, and the new terminal is not the active one.
\<close>

definition terminal_create :: "winsize_t \<Rightarrow> u8 list \<Rightarrow> terminal_t option" where
  "terminal_create ws kmalloc_buffer =
     terminal_clear ws \<lparr>t_buffer = kmalloc_buffer, t_current_line = 0, t_current_column = 0,
       t_color = 0x0A, t_disabled = False, t_active = False, t_display = True, t_calls = []\<rparr>"

section \<open>The cell buffer\<close>

definition term_ok :: "winsize_t \<Rightarrow> terminal_t \<Rightarrow> bool" where
  "term_ok ws t \<longleftrightarrow> 0 < ws_row ws \<and> 0 < ws_col ws \<and>
     length (t_buffer t) = unat (ws_row ws) * unat (ws_col ws) * 2 \<and>
     t_current_line t < ws_row ws \<and> t_current_column t < ws_col ws"

lemma display_simps [simp]:
  "t_buffer (display t c) = t_buffer t" "t_current_line (display t c) = t_current_line t"
  "t_current_column (display t c) = t_current_column t" "t_color (display t c) = t_color t"
  "t_disabled (display t c) = t_disabled t" "t_active (display t c) = t_active t"
  by (simp_all add: display_def)

lemma put_at_nat: "put_at buf (int i) v = wr buf i v"
  by (simp add: put_at_def)

lemma blank_cells_ok:
  "i + 2 * n \<le> length buf \<Longrightarrow>
   blank_cells buf color (int i) n =
     Some (take i buf @ concat (replicate n [0, color]) @ drop (i + 2 * n) buf)"
proof (induction n arbitrary: buf i)
  case 0
  then show ?case by simp
next
  case (Suc n)
  let ?b = "buf[i := 0, Suc i := color]"
  have "put_at buf (int i) 0 = Some (buf[i := 0])" "put_at (buf[i := 0]) (int i + 1) color = Some ?b"
    using Suc.prems put_at_nat [of "buf[i := 0]" "Suc i" color]
    by (auto simp: put_at_nat wr_def add.commute)
  then have "blank_cells buf color (int i) (Suc n) = blank_cells ?b color (int (i + 2)) n"
    by (simp add: add.commute)
  also have "\<dots> = Some (take (i + 2) ?b @ concat (replicate n [0, color]) @ drop (i + 2 + 2 * n) ?b)"
    using Suc.prems by (intro Suc.IH) simp
  also have "take (i + 2) ?b = take i buf @ [0, color]"
    using Suc.prems by (simp add: take_Suc_conv_app_nth)
  finally show ?case by (simp add: add.assoc)
qed

text \<open>One line of the scroll: each of its cells holds what the cell below held.\<close>

lemma scroll_columns_ok:
  assumes "((line + 1) * w + column + n) * 2 \<le> length buf" and "column + n \<le> w"
  shows "ok (scroll_columns buf w line column n) (\<lambda>b. length b = length buf \<and>
    (\<forall>i < length buf. b ! i = (if (line * w + column) * 2 \<le> i \<and> i < (line * w + column + n) * 2
       then buf ! (i + 2 * w) else buf ! i)))"
  using assms
proof (induction n arbitrary: buf column)
  case 0
  then show ?case by auto
next
  case (Suc n)
  let ?d = "(line * w + column) * 2" and ?s = "((line + 1) * w + column) * 2"
  have ds: "?s = ?d + 2 * w" by (simp add: algebra_simps)
  have len: "?s + 2 + 2 * n \<le> length buf" using Suc.prems(1) by (simp add: algebra_simps)
  have w: "1 \<le> w" using Suc.prems(2) by simp
  let ?b = "buf[?d := buf ! ?s, ?d + 1 := buf ! (?s + 1)]"
  have step: "scroll_columns buf w line column (Suc n) = scroll_columns ?b w line (Suc column) n"
    using len w ds by (simp add: rd_def wr_def)
  have IH: "ok (scroll_columns ?b w line (Suc column) n) (\<lambda>b. length b = length ?b \<and>
    (\<forall>i < length ?b. b ! i = (if (line * w + Suc column) * 2 \<le> i \<and> i < (line * w + Suc column + n) * 2
       then ?b ! (i + 2 * w) else ?b ! i)))"
    using Suc.prems by (intro Suc.IH) (simp_all add: algebra_simps)
  have far: "?b ! (i + 2 * w) = buf ! (i + 2 * w)" if "?d + 2 \<le> i" for i
    using that w by (simp add: nth_list_update_neq)
  obtain b where b: "scroll_columns ?b w line (Suc column) n = Some b" "length b = length buf"
      "\<And>i. i < length buf \<Longrightarrow> b ! i = (if (line * w + Suc column) * 2 \<le> i \<and> i < (line * w + Suc column + n) * 2
        then ?b ! (i + 2 * w) else ?b ! i)"
    using IH by (auto simp: ok_iff)
  have "b ! i = (if ?d \<le> i \<and> i < (line * w + column + Suc n) * 2 then buf ! (i + 2 * w) else buf ! i)"
    if i: "i < length buf" for i
  proof -
    consider "i < ?d" | "i = ?d" | "i = ?d + 1" | "?d + 2 \<le> i" by linarith
    then show ?thesis
    proof cases
      case 4
      then show ?thesis using b(3) [OF i] far [OF 4] by (auto simp: nth_list_update_neq)
    qed (use b(3) [OF i] i ds len in \<open>auto simp: nth_list_update_neq ac_simps\<close>)
  qed
  then show ?case unfolding step using b by auto
qed

lemma scroll_lines_ok:
  assumes "(line + n + 1) * w * 2 \<le> length buf"
  shows "ok (scroll_lines buf w line n) (\<lambda>b. length b = length buf \<and>
    (\<forall>i < length buf. b ! i = (if line * w * 2 \<le> i \<and> i < (line + n) * w * 2
       then buf ! (i + 2 * w) else buf ! i)))"
  using assms
proof (induction n arbitrary: buf line)
  case 0
  then show ?case by auto
next
  case (Suc n)
  have "((line + 1) * w + 0 + w) * 2 \<le> (line + Suc n + 1) * w * 2" by (simp add: algebra_simps)
  then have "((line + 1) * w + 0 + w) * 2 \<le> length buf" using Suc.prems by linarith
  from scroll_columns_ok [OF this] obtain b where b: "scroll_columns buf w line 0 w = Some b"
      "length b = length buf"
      "\<And>i. i < length buf \<Longrightarrow> b ! i = (if line * w * 2 \<le> i \<and> i < (line * w + w) * 2
        then buf ! (i + 2 * w) else buf ! i)"
    by (auto simp: ok_iff)
  obtain b' where b': "scroll_lines b w (Suc line) n = Some b'" "length b' = length b"
      "\<And>i. i < length b \<Longrightarrow> b' ! i = (if Suc line * w * 2 \<le> i \<and> i < (Suc line + n) * w * 2
        then b ! (i + 2 * w) else b ! i)"
    using Suc.IH [of "Suc line" b] Suc.prems b(2) by (auto simp: ok_iff)
  have m: "(line * w + w) * 2 = Suc line * w * 2" "(Suc line + n) * w * 2 = (line + Suc n) * w * 2"
    by (simp_all add: algebra_simps)
  have "b' ! i = (if line * w * 2 \<le> i \<and> i < (line + Suc n) * w * 2 then buf ! (i + 2 * w) else buf ! i)"
    if i: "i < length buf" for i
  proof (cases "Suc line * w * 2 \<le> i \<and> i < (Suc line + n) * w * 2")
    case True
    have "i + 2 * w < (line + Suc n + 1) * w * 2" using True by (simp add: algebra_simps)
    then have "i + 2 * w < length buf" using Suc.prems by linarith
    then have "b ! (i + 2 * w) = buf ! (i + 2 * w)" using b(3) [of "i + 2 * w"] True m by auto
    moreover have "line * w * 2 \<le> i" using True by (simp add: algebra_simps)
    ultimately show ?thesis using b'(3) [of i] True i b(2) m by auto
  next
    case False
    then have eq: "b' ! i = b ! i" using b'(3) [of i] i b(2) by auto
    show ?thesis
    proof (cases "i < Suc line * w * 2")
      case True
      then have "i < (line + Suc n) * w * 2" by (rule less_le_trans) (simp add: algebra_simps)
      then show ?thesis using eq b(3) [OF i] True m(1) by presburger
    next
      case not_here: False
      then have "\<not> i < (line + Suc n) * w * 2" using False m(2) by simp
      then show ?thesis using eq b(3) [OF i] not_here m(1) by presburger
    qed
  qed
  then show ?case using b b' by auto
qed

text \<open>The scroll moves every line up by one and leaves a blank last line.\<close>

lemma scroll_ok:
  assumes "0 < ws_row ws" and "length (t_buffer t) = unat (ws_row ws) * unat (ws_col ws) * 2"
  shows "ok (terminal_scroll_up ws t) (\<lambda>t'.
    t_buffer t' = drop (2 * unat (ws_col ws)) (t_buffer t) @
      concat (replicate (unat (ws_col ws)) [0, t_color t]) \<and>
    t_current_line t' = t_current_line t \<and> t_current_column t' = t_current_column t \<and>
    t_disabled t' = t_disabled t \<and> t_color t' = t_color t)"
proof -
  let ?w = "unat (ws_col ws)" and ?h = "unat (ws_row ws)" and ?buf = "t_buffer t"
  have h: "1 \<le> ?h" using assms(1) by (simp add: word_less_nat_alt)
  let ?n = "?h - 1"
  have hn: "?h = ?n + 1" using h by simp
  have len: "length ?buf = (?n + 1) * ?w * 2" using assms(2) hn by simp
  obtain b where b: "scroll_lines ?buf ?w 0 ?n = Some b" "length b = length ?buf"
      "\<And>i. i < length ?buf \<Longrightarrow> b ! i = (if i < ?n * ?w * 2 then ?buf ! (i + 2 * ?w) else ?buf ! i)"
    using scroll_lines_ok [of 0 ?n ?w ?buf] len by (auto simp: ok_iff)
  let ?k = "?n * ?w * 2"
  have off: "cell_offset ws (row_i ws - 1) 0 = int ?k"
    using h by (simp add: cell_offset_def row_i_def col_i_def of_nat_diff)
  have blank: "blank_cells b (t_color t) (int ?k) ?w =
      Some (take ?k b @ concat (replicate ?w [0, t_color t]) @ drop (?k + 2 * ?w) b)"
    using b(2) len by (intro blank_cells_ok) (simp add: algebra_simps)
  have rest: "drop (?k + 2 * ?w) b = []" using b(2) len by (simp add: algebra_simps)
  have "take ?k b = drop (2 * ?w) ?buf"
  proof (rule nth_equalityI)
    show l: "length (take ?k b) = length (drop (2 * ?w) ?buf)" using b(2) len by (simp add: algebra_simps)
    fix i assume "i < length (take ?k b)"
    then have "i < ?k" "i + 2 * ?w < length ?buf" using b(2) len by (auto simp: algebra_simps)
    then show "take ?k b ! i = drop (2 * ?w) ?buf ! i" using b(3) [of i] by (simp add: add.commute)
  qed
  then show ?thesis using b(1) blank rest off
    by (simp add: terminal_scroll_up_def Let_def)
qed

lemma length_blank: "length (concat (replicate n [a, b])) = 2 * n"
  by (induction n) auto

lemma scroll_term_ok:
  assumes "term_ok ws t"
  shows "ok (terminal_scroll_up ws t) (\<lambda>t'. term_ok ws t' \<and> t_disabled t' = t_disabled t \<and>
    t_current_line t' = t_current_line t \<and> t_current_column t' = t_current_column t)"
proof -
  have "1 \<le> unat (ws_row ws)" using assms by (simp add: term_ok_def word_less_nat_alt)
  then have "2 * unat (ws_col ws) \<le> unat (ws_row ws) * unat (ws_col ws) * 2"
    by (simp add: Suc_le_eq)
  then show ?thesis
    using scroll_ok [of ws t] assms by (auto simp: term_ok_def length_blank elim!: ok_mono)
qed

lemma move_cursor_ok:
  assumes "term_ok ws t"
  shows "term_ok ws (terminal_move_cursor ws t line column)"
    and "t_disabled (terminal_move_cursor ws t line column) = t_disabled t"
    and "t_buffer (terminal_move_cursor ws t line column) = t_buffer t"
    and "t_color (terminal_move_cursor ws t line column) = t_color t"
proof -
  have "x - 1 < x" if "0 < x" for x :: u16
    using that by (simp add: word_less_nat_alt unat_minus1 [OF that])
  then show "term_ok ws (terminal_move_cursor ws t line column)"
    using assms by (auto simp: term_ok_def terminal_move_cursor_def Let_def not_le)
qed (simp_all add: terminal_move_cursor_def Let_def)

lemma cursor_cell:
  assumes "term_ok ws t"
  shows "(unat (t_current_line t) * unat (ws_col ws) + unat (t_current_column t)) * 2 + 1 < length (t_buffer t)"
proof -
  let ?l = "unat (t_current_line t)" and ?c = "unat (t_current_column t)" and ?w = "unat (ws_col ws)"
    and ?h = "unat (ws_row ws)"
  have "?l + 1 \<le> ?h" "?c + 1 \<le> ?w" using assms by (auto simp: term_ok_def word_less_nat_alt)
  then have "(?l + 1) * ?w \<le> ?h * ?w" by (simp only: mult_le_mono1)
  then have "?l * ?w + ?c + 1 \<le> ?h * ?w" using \<open>?c + 1 \<le> ?w\<close> by simp
  then show ?thesis using assms by (simp add: term_ok_def)
qed

lemma write_cell_ok:
  assumes "term_ok ws t"
  shows "ok (write_cell ws t c) (\<lambda>t'. term_ok ws t' \<and> t_disabled t' = t_disabled t \<and>
    t_current_line t' = t_current_line t \<and> t_current_column t' = t_current_column t \<and>
    (let i = (unat (t_current_line t) * unat (ws_col ws) + unat (t_current_column t)) * 2
     in t_buffer t' = (t_buffer t)[i := c, i + 1 := t_color t]))"
proof -
  let ?i = "(unat (t_current_line t) * unat (ws_col ws) + unat (t_current_column t)) * 2"
  have off: "cell_offset ws (int (unat (t_current_line t))) (int (unat (t_current_column t))) = int ?i"
    by (simp add: cell_offset_def col_i_def)
  have "put_at (t_buffer t) (int ?i) c = Some ((t_buffer t)[?i := c])"
    "put_at ((t_buffer t)[?i := c]) (int ?i + 1) (t_color t) = Some ((t_buffer t)[?i := c, ?i + 1 := t_color t])"
    using cursor_cell [OF assms] put_at_nat [of _ ?i] put_at_nat [of "(t_buffer t)[?i := c]" "?i + 1"]
    by (auto simp: wr_def add.commute)
  then show ?thesis using assms off by (simp add: write_cell_def Let_def term_ok_def)
qed

lemma put_character_ok:
  assumes "term_ok ws t"
  shows "ok (terminal_put_character ws t c) (\<lambda>t'. term_ok ws t' \<and> t_disabled t' = t_disabled t)"
proof -
  have scr: "ok (if P then terminal_scroll_up ws (terminal_move_cursor ws u l k) else Some u)
      (\<lambda>t'. term_ok ws t' \<and> t_disabled t' = t_disabled t)"
    if "term_ok ws u" "t_disabled u = t_disabled t" for P u l k
    using that scroll_term_ok [OF move_cursor_ok(1) [OF that(1)], of l k] move_cursor_ok(2) [OF that(1)]
    by (auto elim!: ok_mono)
  have disp: "term_ok ws (display u x) = term_ok ws u" for u x by (simp add: term_ok_def)
  have nl: "ok (put_newline ws t) (\<lambda>t'. term_ok ws t' \<and> t_disabled t' = t_disabled t)"
    unfolding put_newline_def Let_def ok_bind
    by (rule ok_mono [OF scr]) (use assms move_cursor_ok in auto)
  have wc: "ok (write_cell ws (terminal_move_cursor ws t l k) x) (\<lambda>t'. term_ok ws t' \<and> t_disabled t' = t_disabled t)"
    for l k x
    using write_cell_ok [OF move_cursor_ok(1) [OF assms], of l k x] move_cursor_ok(2) [OF assms]
    by (auto elim!: ok_mono)
  have pp: "ok (put_printing ws t c) (\<lambda>t'. term_ok ws t' \<and> t_disabled t' = t_disabled t)"
    unfolding put_printing_def Let_def ok_bind
  proof (rule ok_mono [OF scr])
    show "term_ok ws (if ws_col ws \<le> t_current_column t then terminal_move_cursor ws t (t_current_line t + 1) 0 else t)"
      "t_disabled (if ws_col ws \<le> t_current_column t then terminal_move_cursor ws t (t_current_line t + 1) 0 else t) =
        t_disabled t"
      using assms move_cursor_ok [OF assms] by auto
    fix u assume u: "term_ok ws u \<and> t_disabled u = t_disabled t"
    then show "ok (write_cell ws u c) (\<lambda>x. ok (Some (terminal_move_cursor ws
        (display x (AddCharacter (t_current_line x) (t_current_column x) c))
        (t_current_line (display x (AddCharacter (t_current_line x) (t_current_column x) c)))
        (t_current_column (display x (AddCharacter (t_current_line x) (t_current_column x) c)) + 1)))
        (\<lambda>t'. term_ok ws t' \<and> t_disabled t' = t_disabled t))"
      using write_cell_ok [of ws u c] by (auto simp: disp move_cursor_ok elim!: ok_mono)
  qed
  show ?thesis
    unfolding terminal_put_character_def
    using assms nl wc pp move_cursor_ok [OF assms] by auto
qed

lemma put_text_loop_ok:
  assumes "term_ok ws t" and "i < length cs \<or> 0 \<in> set cs"
  shows "ok (put_text_loop ws t cs i) (\<lambda>t'. term_ok ws t' \<and> t_disabled t' = t_disabled t)"
  using assms
proof (induction cs arbitrary: t i)
  case Nil
  then show ?case by simp
next
  case (Cons c cs)
  show ?case
  proof (cases "c \<noteq> 0 \<and> 0 < i")
    case True
    obtain t' where t': "terminal_put_character ws t c = Some t'" "term_ok ws t'" "t_disabled t' = t_disabled t"
      using put_character_ok [OF Cons.prems(1), of c] by (auto simp: ok_iff)
    have "i - 1 < length cs \<or> 0 \<in> set cs" using Cons.prems(2) True by auto
    from Cons.IH [OF t'(2) this] show ?thesis using True t' by simp
  next
    case False
    then show ?thesis using Cons.prems by auto
  qed
qed

lemma create_ok:
  assumes "0 < ws_row ws" and "0 < ws_col ws"
    and "length kmalloc_buffer = unat (ws_row ws) * unat (ws_col ws) * 2"
  shows "ok (terminal_create ws kmalloc_buffer) (\<lambda>t. term_ok ws t \<and>
    t_buffer t = concat (replicate (unat (ws_row ws) * unat (ws_col ws)) [0, 0x0A]) \<and> \<not> t_disabled t \<and>
    t_current_line t = 0 \<and> t_current_column t = 0)"
proof -
  have "blank_cells kmalloc_buffer 0x0A 0 (unat (ws_row ws) * unat (ws_col ws)) =
      Some (concat (replicate (unat (ws_row ws) * unat (ws_col ws)) [0, 0x0A]))"
    using blank_cells_ok [of 0 "unat (ws_row ws) * unat (ws_col ws)" kmalloc_buffer "0x0A"] assms(3)
    by (simp add: mult.commute)
  moreover have "ws_row ws \<noteq> 0" "ws_col ws \<noteq> 0" using assms(1,2) by auto
  ultimately show ?thesis using assms
    by (simp add: terminal_create_def terminal_clear_def terminal_move_cursor_def term_ok_def
        length_blank not_le)
qed

section \<open>The interface of a character sink\<close>

text \<open>
  What the tty relies on when it hands its output to the terminal: an operation that keeps
  an invariant never faults on one. Then no text can make it fault.
\<close>

locale character_sink =
  fixes sink_ok :: "'t \<Rightarrow> bool"
    and put :: "'t \<Rightarrow> u8 \<Rightarrow> 't option"
  assumes put_ok: "sink_ok t \<Longrightarrow> ok (put t c) sink_ok"

fun put_all :: "('t \<Rightarrow> u8 \<Rightarrow> 't option) \<Rightarrow> 't \<Rightarrow> u8 list \<Rightarrow> 't option" where
  "put_all put t [] = Some t"
| "put_all put t (c # cs) = do { t' \<leftarrow> put t c; put_all put t' cs }"

context character_sink begin

lemma put_all_ok: "sink_ok t \<Longrightarrow> ok (put_all put t cs) sink_ok"
proof (induction cs arbitrary: t)
  case (Cons c cs)
  obtain t' where "put t c = Some t'" "sink_ok t'" using put_ok [OF Cons.prems, of c] by (auto simp: ok_iff)
  then show ?case using Cons.IH by simp
qed simp

end

interpretation tm: character_sink "term_ok ws" "terminal_put_character ws" for ws
  by unfold_locales (auto intro: ok_mono [OF put_character_ok])

section \<open>Properties\<close>

text \<open>
  C32: whatever text is written, the terminal never writes outside its cell buffer and the
  cursor stays inside the window: from a well-formed terminal every call of
  \<^verbatim>\<open>terminal_put_text\<close> returns and leaves a well-formed terminal of the same size.
\<close>

theorem terminal_put_text_safe:
  assumes "term_ok ws t" and "unat sz < length cs \<or> 0 \<in> set cs"
  shows "\<exists>t'. terminal_put_text ws t cs sz = Some t' \<and> term_ok ws t'"
  using put_text_loop_ok [OF assms] assms(1) by (auto simp: terminal_put_text_def ok_iff)

definition sample_terminal :: terminal_t where
  "sample_terminal = \<lparr>t_buffer = [0, 0, 0, 0, 0, 0, 0, 0, 0, 0, 0, 0], t_current_line = 0, t_current_column = 0,
     t_color = 10, t_disabled = False, t_active = True, t_display = True, t_calls = []\<rparr>"

definition sample_window :: winsize_t where
  "sample_window = \<lparr>ws_row = 3, ws_col = 2, ws_xpixel = 0, ws_ypixel = 0\<rparr>"

lemma sample_term_ok: "term_ok sample_window sample_terminal"
  by (simp add: term_ok_def sample_window_def sample_terminal_def)

theorem terminal_put_text_safe_witness:
  "\<exists>t'. terminal_put_text sample_window sample_terminal [104, 105, 10, 8, 8, 8, 33, 0] 100 = Some t' \<and>
     term_ok sample_window t'"
  by (rule terminal_put_text_safe [OF sample_term_ok]) simp

text \<open>
  \<^verbatim>\<open>terminal_scroll_up\<close> moves every line up by one, drops the first and leaves the last
  line blank in the terminal's colour; the cell-by-cell copy in place loses nothing.
\<close>

theorem terminal_scroll_up_correct:
  assumes "term_ok ws t"
  shows "\<exists>t'. terminal_scroll_up ws t = Some t' \<and> term_ok ws t' \<and>
    t_buffer t' = drop (2 * unat (ws_col ws)) (t_buffer t) @
      concat (replicate (unat (ws_col ws)) [0, t_color t])"
  using scroll_ok [of ws t] scroll_term_ok [OF assms] assms by (auto simp: ok_iff term_ok_def)

theorem terminal_scroll_up_correct_witness:
  "\<exists>t'. terminal_scroll_up sample_window (sample_terminal\<lparr>t_buffer := [1, 2, 3, 4, 5, 6, 7, 8, 9, 10, 11, 12]\<rparr>) =
     Some t' \<and> t_buffer t' = [5, 6, 7, 8, 9, 10, 11, 12, 0, 10, 0, 10]"
proof -
  let ?t = "sample_terminal\<lparr>t_buffer := [1, 2, 3, 4, 5, 6, 7, 8, 9, 10, 11, 12]\<rparr>"
  have "term_ok sample_window ?t" by (simp add: term_ok_def sample_window_def sample_terminal_def)
  moreover have "concat (replicate 2 [0, 10 :: u8]) = [0, 10, 0, 10]" by (simp add: numeral_2_eq_2)
  ultimately show ?thesis
    using terminal_scroll_up_correct [of sample_window ?t]
    by (auto simp: sample_window_def sample_terminal_def)
qed

text \<open>
  A printing character above the last line is stored in the cell under the cursor and
  nothing else changes in the buffer; the cursor moves right but not past the last column, so
  a line that is too long does not wrap: its further characters overwrite the last cell.
\<close>

theorem terminal_print_character:
  assumes "term_ok ws t" and "\<not> t_disabled t" and "c \<notin> {8, 10, 13}"
    and "unat (t_current_line t) + 1 < unat (ws_row ws)"
  shows "\<exists>t'. terminal_put_character ws t c = Some t' \<and>
    t_current_line t' = t_current_line t \<and>
    unat (t_current_column t') = min (unat (t_current_column t) + 1) (unat (ws_col ws) - 1) \<and>
    (let i = (unat (t_current_line t) * unat (ws_col ws) + unat (t_current_column t)) * 2
     in t_buffer t' = (t_buffer t)[i := c, i + 1 := t_color t])"
proof -
  have ok1: "t_current_column t < ws_col ws" "t_current_line t < ws_row ws" "0 < ws_col ws"
    using assms(1) by (auto simp: term_ok_def)
  obtain t3 where t3: "write_cell ws t c = Some t3" "t_disabled t3 = t_disabled t"
      "t_current_line t3 = t_current_line t" "t_current_column t3 = t_current_column t"
      "let i = (unat (t_current_line t) * unat (ws_col ws) + unat (t_current_column t)) * 2
       in t_buffer t3 = (t_buffer t)[i := c, i + 1 := t_color t]"
    using write_cell_ok [OF assms(1), of c] by (auto simp: ok_iff)
  let ?t4 = "display t3 (AddCharacter (t_current_line t3) (t_current_column t3) c)"
  let ?t' = "terminal_move_cursor ws ?t4 (t_current_line t3) (t_current_column t3 + 1)"
  have inside: "\<not> ws_col ws \<le> t_current_column t" using ok1(1) by (simp add: not_le)
  have above: "\<not> row_i ws - 1 \<le> int (unat (t_current_line t))"
    unfolding row_i_def using assms(4) by linarith
  have "terminal_put_character ws t c = Some ?t'"
    using assms(2,3) inside t3(1) above
    by (simp add: terminal_put_character_def put_printing_def)
  moreover have "unat (t_current_column t + 1) = unat (t_current_column t) + 1"
    using unat_plus1_less [OF ok1(1)] by simp
  then have "unat (t_current_column ?t') = min (unat (t_current_column t) + 1) (unat (ws_col ws) - 1)"
    using assms(2) t3 ok1 unat_minus1 [OF ok1(3)]
    by (auto simp: terminal_move_cursor_def Let_def word_le_nat_alt word_less_nat_alt)
  moreover have "t_current_line ?t' = t_current_line t" "t_buffer ?t' = t_buffer t3"
    using assms(2) t3(1-4) ok1(2) by (auto simp: terminal_move_cursor_def Let_def)
  ultimately show ?thesis using t3(5) by simp
qed

theorem terminal_print_character_witness:
  "\<exists>t'. terminal_put_character sample_window (sample_terminal\<lparr>t_current_column := 1\<rparr>) 65 = Some t' \<and>
     unat (t_current_column t') = 1 \<and> t_buffer t' = [0, 0, 65, 10, 0, 0, 0, 0, 0, 0, 0, 0]"
proof -
  let ?t = "sample_terminal\<lparr>t_current_column := 1\<rparr>"
  have "term_ok sample_window ?t" by (simp add: term_ok_def sample_window_def sample_terminal_def)
  moreover have "[0, 0, 0, 0, 0, 0, 0, 0, 0, 0, 0, 0 :: u8][2 := 65, 3 := 10] =
      [0, 0, 65, 10, 0, 0, 0, 0, 0, 0, 0, 0]"
    by (simp add: numeral_2_eq_2 numeral_3_eq_3)
  ultimately show ?thesis
    using terminal_print_character [of sample_window ?t 65]
    by (auto simp: sample_window_def sample_terminal_def Let_def)
qed

end
