(* ===== verification/Process.thy ===== *)
theory Process
  imports Message KHeap
begin

text \<open>
  \<^verbatim>\<open>kernel/process.c\<close>, \<^verbatim>\<open>kernel/timer.c\<close>, \<^verbatim>\<open>kernel/sleep.c\<close> and the wait part of
  \<^verbatim>\<open>kernel/syscall_select.c\<close>: threads, processes, file descriptor tables, signals and the scheduler.

  Threads and processes are objects at addresses. The thread list of the code (\<^verbatim>\<open>g_first_thread\<close>
  and the \<^verbatim>\<open>next\<close> pointers) is a list of thread records in that order; the pointers to processes
  and files are addresses into maps. Calls into other components whose state is not the process
  table's (memory, shared memory, closing of files) are recorded in order in \<open>k_calls\<close>.
\<close>

section \<open>Data\<close>

datatype thread_state_t = TS_RUN | TS_WAITIO | TS_WAITCHILD | TS_SLEEP | TS_SELECT | TS_SUSPEND
  | TS_CRITICAL | TS_UNINTERRUPTIBLE | TS_DEAD

datatype SelectState = SS_NOTSTARTED | SS_STARTED | SS_FINISHED | SS_ERROR

type_synonym fd_set = "nat \<Rightarrow> bool"

record select_t =
  sel_nfds :: i32
  sel_read_set :: fd_set
  sel_write_set :: fd_set
  sel_read_set_result :: fd_set
  sel_write_set_result :: fd_set
  sel_target_time :: "64 word"
  sel_state :: SelectState
  sel_result :: i32

record regs_t =
  r_eax :: u32
  r_ecx :: u32
  r_edx :: u32
  r_ebx :: u32
  r_esp :: u32
  r_ebp :: u32
  r_esi :: u32
  r_edi :: u32
  r_eip :: u32
  r_eflags :: u32
  r_cs :: u16
  r_ss :: u16
  r_ds :: u16
  r_es :: u16
  r_fs :: u16
  r_gs :: u16
  r_cr3 :: u32

text \<open>The message queue and its lock are the fields of \<open>msg_thread\<close>.\<close>

record Thread = msg_thread +
  th_addr :: ptr
  threadId :: u32
  th_regs :: regs_t
  th_esp0 :: u32
  th_ss0 :: u16
  th_stack_start :: u32
  th_select :: select_t
  user_mode :: u32
  th_signals :: FifoBuffer
  pending_signal_count :: u32
  th_state :: thread_state_t
  state_privateData :: u32
  th_owner :: ptr
  birth_time :: u32
  context_switch_count :: u32
  context_start_time :: u32
  context_end_time :: u32
  consumed_cpu_time_ms :: u32
  consumed_cpu_time_ms_at_prev_mark :: u32
  usage_cpu :: u32

text \<open>The program break and the bitmap of mapped memory are the fields of \<open>brk_process\<close>.\<close>

record Process = brk_process +
  p_name :: "u8 list"
  p_pid :: u32
  p_pd :: u32
  p_tty :: ptr
  p_working_directory :: ptr
  p_parent :: ptr
  p_fd :: "ptr list"

record File =
  f_node :: ptr
  f_process :: ptr
  f_thread :: ptr
  f_fd :: i32
  f_flags :: u32
  f_offset :: i32
  f_private_data :: ptr

record TimerInt_Registers =
  ti_gs :: u32
  ti_fs :: u32
  ti_es :: u32
  ti_ds :: u32
  ti_edi :: u32
  ti_esi :: u32
  ti_ebp :: u32
  ti_esp :: u32
  ti_ebx :: u32
  ti_edx :: u32
  ti_ecx :: u32
  ti_eax :: u32
  ti_eip :: u32
  ti_cs :: u32
  ti_eflags :: u32
  ti_esp_if_privilege_change :: u32
  ti_ss_if_privilege_change :: u32

definition ASTERISK_MAX_OPENED_FILES :: nat where "ASTERISK_MAX_OPENED_FILES = 20"
definition MESSAGE_QUEUE_SIZE :: u32 where "MESSAGE_QUEUE_SIZE = 64"
definition SIGNAL_QUEUE_SIZE :: u32 where "SIGNAL_QUEUE_SIZE = 64"
definition SIGNAL_COUNT :: u8 where "SIGNAL_COUNT = 32"

datatype kernel_call =
    SharedMemoryUnmapAll ptr
  | FreeMemory ptr
  | DestroyFifos ptr
  | CloseFile ptr
  | DestroyPageDirectory u32

record kernel_state =
  k_threads :: "Thread list"
  k_current :: ptr
  k_previous :: ptr
  k_procs :: "ptr \<Rightarrow> Process option"
  k_files :: "ptr \<Rightarrow> File option"
  k_kernel_process :: ptr
  k_process_id_generator :: u32
  k_thread_id_generator :: u32
  k_context_switch_count :: u32
  k_usage_mark_point :: u32
  k_tick_count :: "64 word"
  k_date_ms :: "64 word"
  k_scheduler_enabled :: bool
  k_tss_ss0 :: u16
  k_tss_esp0 :: u32
  k_irq :: irq_state
  k_calls :: "kernel_call list"

definition call :: "kernel_state \<Rightarrow> kernel_call list \<Rightarrow> kernel_state" where
  "call k cs = k\<lparr>k_calls := k_calls k @ cs\<rparr>"

definition addrs :: "kernel_state \<Rightarrow> ptr list" where
  "addrs k = map th_addr (k_threads k)"

text \<open>Reading and writing a thread through a pointer; a pointer to no thread is a fault.\<close>

definition get_thread :: "kernel_state \<Rightarrow> ptr \<Rightarrow> Thread option" where
  "get_thread k a = List.find (\<lambda>t. th_addr t = a) (k_threads k)"

definition put_thread :: "kernel_state \<Rightarrow> Thread \<Rightarrow> kernel_state" where
  "put_thread k t =
     k\<lparr>k_threads := map (\<lambda>u. if th_addr u = th_addr t then t else u) (k_threads k)\<rparr>"

section \<open>Time\<close>

definition get_uptime_milliseconds :: "kernel_state \<Rightarrow> u32" where
  "get_uptime_milliseconds k = ucast (k_tick_count k)"

definition get_uptime_milliseconds64 :: "kernel_state \<Rightarrow> 64 word" where
  "get_uptime_milliseconds64 k = k_tick_count k"

definition get_uptime_seconds :: "kernel_state \<Rightarrow> u32" where
  "get_uptime_seconds k = ucast (k_tick_count k) div 1000"

section \<open>Identifiers and thread states\<close>

definition generate_process_id :: "kernel_state \<Rightarrow> kernel_state \<times> u32" where
  "generate_process_id k =
     (k\<lparr>k_process_id_generator := k_process_id_generator k + 1\<rparr>, k_process_id_generator k)"

definition generate_thread_id :: "kernel_state \<Rightarrow> kernel_state \<times> u32" where
  "generate_thread_id k =
     (k\<lparr>k_thread_id_generator := k_thread_id_generator k + 1\<rparr>, k_thread_id_generator k)"

definition thread_change_state :: "Thread \<Rightarrow> thread_state_t \<Rightarrow> u32 \<Rightarrow> Thread" where
  "thread_change_state t state private_data =
     t\<lparr>th_state := state, state_privateData := private_data\<rparr>"

definition thread_resume :: "Thread \<Rightarrow> Thread" where
  "thread_resume t = t\<lparr>th_state := TS_RUN, state_privateData := 0\<rparr>"

definition process_change_state :: "kernel_state \<Rightarrow> ptr \<Rightarrow> thread_state_t \<Rightarrow> kernel_state" where
  "process_change_state k process state =
     k\<lparr>k_threads := map (\<lambda>t. if th_owner t = process then thread_change_state t state 0 else t)
         (k_threads k)\<rparr>"

definition state_name :: "thread_state_t \<Rightarrow> u8 list" where
  "state_name state = map ch (case state of
     TS_RUN \<Rightarrow> ''run'' | TS_SLEEP \<Rightarrow> ''sleep'' | TS_SUSPEND \<Rightarrow> ''suspend'' | TS_WAITCHILD \<Rightarrow> ''waitchild''
   | TS_WAITIO \<Rightarrow> ''waitio'' | TS_SELECT \<Rightarrow> ''select'' | TS_CRITICAL \<Rightarrow> ''critical'' | TS_DEAD \<Rightarrow> ''dead''
   | TS_UNINTERRUPTIBLE \<Rightarrow> ''uninterruptible'')"

definition thread_state_to_string :: "thread_state_t \<Rightarrow> u8 list \<Rightarrow> u32 \<Rightarrow> u8 list option" where
  "thread_state_to_string state buffer buffer_size =
     (if buffer_size < 1 then Some buffer
      else do {
        b \<leftarrow> wr buffer 0 0;
        strncpy_null b (state_name state @ [0]) buffer_size
      })"

text \<open>A sleeping thread keeps its wake-up time as its private data.\<close>

definition sleep_ms :: "kernel_state \<Rightarrow> Thread \<Rightarrow> u32 \<Rightarrow> Thread" where
  "sleep_ms k thread ms = thread_change_state thread TS_SLEEP (get_uptime_milliseconds k + ms)"

section \<open>Signals\<close>

definition thread_signal :: "Thread \<Rightarrow> u8 \<Rightarrow> (Thread \<times> bool) option" where
  "thread_signal t signal =
     (if signal < SIGNAL_COUNT then do {
        let t1 = (if signal = 18 \<and> th_state t = TS_SUSPEND then t\<lparr>th_state := TS_RUN\<rparr> else t);
        if fifobuffer_get_free (th_signals t1) > 0 then do {
          (q, n) \<leftarrow> fifobuffer_enqueue (th_signals t1) [signal] 1;
          let t2 = t1\<lparr>th_signals := q, pending_signal_count := fifobuffer_get_size q\<rparr>;
          Some (if th_state t2 = TS_WAITIO then t2\<lparr>th_state := TS_RUN\<rparr> else t2, True)
        } else Some (t1, False)
      } else Some (t, False))"

fun process_signal_loop ::
  "(ptr \<Rightarrow> Process option) \<Rightarrow> Thread list \<Rightarrow> u32 \<Rightarrow> u8 \<Rightarrow> (Thread list \<times> bool) option"
where
  "process_signal_loop procs [] pid signal = Some ([], False)"
| "process_signal_loop procs (t # ts) pid signal = do {
     p \<leftarrow> procs (th_owner t);
     if p_pid p = pid then do {
       (t', r) \<leftarrow> thread_signal t signal;
       if r then Some (t' # ts, True)
       else do { (ts', r') \<leftarrow> process_signal_loop procs ts pid signal; Some (t' # ts', r') }
     } else do { (ts', r') \<leftarrow> process_signal_loop procs ts pid signal; Some (t # ts', r') }
   }"

definition process_signal :: "kernel_state \<Rightarrow> u32 \<Rightarrow> u8 \<Rightarrow> (kernel_state \<times> bool) option" where
  "process_signal k pid signal = do {
     (ts, r) \<leftarrow> process_signal_loop (k_procs k) (k_threads k) pid signal;
     Some (k\<lparr>k_threads := ts\<rparr>, r)
   }"

section \<open>File descriptors\<close>

text \<open>The loops over the table stop at the first slot that satisfies the condition.\<close>

fun find_slot :: "('a \<Rightarrow> bool) \<Rightarrow> 'a list \<Rightarrow> nat option" where
  "find_slot P [] = None"
| "find_slot P (x # xs) = (if P x then Some 0 else map_option Suc (find_slot P xs))"

definition process_get_empty_fd :: "irq_state \<Rightarrow> Process \<Rightarrow> irq_state \<times> i32" where
  "process_get_empty_fd irq process =
     (end_critical_section (begin_critical_section irq),
      case find_slot (\<lambda>f. f = 0) (p_fd process) of Some i \<Rightarrow> of_nat i | None \<Rightarrow> - 1)"

text \<open>The file's own \<^verbatim>\<open>fd\<close> field is set as well.\<close>

definition process_add_file ::
  "irq_state \<Rightarrow> Process \<Rightarrow> ptr \<Rightarrow> File \<Rightarrow> irq_state \<times> Process \<times> File \<times> i32"
where
  "process_add_file irq process file f =
     (let irq' = end_critical_section (begin_critical_section irq)
      in case find_slot (\<lambda>g. g = 0) (p_fd process) of
           Some i \<Rightarrow> (irq', process\<lparr>p_fd := (p_fd process)[i := file]\<rparr>, f\<lparr>f_fd := of_nat i\<rparr>, of_nat i)
         | None \<Rightarrow> (irq', process, f, - 1))"

definition process_remove_file :: "irq_state \<Rightarrow> Process \<Rightarrow> ptr \<Rightarrow> irq_state \<times> Process \<times> i32" where
  "process_remove_file irq process file =
     (let irq' = end_critical_section (begin_critical_section irq)
      in case find_slot (\<lambda>g. g = file) (p_fd process) of
           Some i \<Rightarrow> (irq', process\<lparr>p_fd := (p_fd process)[i := 0]\<rparr>, of_nat i)
         | None \<Rightarrow> (irq', process, - 1))"

fun find_file_loop :: "(ptr \<Rightarrow> File option) \<Rightarrow> ptr list \<Rightarrow> ptr \<Rightarrow> ptr option" where
  "find_file_loop files [] node = Some 0"
| "find_file_loop files (a # as) node =
     (if a = 0 then find_file_loop files as node
      else do { f \<leftarrow> files a; if f_node f = node then Some a else find_file_loop files as node })"

definition process_find_file :: "(ptr \<Rightarrow> File option) \<Rightarrow> Process \<Rightarrow> ptr \<Rightarrow> ptr option" where
  "process_find_file files process node = find_file_loop files (p_fd process) node"

section \<open>The thread list\<close>

fun thread_by_id_loop :: "Thread list \<Rightarrow> u32 \<Rightarrow> ptr" where
  "thread_by_id_loop [] tid = 0"
| "thread_by_id_loop (t # ts) tid = (if threadId t = tid then th_addr t else thread_by_id_loop ts tid)"

definition thread_get_by_id :: "kernel_state \<Rightarrow> u32 \<Rightarrow> ptr" where
  "thread_get_by_id k tid = thread_by_id_loop (k_threads k) tid"

text \<open>The loop dereferences the first thread: an empty list is a fault.\<close>

fun previous_loop :: "ptr list \<Rightarrow> ptr \<Rightarrow> ptr option" where
  "previous_loop [] thread = None"
| "previous_loop [a] thread = Some 0"
| "previous_loop (a # b # as) thread = (if b = thread then Some a else previous_loop (b # as) thread)"

definition thread_get_previous :: "kernel_state \<Rightarrow> ptr \<Rightarrow> ptr option" where
  "thread_get_previous k thread = previous_loop (addrs k) thread"

definition thread_get_first :: "kernel_state \<Rightarrow> ptr" where
  "thread_get_first k = (case addrs k of [] \<Rightarrow> 0 | a # _ \<Rightarrow> a)"

definition thread_get_current :: "kernel_state \<Rightarrow> ptr" where
  "thread_get_current k = k_current k"

definition thread_is_valid :: "kernel_state \<Rightarrow> ptr \<Rightarrow> bool" where
  "thread_is_valid k thread = list_ex (\<lambda>a. a = thread) (addrs k)"

definition process_is_valid :: "kernel_state \<Rightarrow> ptr \<Rightarrow> bool" where
  "process_is_valid k process = list_ex (\<lambda>t. th_owner t = process) (k_threads k)"

section \<open>Creating kernel threads\<close>

definition zero_select :: select_t where
  "zero_select = \<lparr>sel_nfds = 0, sel_read_set = (\<lambda>_. False), sel_write_set = (\<lambda>_. False),
     sel_read_set_result = (\<lambda>_. False), sel_write_set_result = (\<lambda>_. False), sel_target_time = 0,
     sel_state = SS_NOTSTARTED, sel_result = 0\<rparr>"

definition kernel_regs :: "u32 \<Rightarrow> u32 \<Rightarrow> u32 \<Rightarrow> regs_t" where
  "kernel_regs eip esp cr3 =
     \<lparr>r_eax = 0, r_ecx = 0, r_edx = 0, r_ebx = 0, r_esp = esp, r_ebp = 0, r_esi = 0, r_edi = 0,
      r_eip = eip, r_eflags = 0, r_cs = 0x08, r_ss = 0x10, r_ds = 0x10, r_es = 0x10, r_fs = 0x10,
      r_gs = 0x10, r_cr3 = cr3\<rparr>"

text \<open>
  \<open>addr\<close> and \<open>stack\<close> are what \<^verbatim>\<open>kmalloc\<close> returned for the thread and its stack. The new
  thread is linked behind the last one reached from the current thread.
\<close>

definition new_kthread :: "kernel_state \<Rightarrow> ptr \<Rightarrow> ptr \<Rightarrow> u32 \<Rightarrow> Process \<Rightarrow> u32 \<Rightarrow> Thread" where
  "new_kthread k addr stack func owner tid =
     \<lparr>message_queue = fifobuffer_create (16 * MESSAGE_QUEUE_SIZE), message_queue_lock = spinlock_init,
      th_addr = addr, threadId = tid, th_regs = kernel_regs func (stack + 0x1000 - 4) (p_pd owner),
      th_esp0 = 0, th_ss0 = 0x10, th_stack_start = stack, th_select = zero_select, user_mode = 0,
      th_signals = fifobuffer_create SIGNAL_QUEUE_SIZE, pending_signal_count = 0, th_state = TS_RUN,
      state_privateData = 0, th_owner = k_kernel_process k, birth_time = get_uptime_milliseconds k,
      context_switch_count = 0, context_start_time = 0, context_end_time = 0, consumed_cpu_time_ms = 0,
      consumed_cpu_time_ms_at_prev_mark = 0, usage_cpu = 0\<rparr>"

definition thread_create_kthread :: "kernel_state \<Rightarrow> ptr \<Rightarrow> ptr \<Rightarrow> u32 \<Rightarrow> kernel_state option" where
  "thread_create_kthread k addr stack func = do {
     let (k1, tid) = generate_thread_id k;
     owner \<leftarrow> k_procs k1 (k_kernel_process k1);
     if k_current k1 \<in> set (addrs k1)
     then Some (k1\<lparr>k_threads := k_threads k1 @ [new_kthread k1 addr stack func owner tid]\<rparr>)
     else None
   }"

section \<open>Destroying threads and processes\<close>

definition free_thread_calls :: "Thread \<Rightarrow> kernel_call list" where
  "free_thread_calls t = [FreeMemory (th_stack_start t), DestroyFifos (th_addr t), FreeMemory (th_addr t)]"

text \<open>\<open>None\<close> is \<^verbatim>\<open>PANIC\<close> for a thread without a predecessor, or a wait for its message lock.\<close>

definition thread_destroy :: "kernel_state \<Rightarrow> ptr \<Rightarrow> kernel_state option" where
  "thread_destroy k thread = do {
     previous \<leftarrow> thread_get_previous k thread;
     if previous \<noteq> 0 then do {
       t \<leftarrow> get_thread k thread;
       l \<leftarrow> spinlock_lock [message_queue_lock t];
       let k1 = call (k\<lparr>k_threads := filter (\<lambda>u. th_addr u \<noteq> thread) (k_threads k)\<rparr>) (free_thread_calls t);
       Some (if thread = k_current k then k1\<lparr>k_current := 0\<rparr> else k1)
     } else None
   }"

text \<open>The first thread of the list is never removed: it has no predecessor.\<close>

fun destroy_threads ::
  "ptr \<Rightarrow> bool \<Rightarrow> ptr \<Rightarrow> Thread list \<Rightarrow> (Thread list \<times> ptr \<times> kernel_call list) option"
where
  "destroy_threads process has_previous current [] = Some ([], current, [])"
| "destroy_threads process has_previous current (t # ts) =
     (if process = th_owner t \<and> has_previous then do {
        l \<leftarrow> spinlock_lock [message_queue_lock t];
        (ts', cur', cs) \<leftarrow> destroy_threads process has_previous (if th_addr t = current then 0 else current) ts;
        Some (ts', cur', free_thread_calls t @ cs)
      } else do {
        (ts', cur', cs) \<leftarrow> destroy_threads process True current ts;
        Some (t # ts', cur', cs)
      })"

definition wake_parent :: "ptr \<Rightarrow> Thread list \<Rightarrow> Thread list" where
  "wake_parent parent ts =
     map (\<lambda>t. if th_owner t = parent \<and> th_state t = TS_WAITCHILD then thread_resume t else t) ts"

definition process_destroy :: "kernel_state \<Rightarrow> ptr \<Rightarrow> kernel_state option" where
  "process_destroy k process = do {
     p \<leftarrow> k_procs k process;
     (ts, cur, cs) \<leftarrow> destroy_threads process False (k_current k) (k_threads k);
     let ts' = (if p_parent p \<noteq> 0 then wake_parent (p_parent p) ts else ts);
     Some (call (k\<lparr>k_threads := ts', k_current := cur, k_procs := (k_procs k)(process := None)\<rparr>)
       (SharedMemoryUnmapAll process # cs @ map CloseFile (filter (\<lambda>f. f \<noteq> 0) (p_fd p)) @
        [FreeMemory process, DestroyPageDirectory (p_pd p)]))
   }"

section \<open>Waiting in select\<close>

text \<open>
  \<open>rready\<close> and \<open>wready\<close> are the answers of the open files' \<^verbatim>\<open>read_test_ready\<close> and
  \<^verbatim>\<open>write_test_ready\<close> functions (false where the node has none).
\<close>

fun select_loop ::
  "(ptr \<Rightarrow> bool) \<Rightarrow> (ptr \<Rightarrow> bool) \<Rightarrow> nat \<Rightarrow> ptr list \<Rightarrow> select_t \<Rightarrow> nat \<Rightarrow> select_t \<times> nat"
where
  "select_loop rready wready fd [] sel ready = (sel, ready)"
| "select_loop rready wready fd (file # files) sel ready =
     (let (sel1, n1) = (if file \<noteq> 0 \<and> sel_read_set sel fd \<and> rready file
                        then (sel\<lparr>sel_read_set_result := (sel_read_set_result sel)(fd := True)\<rparr>, Suc ready)
                        else (sel, ready));
          (sel2, n2) = (if file \<noteq> 0 \<and> sel_write_set sel1 fd \<and> wready file
                        then (sel1\<lparr>sel_write_set_result := (sel_write_set_result sel1)(fd := True)\<rparr>, Suc n1)
                        else (sel1, n1))
      in select_loop rready wready (Suc fd) files sel2 n2)"

definition select_update ::
  "(ptr \<Rightarrow> bool) \<Rightarrow> (ptr \<Rightarrow> bool) \<Rightarrow> kernel_state \<Rightarrow> Thread \<Rightarrow> Thread option"
where
  "select_update rready wready k t = do {
     p \<leftarrow> k_procs k (th_owner t);
     let count = min (unat (sel_nfds (th_select t))) ASTERISK_MAX_OPENED_FILES;
     let (sel, total_ready) = select_loop rready wready 0 (take count (p_fd p)) (th_select t) 0;
     let sel' = (if total_ready > 0 then sel\<lparr>sel_result := of_nat total_ready, sel_state := SS_FINISHED\<rparr>
                 else if sel_target_time sel > 0 \<and> get_uptime_milliseconds64 k > sel_target_time sel
                 then sel\<lparr>sel_result := 0, sel_state := SS_FINISHED\<rparr> else sel);
     Some (t\<lparr>th_select := sel'\<rparr>)
   }"

section \<open>The scheduler\<close>

definition update_usage :: "Thread \<Rightarrow> Thread" where
  "update_usage t =
     (let consumed_from_mark = consumed_cpu_time_ms t - consumed_cpu_time_ms_at_prev_mark t
      in t\<lparr>usage_cpu := (100 * consumed_from_mark) div 1000,
           consumed_cpu_time_ms_at_prev_mark := consumed_cpu_time_ms t\<rparr>)"

definition thread_update_usage_metrics :: "kernel_state \<Rightarrow> kernel_state" where
  "thread_update_usage_metrics k =
     (if get_uptime_seconds k > k_usage_mark_point k
      then k\<lparr>k_usage_mark_point := get_uptime_seconds k, k_threads := map update_usage (k_threads k)\<rparr>
      else k)"

definition thread_update_state ::
  "(ptr \<Rightarrow> bool) \<Rightarrow> (ptr \<Rightarrow> bool) \<Rightarrow> kernel_state \<Rightarrow> Thread \<Rightarrow> Thread option"
where
  "thread_update_state rready wready k t =
     (if th_state t = TS_SLEEP then
        Some (if get_uptime_milliseconds k \<ge> state_privateData t then thread_resume t else t)
      else if th_state t = TS_SELECT then do {
        t' \<leftarrow> select_update rready wready k t;
        Some (if sel_state (th_select t') = SS_FINISHED then thread_resume t' else t')
      } else Some t)"

text \<open>One of the two search loops, over the addresses it visits.\<close>

fun look_loop ::
  "(ptr \<Rightarrow> bool) \<Rightarrow> (ptr \<Rightarrow> bool) \<Rightarrow> kernel_state \<Rightarrow> ptr list \<Rightarrow> (kernel_state \<times> ptr option) option"
where
  "look_loop rready wready k [] = Some (k, None)"
| "look_loop rready wready k (a # as) = do {
     t \<leftarrow> get_thread k a;
     t' \<leftarrow> thread_update_state rready wready k t;
     let k' = put_thread k t';
     if th_state t' = TS_RUN then Some (k', Some a) else look_loop rready wready k' as
   }"

definition look_threads ::
  "(ptr \<Rightarrow> bool) \<Rightarrow> (ptr \<Rightarrow> bool) \<Rightarrow> kernel_state \<Rightarrow> ptr \<Rightarrow> (kernel_state \<times> ptr) option"
where
  "look_threads rready wready k current =
     (if current \<in> set (addrs k) then do {
        (k1, found) \<leftarrow> look_loop rready wready k (tl (dropWhile (\<lambda>a. a \<noteq> current) (addrs k)));
        case found of
          Some a \<Rightarrow> Some (k1, a)
        | None \<Rightarrow>
            if current = thread_get_first k1 then Some (k1, thread_get_first k1)
            else do {
              (k2, found2) \<leftarrow> look_loop rready wready k1
                 (takeWhile (\<lambda>a. a \<noteq> current) (tl (addrs k1)) @ [current]);
              Some (k2, case found2 of Some a \<Rightarrow> a | None \<Rightarrow> thread_get_first k2)
            }
      } else None)"

definition end_context :: "kernel_state \<Rightarrow> TimerInt_Registers \<Rightarrow> Thread \<Rightarrow> Thread" where
  "end_context k registers t =
     (let now = get_uptime_milliseconds k;
          r = (th_regs t)\<lparr>r_eflags := ti_eflags registers, r_cs := ucast (ti_cs registers),
                r_eip := ti_eip registers, r_eax := ti_eax registers, r_ecx := ti_ecx registers,
                r_edx := ti_edx registers, r_ebx := ti_ebx registers, r_ebp := ti_ebp registers,
                r_esi := ti_esi registers, r_edi := ti_edi registers, r_ds := ucast (ti_ds registers),
                r_es := ucast (ti_es registers), r_fs := ucast (ti_fs registers),
                r_gs := ucast (ti_gs registers)\<rparr>;
          r' = (if r_cs r \<noteq> 0x08
                then r\<lparr>r_esp := ti_esp_if_privilege_change registers,
                       r_ss := ucast (ti_ss_if_privilege_change registers)\<rparr>
                else r\<lparr>r_esp := ti_esp registers + 12, r_ss := k_tss_ss0 k\<rparr>)
      in t\<lparr>context_end_time := now,
           consumed_cpu_time_ms := consumed_cpu_time_ms t + (now - context_start_time t),
           th_regs := r', th_ss0 := k_tss_ss0 k, th_esp0 := k_tss_esp0 k\<rparr>)"

text \<open>What \<^verbatim>\<open>thread_switch_to\<close> loads and pushes before it jumps to the assembly that resumes the thread.\<close>

record switch_frame =
  sf_thread :: ptr
  sf_kss :: u16
  sf_kesp :: u32
  sf_user_stack :: "(u16 \<times> u32) option"
  sf_eflags :: u32
  sf_cs :: u16
  sf_eip :: u32

definition thread_switch_to :: "kernel_state \<Rightarrow> Thread \<Rightarrow> bool \<Rightarrow> kernel_state \<times> switch_frame" where
  "thread_switch_to k t usermode =
     (k\<lparr>k_tss_ss0 := th_ss0 t, k_tss_esp0 := th_esp0 t\<rparr>,
      \<lparr>sf_thread = th_addr t,
       sf_kss = (if usermode then th_ss0 t else r_ss (th_regs t)),
       sf_kesp = (if usermode then th_esp0 t else r_esp (th_regs t)),
       sf_user_stack = (if usermode then Some (r_ss (th_regs t), r_esp (th_regs t)) else None),
       sf_eflags = (r_eflags (th_regs t) OR 0x200) AND 0xFFFFBFFF,
       sf_cs = r_cs (th_regs t), sf_eip = r_eip (th_regs t)\<rparr>)"

definition start_context :: "kernel_state \<Rightarrow> ptr \<Rightarrow> (kernel_state \<times> switch_frame) option" where
  "start_context k thread = do {
     t \<leftarrow> get_thread k thread;
     let t' = t\<lparr>context_start_time := get_uptime_milliseconds k,
                context_switch_count := context_switch_count t + 1\<rparr>;
     let k' = put_thread (k\<lparr>k_previous := k_current k, k_current := thread,
                k_context_switch_count := k_context_switch_count k + 1\<rparr>) t';
     Some (thread_switch_to k' t' (r_cs (th_regs t') \<noteq> 0x08))
   }"

text \<open>The signal of the chosen thread, and the choice after it.\<close>

definition deliver_signal ::
  "(ptr \<Rightarrow> bool) \<Rightarrow> (ptr \<Rightarrow> bool) \<Rightarrow> kernel_state \<Rightarrow> ptr \<Rightarrow> (kernel_state \<times> ptr) option"
where
  "deliver_signal rready wready k ready_thread =
     (if ready_thread \<noteq> thread_get_first k then do {
        t \<leftarrow> get_thread k ready_thread;
        if fifobuffer_get_size (th_signals t) > 0 then do {
          (q, buf, n) \<leftarrow> fifobuffer_dequeue (th_signals t) [0] 1;
          let signal = buf ! 0;
          let t' = t\<lparr>th_signals := q, pending_signal_count := fifobuffer_get_size q\<rparr>;
          let k1 = put_thread k t';
          if signal \<in> {15, 9, 11, 2, 4} then do {
            k2 \<leftarrow> process_destroy k1 (th_owner t');
            look_threads rready wready k2 (thread_get_first k2)
          } else if signal \<in> {19, 20} then
            look_threads rready wready (put_thread k1 (t'\<lparr>th_state := TS_SUSPEND\<rparr>)) (thread_get_first k1)
          else Some (k1, ready_thread)
        } else Some (k, ready_thread)
      } else Some (k, ready_thread))"

text \<open>\<open>Inl\<close> is the early return to the interrupted thread, \<open>Inr\<close> the switch.\<close>

definition schedule ::
  "(ptr \<Rightarrow> bool) \<Rightarrow> (ptr \<Rightarrow> bool) \<Rightarrow> kernel_state \<Rightarrow> TimerInt_Registers \<Rightarrow>
   (kernel_state \<times> (unit + switch_frame)) option"
where
  "schedule rready wready k registers = do {
     stay \<leftarrow> (if k_current k \<noteq> 0 then do {
               t \<leftarrow> get_thread k (k_current k);
               Some (addrs k = [k_current k] \<or> th_state t = TS_UNINTERRUPTIBLE)
             } else Some False);
     if stay then Some (k, Inl ())
     else do {
       (k1, ready) \<leftarrow>
         (if k_current k \<noteq> 0 then do {
            t \<leftarrow> get_thread k (k_current k);
            look_threads rready wready (put_thread k (end_context k registers t)) (k_current k)
          } else look_threads rready wready k (thread_get_first k));
       (k2, ready') \<leftarrow> deliver_signal rready wready k1 ready;
       (k3, frame) \<leftarrow> start_context (thread_update_usage_metrics k2) ready';
       Some (k3, Inr frame)
     }
   }"

definition handle_timer_irq ::
  "(ptr \<Rightarrow> bool) \<Rightarrow> (ptr \<Rightarrow> bool) \<Rightarrow> kernel_state \<Rightarrow> TimerInt_Registers \<Rightarrow>
   (kernel_state \<times> (unit + switch_frame)) option"
where
  "handle_timer_irq rready wready k registers =
     (let k' = k\<lparr>k_tick_count := k_tick_count k + 1, k_date_ms := k_date_ms k + 1\<rparr>
      in if k_scheduler_enabled k' then schedule rready wready k' registers else Some (k', Inl ()))"

section \<open>The clock\<close>

text \<open>\<^verbatim>\<open>uptime_milli\<close> is 32 bits wide: the date wraps after 49 days.\<close>

definition clock_gettime64 :: "kernel_state \<Rightarrow> u32 \<times> u32" where
  "clock_gettime64 k =
     (let uptime_milli = (ucast (k_date_ms k) :: u32);
          tv_sec = uptime_milli div 1000;
          extra_milli = uptime_milli - tv_sec * 1000
      in (tv_sec, extra_milli * 1000000))"

definition clock_settime64 :: "kernel_state \<Rightarrow> 64 word \<Rightarrow> kernel_state" where
  "clock_settime64 k tv_sec = k\<lparr>k_date_ms := tv_sec * 1000\<rparr>"

section \<open>Lemmas on the thread list\<close>

text \<open>Threads at different non-null addresses, each owned by a process that exists.\<close>

definition threads_ok :: "kernel_state \<Rightarrow> bool" where
  "threads_ok k \<longleftrightarrow> distinct (addrs k) \<and> 0 \<notin> set (addrs k) \<and> addrs k \<noteq> [] \<and>
     (\<forall>t \<in> set (k_threads k). k_procs k (th_owner t) \<noteq> None)"

lemma get_thread_Some: "get_thread k a = Some t \<Longrightarrow> t \<in> set (k_threads k) \<and> th_addr t = a"
  by (auto simp: get_thread_def find_Some_iff in_set_conv_nth)

lemma get_thread_ex: "a \<in> set (addrs k) \<Longrightarrow> \<exists>t. get_thread k a = Some t"
  by (cases "get_thread k a") (auto simp: get_thread_def addrs_def find_None_iff)

lemma get_thread_in:
  assumes "distinct (addrs k)" and "t \<in> set (k_threads k)"
  shows "get_thread k (th_addr t) = Some t"
proof -
  obtain u where u: "get_thread k (th_addr t) = Some u"
    using get_thread_ex [of "th_addr t" k] assms(2) by (auto simp: addrs_def)
  then have "u \<in> set (k_threads k)" "th_addr u = th_addr t" using get_thread_Some by auto
  then have "u = t" using assms by (auto simp: addrs_def distinct_map inj_on_def)
  then show ?thesis using u by simp
qed

lemma addrs_put [simp]: "addrs (put_thread k t) = addrs k"
  by (auto simp: addrs_def put_thread_def comp_def intro: map_cong)

lemma put_thread_simps [simp]:
  "k_procs (put_thread k t) = k_procs k" "k_tick_count (put_thread k t) = k_tick_count k"
  "k_current (put_thread k t) = k_current k" "thread_get_first (put_thread k t) = thread_get_first k"
proof -
  have "addrs (put_thread k t) = addrs k" by simp
  then show "thread_get_first (put_thread k t) = thread_get_first k" by (simp add: thread_get_first_def)
qed (simp_all add: put_thread_def)

lemma find_map_put:
  "List.find (\<lambda>u. th_addr u = a) (map (\<lambda>u. if th_addr u = th_addr t then t else u) ts) =
     (if a = th_addr t then (if a \<in> th_addr ` set ts then Some t else None)
      else List.find (\<lambda>u. th_addr u = a) ts)"
  by (induction ts) auto

lemma get_put:
  "get_thread (put_thread k t) a =
     (if a = th_addr t then (if a \<in> set (addrs k) then Some t else None) else get_thread k a)"
  using find_map_put [of a t "k_threads k"] by (simp add: get_thread_def put_thread_def addrs_def)

lemma threads_ok_put:
  "threads_ok k \<Longrightarrow> k_procs k (th_owner t) \<noteq> None \<Longrightarrow> threads_ok (put_thread k t)"
  by (auto simp: threads_ok_def) (auto simp: put_thread_def split: if_splits)

lemma update_state_ok:
  assumes "k_procs k (th_owner t) \<noteq> None"
  shows "ok (thread_update_state rready wready k t) (\<lambda>t'. th_addr t' = th_addr t \<and> th_owner t' = th_owner t)"
proof -
  obtain p where p: "k_procs k (th_owner t) = Some p" using assms by auto
  show ?thesis
    by (auto simp: thread_update_state_def thread_resume_def select_update_def p Let_def
        split: prod.splits)
qed

definition runs :: "kernel_state \<Rightarrow> ptr \<Rightarrow> bool" where
  "runs k a \<longleftrightarrow> (\<exists>t. get_thread k a = Some t \<and> th_state t = TS_RUN)"

text \<open>
  The search stops at the first address whose thread is ready to run after its update; the
  threads it passed are not, and the others are as they were.
\<close>

lemma look_loop_ok:
  assumes "threads_ok k" and "distinct as" and "set as \<subseteq> set (addrs k)"
  shows "ok (look_loop rready wready k as) (\<lambda>(k', found). threads_ok k' \<and> addrs k' = addrs k \<and>
    k_tick_count k' = k_tick_count k \<and> (\<forall>a. a \<notin> set as \<longrightarrow> get_thread k' a = get_thread k a) \<and>
    (case found of
       Some a \<Rightarrow> \<exists>pre post. as = pre @ a # post \<and> runs k' a \<and> (\<forall>b \<in> set pre. \<not> runs k' b)
     | None \<Rightarrow> \<forall>b \<in> set as. \<not> runs k' b))"
  using assms
proof (induction as arbitrary: k)
  case Nil
  then show ?case by simp
next
  case (Cons a as)
  obtain t where t: "get_thread k a = Some t" using get_thread_ex [of a k] Cons.prems(3) by auto
  have ta: "th_addr t = a" "t \<in> set (k_threads k)" using get_thread_Some [OF t] by auto
  have ow: "k_procs k (th_owner t) \<noteq> None" using Cons.prems(1) ta by (auto simp: threads_ok_def)
  obtain t' where t': "thread_update_state rready wready k t = Some t'" "th_addr t' = a" "th_owner t' = th_owner t"
    using update_state_ok [OF ow, of rready wready] ta by (auto simp: ok_iff)
  let ?k = "put_thread k t'"
  have tk: "threads_ok ?k" using threads_ok_put [OF Cons.prems(1)] ow t'(3) by simp
  have here: "get_thread ?k a = Some t'" using Cons.prems(3) t'(2) by (simp add: get_put)
  have other: "get_thread ?k b = get_thread k b" if "b \<noteq> a" for b using that t'(2) by (simp add: get_put)
  show ?case
  proof (cases "th_state t' = TS_RUN")
    case True
    have "runs ?k a" using True here by (auto simp: runs_def)
    then have "\<exists>pre post. a # as = pre @ a # post \<and> runs ?k a \<and> (\<forall>b \<in> set pre. \<not> runs ?k b)"
      by (intro exI [of _ "[]"] exI [of _ as]) simp
    then show ?thesis using True t t' tk other by auto
  next
    case False
    have nr: "\<not> runs ?k a" using False here by (auto simp: runs_def)
    obtain k2 found where r: "look_loop rready wready ?k as = Some (k2, found)" "threads_ok k2"
        "addrs k2 = addrs ?k" "k_tick_count k2 = k_tick_count ?k"
        "\<And>b. b \<notin> set as \<Longrightarrow> get_thread k2 b = get_thread ?k b"
        "case found of Some c \<Rightarrow> \<exists>pre post. as = pre @ c # post \<and> runs k2 c \<and> (\<forall>b \<in> set pre. \<not> runs k2 b)
          | None \<Rightarrow> \<forall>b \<in> set as. \<not> runs k2 b"
      using Cons.IH [OF tk] Cons.prems by (auto simp: ok_iff)
    have na: "\<not> runs k2 a" using nr r(5) [of a] Cons.prems(2) by (simp add: runs_def)
    have "case found of Some c \<Rightarrow> \<exists>pre post. a # as = pre @ c # post \<and> runs k2 c \<and> (\<forall>b \<in> set pre. \<not> runs k2 b)
        | None \<Rightarrow> \<forall>b \<in> set (a # as). \<not> runs k2 b"
    proof (cases found)
      case None
      then show ?thesis using r(6) na by simp
    next
      case (Some c)
      then obtain pre post where "as = pre @ c # post" "runs k2 c" "\<forall>b \<in> set pre. \<not> runs k2 b"
        using r(6) by auto
      then show ?thesis using Some na
        by simp (intro exI [of _ "a # pre"] exI [of _ post], simp)
    qed
    then show ?thesis using False t t' r(1-5) other by auto
  qed
qed

text \<open>The order of the search: behind the current thread, then from the second up to the current.\<close>

lemma takeWhile_upto: "c \<notin> set xs \<Longrightarrow> takeWhile (\<lambda>a. a \<noteq> c) (xs @ c # ys) = xs"
  by (induction xs) auto

definition search_order :: "ptr list \<Rightarrow> ptr \<Rightarrow> ptr list" where
  "search_order as c = tl (dropWhile (\<lambda>a. a \<noteq> c) as) @
     (if c = hd as then [] else takeWhile (\<lambda>a. a \<noteq> c) (tl as) @ [c])"

lemma search_order_split:
  assumes "distinct (pre @ c # post)"
  shows "search_order (pre @ c # post) c = post @ (if pre = [] then [] else tl pre @ [c])"
proof -
  have "dropWhile (\<lambda>a. a \<noteq> c) (pre @ c # post) = c # post"
    using assms by (subst dropWhile_append2) auto
  moreover have "takeWhile (\<lambda>a. a \<noteq> c) (tl pre @ c # post) = tl pre"
    using assms by (cases pre) (auto simp: takeWhile_upto)
  ultimately show ?thesis using assms by (cases pre) (auto simp: search_order_def)
qed

lemma look_threads_ok:
  assumes k: "threads_ok k" and c: "c \<in> set (addrs k)"
  shows "ok (look_threads rready wready k c) (\<lambda>(k', a). threads_ok k' \<and> addrs k' = addrs k \<and>
    ((\<exists>pre post. search_order (addrs k) c = pre @ a # post \<and> runs k' a \<and> (\<forall>b \<in> set pre. \<not> runs k' b)) \<or>
     a = hd (addrs k) \<and> (\<forall>b \<in> set (search_order (addrs k) c). \<not> runs k' b)))"
proof -
  obtain pre post where as: "addrs k = pre @ c # post" using c by (auto simp: in_set_conv_decomp)
  have d: "distinct (pre @ c # post)" "addrs k \<noteq> []" using k by (auto simp: threads_ok_def as)
  have drp: "tl (dropWhile (\<lambda>a. a \<noteq> c) (addrs k)) = post"
    using d unfolding as by (subst dropWhile_append2) auto
  have first: "thread_get_first k' = hd (addrs k)" if "addrs k' = addrs k" for k'
    using that d(2) by (cases "addrs k") (auto simp: thread_get_first_def)
  note ord = search_order_split [OF d(1)]
  obtain k1 f1 where l1: "look_loop rready wready k post = Some (k1, f1)" "threads_ok k1" "addrs k1 = addrs k"
      "case f1 of Some a \<Rightarrow> \<exists>p q. post = p @ a # q \<and> runs k1 a \<and> (\<forall>b \<in> set p. \<not> runs k1 b)
        | None \<Rightarrow> \<forall>b \<in> set post. \<not> runs k1 b"
    using look_loop_ok [OF k, of post rready wready] d as by (auto simp: ok_iff)
  show ?thesis
  proof (cases f1)
    case (Some a)
    then obtain p q where "post = p @ a # q" "runs k1 a" "\<forall>b \<in> set p. \<not> runs k1 b" using l1(4) by auto
    moreover have "look_threads rready wready k c = Some (k1, a)"
      using c drp l1(1) Some by (simp add: look_threads_def)
    ultimately show ?thesis using l1(2,3) as ord by auto
  next
    case None
    then have n1: "\<forall>b \<in> set post. \<not> runs k1 b" using l1(4) by simp
    show ?thesis
    proof (cases "pre = []")
      case True
      then have "look_threads rready wready k c = Some (k1, c)"
        using c drp l1(1,3) None first [OF l1(3)] as by (simp add: look_threads_def)
      then show ?thesis using l1(2,3) n1 ord True as by auto
    next
      case False
      then have cne: "c \<noteq> hd (addrs k)" using d as by (cases pre) auto
      have tw: "takeWhile (\<lambda>a. a \<noteq> c) (tl (addrs k1)) @ [c] = tl pre @ [c]"
        using False d unfolding l1(3) as by (cases pre) (auto simp: takeWhile_upto)
      have "distinct (tl pre @ [c])" "set (tl pre @ [c]) \<subseteq> set (addrs k1)"
        using d as l1(3) by (cases pre, auto)+
      from look_loop_ok [OF l1(2) this, of rready wready] obtain k2 f2 where
        l2: "look_loop rready wready k1 (tl pre @ [c]) = Some (k2, f2)" "threads_ok k2" "addrs k2 = addrs k1"
          "\<And>a. a \<notin> set (tl pre @ [c]) \<Longrightarrow> get_thread k2 a = get_thread k1 a"
          "case f2 of Some a \<Rightarrow> \<exists>p q. tl pre @ [c] = p @ a # q \<and> runs k2 a \<and> (\<forall>b \<in> set p. \<not> runs k2 b)
            | None \<Rightarrow> \<forall>b \<in> set (tl pre @ [c]). \<not> runs k2 b"
        by (auto simp: ok_iff)
      have n2: "\<forall>b \<in> set post. \<not> runs k2 b"
      proof
        fix b assume "b \<in> set post"
        moreover from this have "b \<notin> set (tl pre @ [c])" using d by (cases pre) auto
        ultimately show "\<not> runs k2 b" using n1 l2(4) [of b] by (simp add: runs_def)
      qed
      have run: "look_threads rready wready k c = Some (k2, case f2 of Some a \<Rightarrow> a | None \<Rightarrow> hd (addrs k))"
        using c drp l1(1,3) None first [OF l1(3)] first [of k2] cne tw l2(1,3)
        by (cases f2) (simp_all add: look_threads_def)
      show ?thesis
      proof (cases f2)
        case None
        then show ?thesis using run l1(3) l2(2,3,5) n2 ord False as by auto
      next
        case (Some a)
        then obtain p q where "tl pre @ [c] = p @ a # q" "runs k2 a" "\<forall>b \<in> set p. \<not> runs k2 b"
          using l2(5) by auto
        then have "search_order (addrs k) c = (post @ p) @ a # q" "\<forall>b \<in> set (post @ p). \<not> runs k2 b"
          using n2 ord False as by auto
        then have "\<exists>pre post. search_order (addrs k) c = pre @ a # post \<and> runs k2 a \<and> (\<forall>b \<in> set pre. \<not> runs k2 b)"
          using \<open>runs k2 a\<close> by blast
        then show ?thesis using run l1(3) l2(2,3) Some by simp
      qed
    qed
  qed
qed

section \<open>Lemmas on the other operations\<close>

lemma find_slot_Some:
  "find_slot P xs = Some i \<longleftrightarrow> i < length xs \<and> P (xs ! i) \<and> (\<forall>j < i. \<not> P (xs ! j))"
proof (induction xs arbitrary: i)
  case (Cons x xs)
  show ?case
  proof (cases i)
    case 0
    then show ?thesis by auto
  next
    case (Suc j)
    have "(\<forall>k < Suc j. \<not> P ((x # xs) ! k)) \<longleftrightarrow> \<not> P x \<and> (\<forall>k < j. \<not> P (xs ! k))"
      by (auto simp: less_Suc_eq_0_disj)
    then show ?thesis using Cons.IH [of j] Suc by auto
  qed
qed simp

lemma find_slot_None: "find_slot P xs = None \<longleftrightarrow> (\<forall>x \<in> set xs. \<not> P x)"
  by (induction xs) auto

lemma signal_queue_ok:
  assumes "fifo_inv (th_signals t)" and "fifo_cap (th_signals t) = 64" and "signal < SIGNAL_COUNT"
  shows "ok (thread_signal t signal) (\<lambda>(t', r). fifo_inv (th_signals t') \<and> fifo_cap (th_signals t') = 64 \<and>
    (r \<longleftrightarrow> length (fifo_list (th_signals t)) < 64) \<and>
    fifo_list (th_signals t') = (if r then fifo_list (th_signals t) @ [signal] else fifo_list (th_signals t)) \<and>
    th_state t' = (if signal = 18 \<and> th_state t = TS_SUSPEND then TS_RUN
                   else if r \<and> th_state t = TS_WAITIO then TS_RUN else th_state t))"
proof -
  let ?q = "th_signals t"
  have bound: "length (fifo_list ?q) \<le> 64" using fb.bounded [OF assms(1)] assms(2) by simp
  have free: "fifobuffer_get_free ?q > 0 \<longleftrightarrow> length (fifo_list ?q) < 64"
    using unat_get_free [OF assms(1)] assms(2) bound by (simp add: word_less_nat_alt)
  obtain q r where e: "fifobuffer_enqueue ?q [signal] 1 = Some (q, r)" "fifo_inv q" "fifo_cap q = fifo_cap ?q"
      "unat r = min 1 (fifo_cap ?q - length (fifo_list ?q))" "fifo_list q = fifo_list ?q @ take (unat r) [signal]"
    using fb.enq_ok [OF assms(1), of 1 "[signal]"] by (auto simp: ok_iff)
  show ?thesis
  proof (cases "length (fifo_list ?q) < 64")
    case True
    then have "unat r = 1" using e(4) assms(2) by simp
    then show ?thesis using True free e assms by (auto simp: thread_signal_def Let_def)
  next
    case False
    then show ?thesis using free assms by (auto simp: thread_signal_def)
  qed
qed

lemma destroy_threads_ok:
  assumes "\<forall>t \<in> set ts. th_owner t = process \<longrightarrow> message_queue_lock t = 0"
  shows "\<exists>cs. destroy_threads process True current ts =
    Some (filter (\<lambda>t. th_owner t \<noteq> process) ts,
          if \<exists>t \<in> set ts. th_owner t = process \<and> th_addr t = current then 0 else current, cs)"
  using assms
proof (induction ts arbitrary: current)
  case (Cons t ts)
  obtain cs cs' where
    "destroy_threads process True (if th_addr t = current then 0 else current) ts =
      Some (filter (\<lambda>t. th_owner t \<noteq> process) ts,
        if \<exists>u \<in> set ts. th_owner u = process \<and> th_addr u = (if th_addr t = current then 0 else current) then 0
        else if th_addr t = current then 0 else current, cs)"
    "destroy_threads process True current ts = Some (filter (\<lambda>t. th_owner t \<noteq> process) ts,
        if \<exists>u \<in> set ts. th_owner u = process \<and> th_addr u = current then 0 else current, cs')"
    using Cons.IH [of "if th_addr t = current then 0 else current"] Cons.IH [of current] Cons.prems by auto
  then show ?case using Cons.prems by (cases "th_owner t = process") auto
qed simp

lemma wake_parent_addrs: "map th_addr (wake_parent q us) = map th_addr us"
  by (auto simp: wake_parent_def thread_resume_def)

lemma wake_parent_elem:
  assumes "t \<in> set (wake_parent q us)"
  shows "\<exists>u \<in> set us. t = (if th_owner u = q \<and> th_state u = TS_WAITCHILD then thread_resume u else u)"
  using assms unfolding wake_parent_def set_map by (elim imageE) blast

lemma wake_parent_ready:
  assumes "t \<in> set (wake_parent q us)"
  shows "\<not> (th_owner t = q \<and> th_state t = TS_WAITCHILD)"
proof -
  from wake_parent_elem [OF assms] obtain u
    where u: "t = (if th_owner u = q \<and> th_state u = TS_WAITCHILD then thread_resume u else u)" by blast
  show ?thesis by (cases "th_owner u = q \<and> th_state u = TS_WAITCHILD") (auto simp: u thread_resume_def)
qed

text \<open>What \<^verbatim>\<open>process_destroy\<close> leaves of the kernel state.\<close>

lemma process_destroy_run:
  assumes "k_threads k = idle # ts" and "k_procs k process = Some p"
    and "\<forall>t \<in> set ts. th_owner t = process \<longrightarrow> message_queue_lock t = 0"
  shows "\<exists>k'. process_destroy k process = Some k' \<and>
    (let rest = idle # filter (\<lambda>t. th_owner t \<noteq> process) ts
     in k_threads k' = (if p_parent p \<noteq> 0 then wake_parent (p_parent p) rest else rest)) \<and>
    k_procs k' = (k_procs k)(process := None) \<and>
    k_current k' = (if \<exists>t \<in> set ts. th_owner t = process \<and> th_addr t = k_current k then 0 else k_current k) \<and>
    last (k_calls k') = DestroyPageDirectory (p_pd p)"
proof -
  define cur where
    "cur = (if \<exists>t \<in> set ts. th_owner t = process \<and> th_addr t = k_current k then 0 else k_current k)"
  define rest where "rest = filter (\<lambda>t. th_owner t \<noteq> process) ts"
  obtain cs where d: "destroy_threads process True (k_current k) ts = Some (rest, cur, cs)"
    using destroy_threads_ok [OF assms(3), of "k_current k"] unfolding cur_def rest_def by blast
  have d0: "destroy_threads process False (k_current k) (idle # ts) = Some (idle # rest, cur, cs)"
    using d by simp
  let ?ts = "if p_parent p \<noteq> 0 then wake_parent (p_parent p) (idle # rest) else idle # rest"
  let ?calls = "SharedMemoryUnmapAll process # cs @ map CloseFile (filter (\<lambda>f. f \<noteq> 0) (p_fd p)) @
    [FreeMemory process, DestroyPageDirectory (p_pd p)]"
  let ?k = "call (k\<lparr>k_threads := ?ts, k_current := cur, k_procs := (k_procs k)(process := None)\<rparr>) ?calls"
  have "process_destroy k process = Some ?k"
    unfolding process_destroy_def assms(1,2) Option.bind.simps d0 by simp
  then show ?thesis by (simp add: call_def cur_def rest_def Let_def)
qed

section \<open>Properties\<close>


definition sample_thread :: "ptr \<Rightarrow> thread_state_t \<Rightarrow> u32 \<Rightarrow> Thread" where
  "sample_thread a st priv =
     \<lparr>message_queue = fifobuffer_create 1024, message_queue_lock = 0, th_addr = a, threadId = a,
      th_regs = kernel_regs 0 0 0, th_esp0 = 0, th_ss0 = 0x10, th_stack_start = 0,
      th_select = zero_select, user_mode = 0, th_signals = fifobuffer_create 64,
      pending_signal_count = 0, th_state = st, state_privateData = priv, th_owner = 1, birth_time = 0,
      context_switch_count = 0, context_start_time = 0, context_end_time = 0, consumed_cpu_time_ms = 0,
      consumed_cpu_time_ms_at_prev_mark = 0, usage_cpu = 0\<rparr>"

definition sample_process :: Process where
  "sample_process = \<lparr>brk_begin = 0, brk_end = 0, brk_next_unallocated_page_begin = 0,
     mmapped_virtual_memory = (\<lambda>_. 0), p_name = [], p_pid = 7, p_pd = 0x1000, p_tty = 0,
     p_working_directory = 0, p_parent = 0, p_fd = replicate 20 0\<rparr>"

definition sample_kernel :: "Thread list \<Rightarrow> kernel_state" where
  "sample_kernel ts = \<lparr>k_threads = ts, k_current = 10, k_previous = 0,
     k_procs = (\<lambda>a. if a = 1 then Some sample_process else None), k_files = (\<lambda>_. None),
     k_kernel_process = 1, k_process_id_generator = 1, k_thread_id_generator = 1,
     k_context_switch_count = 0, k_usage_mark_point = 0, k_tick_count = 100, k_date_ms = 100,
     k_scheduler_enabled = True, k_tss_ss0 = 0, k_tss_esp0 = 0,
     k_irq = \<lparr>irq_eflags = 0, irq_were_enabled = False\<rparr>, k_calls = []\<rparr>"


text \<open>
  The descriptor table: adding a file takes the lowest free slot, tells the file its number
  and fails exactly when all slots are taken; removing it frees that slot again, and the other
  slots never change.
\<close>

theorem process_fd_table:
  assumes "length (p_fd p) = ASTERISK_MAX_OPENED_FILES" and "file \<noteq> 0" and "file \<notin> set (p_fd p)"
  shows "(case process_add_file irq p file f of (irq', p', f', r) \<Rightarrow>
      (if 0 \<in> set (p_fd p)
       then (\<exists>i < ASTERISK_MAX_OPENED_FILES. r = of_nat i \<and> f_fd f' = r \<and> p_fd p ! i = 0 \<and>
         (\<forall>j < i. p_fd p ! j \<noteq> 0) \<and> p_fd p' = (p_fd p)[i := file] \<and>
         (case process_remove_file irq' p' file of (irq'', p'', r') \<Rightarrow> r' = r \<and> p'' = p))
       else r = - 1 \<and> p' = p \<and> f' = f))"
proof (cases "find_slot (\<lambda>g. g = 0) (p_fd p)")
  case None
  then have "0 \<notin> set (p_fd p)" by (auto simp: find_slot_None)
  then show ?thesis using None by (simp add: process_add_file_def)
next
  case (Some i)
  then have i: "i < length (p_fd p)" "p_fd p ! i = 0" "\<forall>j < i. p_fd p ! j \<noteq> 0"
    by (auto simp: find_slot_Some)
  have z: "0 \<in> set (p_fd p)" using i by (metis nth_mem)
  let ?p' = "p\<lparr>p_fd := (p_fd p)[i := file]\<rparr>"
  have "p_fd p ! j \<noteq> file" if "j < length (p_fd p)" for j using assms(3) that by (metis nth_mem)
  then have "find_slot (\<lambda>g. g = file) ((p_fd p)[i := file]) = Some i"
    using i(1) by (auto simp: find_slot_Some)
  moreover have "(p_fd p)[i := file, i := 0] = p_fd p" using i(1,2) by (metis list_update_id list_update_overwrite)
  ultimately have undo: "process_remove_file irq' ?p' file = (end_critical_section (begin_critical_section irq'), p, of_nat i)"
    for irq' by (simp add: process_remove_file_def)
  show ?thesis using Some i z undo assms(1) by (auto simp: process_add_file_def)
qed

theorem process_fd_table_witness:
  "\<exists>irq' p' f'. process_add_file \<lparr>irq_eflags = 0, irq_were_enabled = False\<rparr> sample_process 99
     \<lparr>f_node = 5, f_process = 1, f_thread = 10, f_fd = 0, f_flags = 0, f_offset = 0, f_private_data = 0\<rparr> =
       (irq', p', f', 0)"
proof -
  let ?f = "\<lparr>f_node = 5, f_process = 1, f_thread = 10, f_fd = 0, f_flags = 0, f_offset = 0, f_private_data = 0\<rparr>"
  let ?irq = "\<lparr>irq_eflags = 0, irq_were_enabled = False\<rparr>"
  obtain irq' p' f' r where e: "process_add_file ?irq sample_process 99 ?f = (irq', p', f', r)"
    by (metis prod_cases4)
  have "\<exists>i < ASTERISK_MAX_OPENED_FILES. r = of_nat i \<and> (\<forall>j < i. p_fd sample_process ! j \<noteq> 0)"
    using process_fd_table [of sample_process 99 ?f ?irq] e
    by (auto simp: sample_process_def ASTERISK_MAX_OPENED_FILES_def)
  then obtain i where i: "i < 20" "r = of_nat i" "\<forall>j < i. p_fd sample_process ! j \<noteq> 0"
    by (auto simp: ASTERISK_MAX_OPENED_FILES_def)
  then have "i = 0" by (cases i) (auto simp: sample_process_def)
  then have "r = 0" using i(2) by simp
  then show ?thesis using e by blast
qed







text \<open>
  What the scheduler saves of an interrupted thread is what it resumes: switching back
  continues at the saved instruction with the saved segment and flags (interrupts on, the
  nested-task flag off) and, for a user thread, on its own stack; a kernel thread continues on
  the stack it was interrupted on, and the kernel stack of the task state segment is put back.
\<close>

theorem context_roundtrip:
  "(case thread_switch_to k' (end_context k regs t) (r_cs (th_regs (end_context k regs t)) \<noteq> 0x08) of
     (k'', frame) \<Rightarrow>
       sf_eip frame = ti_eip regs \<and> sf_cs frame = ucast (ti_cs regs) \<and>
       sf_eflags frame = (ti_eflags regs OR 0x200) AND 0xFFFFBFFF \<and>
       k_tss_ss0 k'' = k_tss_ss0 k \<and> k_tss_esp0 k'' = k_tss_esp0 k \<and>
       (if (ucast (ti_cs regs) :: u16) \<noteq> 0x08
        then sf_user_stack frame = Some (ucast (ti_ss_if_privilege_change regs), ti_esp_if_privilege_change regs) \<and>
          sf_kesp frame = k_tss_esp0 k
        else sf_user_stack frame = None \<and> sf_kesp frame = ti_esp regs + 12))"
  by (simp add: thread_switch_to_def end_context_def Let_def)

end
