(* ===== verification/Waiting.thy ===== *)
theory Waiting
  imports Process
begin

text \<open>
  What the devices share that make threads wait: waking the threads of a list (the loops of
  \<^verbatim>\<open>ttydev.c\<close> and \<^verbatim>\<open>pipe.c\<close> have the same body), how a waiting thread may evolve while the kernel
  does other work, and what a full FIFO buffer keeps of the bytes put into it.
\<close>

section \<open>Bounded enqueueing\<close>

text \<open>What does not fit is cut off, so successive enqueues cut off what does not fit of it all.\<close>

lemma enqueue_take:
  assumes "fifo_inv f" and "unat sz \<le> length dat" and "sz \<noteq> 0"
  shows "ok (fifobuffer_enqueue f dat sz) (\<lambda>(f', n). fifo_inv f' \<and> fifo_cap f' = fifo_cap f \<and>
    fifo_list f' = take (fifo_cap f) (fifo_list f @ take (unat sz) dat) \<and>
    unat n = min (unat sz) (fifo_cap f - length (fifo_list f)))"
proof -
  obtain f' n where e: "fifobuffer_enqueue f dat sz = Some (f', n)" "fifo_inv f'" "fifo_cap f' = fifo_cap f"
      "unat n = min (unat sz) (fifo_cap f - length (fifo_list f))"
      "fifo_list f' = fifo_list f @ take (unat n) dat"
    using fifobuffer_enqueue_ok [OF assms] by (auto simp: ok_iff)
  have "length (fifo_list f) \<le> fifo_cap f" by (rule fb.bounded [OF assms(1)])
  then show ?thesis using e by (simp add: min.commute del: length_fifo_list)
qed

lemma enqueue_byte:
  assumes "fifo_inv f"
  shows "ok (fifobuffer_enqueue f [c] 1) (\<lambda>(f', n). fifo_inv f' \<and> fifo_cap f' = fifo_cap f \<and>
    fifo_list f' = take (fifo_cap f) (fifo_list f @ [c]) \<and>
    unat n = min 1 (fifo_cap f - length (fifo_list f)))"
  using enqueue_take [OF assms, of 1 "[c]"] by (simp add: ok_iff del: length_fifo_list)

lemma take_take_append [simp]: "take n (take n xs @ ys) = take n (xs @ ys)"
  by (cases "n \<le> length xs") simp_all

lemma take_append_take [simp]: "take n (xs @ take n ys) = take n (xs @ ys)"
  by (simp add: min_def)

section \<open>Waking the threads of a list\<close>

text \<open>
  Every thread of the list that waits for the object becomes ready. A pointer of the list to a
  thread that no longer exists is a fault.
\<close>

fun wake_loop :: "kernel_state \<Rightarrow> ptr \<Rightarrow> ptr list \<Rightarrow> kernel_state option" where
  "wake_loop k tty [] = Some k"
| "wake_loop k tty (a # as) = do {
     t \<leftarrow> get_thread k a;
     let k' = (if th_state t = TS_WAITIO \<and> state_privateData t = tty then put_thread k (thread_resume t)
               else k);
     wake_loop k' tty as
   }"

section \<open>The kernel state while threads wait\<close>

definition signals_ok :: "Thread \<Rightarrow> bool" where
  "signals_ok t \<longleftrightarrow> fifo_inv (th_signals t) \<and> fifo_cap (th_signals t) = 64"

definition kern_ok :: "kernel_state \<Rightarrow> bool" where
  "kern_ok k \<longleftrightarrow> threads_ok k \<and> (\<forall>t \<in> set (k_threads k). signals_ok t)"

text \<open>What a thread may become while it waits for an object: ready, or it still waits.\<close>

definition evolves :: "Thread \<Rightarrow> Thread \<Rightarrow> bool" where
  "evolves t t' \<longleftrightarrow> th_addr t' = th_addr t \<and> th_owner t' = th_owner t \<and> (signals_ok t \<longrightarrow> signals_ok t') \<and>
     (th_state t = TS_RUN \<longrightarrow> th_state t' = TS_RUN) \<and>
     (th_state t = TS_WAITIO \<longrightarrow>
        th_state t' = TS_RUN \<or> th_state t' = TS_WAITIO \<and> state_privateData t' = state_privateData t)"

definition kern_evolves :: "kernel_state \<Rightarrow> kernel_state \<Rightarrow> bool" where
  "kern_evolves k k' \<longleftrightarrow> list_all2 evolves (k_threads k) (k_threads k') \<and> k_procs k' = k_procs k"

lemma evolves_refl [simp]: "evolves t t"
  by (simp add: evolves_def)

lemma evolves_trans: "evolves t u \<Longrightarrow> evolves u v \<Longrightarrow> evolves t v"
  by (auto simp: evolves_def)

lemma kern_evolves_refl [simp]: "kern_evolves k k"
  by (simp add: kern_evolves_def list_all2_same)

lemma kern_evolves_trans: "kern_evolves k l \<Longrightarrow> kern_evolves l m \<Longrightarrow> kern_evolves k m"
  unfolding kern_evolves_def
  by (elim conjE, intro conjI, rule list_all2_trans [OF evolves_trans]) simp_all

lemma evolves_addrs: "list_all2 evolves ts ts' \<Longrightarrow> map th_addr ts' = map th_addr ts"
  by (induction rule: list_all2_induct) (auto simp: evolves_def)

lemma kern_evolves_ok:
  assumes "kern_evolves k k'" and "kern_ok k"
  shows "kern_ok k' \<and> addrs k' = addrs k"
proof -
  have all: "list_all2 evolves (k_threads k) (k_threads k')" "k_procs k' = k_procs k"
    using assms(1) by (auto simp: kern_evolves_def)
  have a: "addrs k' = addrs k" using evolves_addrs [OF all(1)] by (simp add: addrs_def)
  have "signals_ok t' \<and> k_procs k (th_owner t') \<noteq> None" if t': "t' \<in> set (k_threads k')" for t'
  proof -
    obtain i where i: "i < length (k_threads k')" "k_threads k' ! i = t'"
      using t' unfolding in_set_conv_nth by blast
    have "evolves (k_threads k ! i) t'" using list_all2_nthD2 [OF all(1) i(1)] i(2) by simp
    moreover have "k_threads k ! i \<in> set (k_threads k)" using i(1) list_all2_lengthD [OF all(1)] by simp
    ultimately show ?thesis using assms(2) by (auto simp: kern_ok_def threads_ok_def evolves_def)
  qed
  then show ?thesis using assms(2) a all(2) by (auto simp: kern_ok_def threads_ok_def)
qed

lemma evolves_find:
  "list_all2 evolves ts ts' \<Longrightarrow> List.find (\<lambda>t. th_addr t = a) ts = Some t \<Longrightarrow>
   \<exists>t'. List.find (\<lambda>t. th_addr t = a) ts' = Some t' \<and> evolves t t'"
proof (induction rule: list_all2_induct)
  case (Cons x xs y ys)
  then show ?case by (cases "th_addr x = a") (auto simp: evolves_def)
qed simp

lemma kern_evolves_get:
  "kern_evolves k k' \<Longrightarrow> get_thread k a = Some t \<Longrightarrow> \<exists>t'. get_thread k' a = Some t' \<and> evolves t t'"
  by (auto simp: kern_evolves_def get_thread_def intro: evolves_find)

lemma put_evolves:
  assumes "kern_ok k" and "get_thread k (th_addr t) = Some t" and "evolves t t'"
  shows "kern_evolves k (put_thread k t')"
proof -
  have "evolves u (if th_addr u = th_addr t' then t' else u)" if "u \<in> set (k_threads k)" for u
  proof -
    have "get_thread k (th_addr u) = Some u"
      using that assms(1) by (auto simp: kern_ok_def threads_ok_def intro: get_thread_in)
    moreover have "th_addr t' = th_addr t" using assms(3) by (simp add: evolves_def)
    ultimately show ?thesis using assms(2,3) by (cases "th_addr u = th_addr t'") auto
  qed
  then show ?thesis by (simp add: kern_evolves_def put_thread_def list_all2_conv_all_nth)
qed

lemma thread_signal_evolves:
  assumes "signals_ok t" and "s < SIGNAL_COUNT"
  shows "ok (thread_signal t s) (\<lambda>(t', r). evolves t t')"
proof -
  let ?t1 = "if s = 18 \<and> th_state t = TS_SUSPEND then t\<lparr>th_state := TS_RUN\<rparr> else t"
  have q: "fifo_inv (th_signals ?t1)" "fifo_cap (th_signals ?t1) = 64" using assms(1) by (auto simp: signals_ok_def)
  obtain f' n where e: "fifobuffer_enqueue (th_signals ?t1) [s] 1 = Some (f', n)" "fifo_inv f'" "fifo_cap f' = 64"
    using enqueue_byte [OF q(1), of s] q(2) by (auto simp: ok_iff)
  show ?thesis using assms e(2,3)
    unfolding thread_signal_def Let_def e(1)
    by (auto simp: evolves_def signals_ok_def e)
qed

lemma process_signal_loop_evolves:
  assumes "\<forall>t \<in> set ts. signals_ok t \<and> procs (th_owner t) \<noteq> None" and "s < SIGNAL_COUNT"
  shows "ok (process_signal_loop procs ts pid s) (\<lambda>(ts', r). list_all2 evolves ts ts')"
  using assms(1)
proof (induction ts)
  case (Cons t ts)
  obtain p where p: "procs (th_owner t) = Some p" using Cons.prems by auto
  obtain ts' r' where l: "process_signal_loop procs ts pid s = Some (ts', r')" "list_all2 evolves ts ts'"
    using Cons by (auto simp: ok_iff)
  obtain t' r where t': "thread_signal t s = Some (t', r)" "evolves t t'"
    using thread_signal_evolves [of t s] Cons.prems assms(2) by (auto simp: ok_iff)
  show ?case by (auto simp: p l t' list_all2_same)
qed simp

lemma process_signal_evolves:
  assumes "kern_ok k" and "s < SIGNAL_COUNT"
  shows "ok (process_signal k pid s) (\<lambda>(k', r). kern_evolves k k')"
proof -
  obtain ts' r where "process_signal_loop (k_procs k) (k_threads k) pid s = Some (ts', r)"
      "list_all2 evolves (k_threads k) ts'"
    using process_signal_loop_evolves [of "k_threads k" "k_procs k" s pid] assms
    by (auto simp: kern_ok_def threads_ok_def ok_iff)
  then show ?thesis by (simp add: process_signal_def kern_evolves_def)
qed

section \<open>Waking up\<close>

definition waits_on :: "Thread \<Rightarrow> ptr \<Rightarrow> bool" where
  "waits_on t tty \<longleftrightarrow> th_state t = TS_WAITIO \<and> state_privateData t = tty"

lemma wake_loop_ok:
  assumes "kern_ok k" and "set as \<subseteq> set (addrs k)"
  shows "ok (wake_loop k tty as) (\<lambda>k'. kern_evolves k k' \<and>
    (\<forall>a t. a \<in> set as \<longrightarrow> get_thread k a = Some t \<longrightarrow> waits_on t tty \<longrightarrow> runs k' a))"
  using assms
proof (induction as arbitrary: k)
  case (Cons a as)
  obtain t where t: "get_thread k a = Some t" using get_thread_ex [of a k] Cons.prems(2) by auto
  have ta: "th_addr t = a" using get_thread_Some [OF t] by simp
  let ?w = "th_state t = TS_WAITIO \<and> state_privateData t = tty"
  let ?k = "if ?w then put_thread k (thread_resume t) else k"
  have r: "evolves t (thread_resume t)" if ?w
    using that by (simp add: evolves_def thread_resume_def signals_ok_def)
  have e: "kern_evolves k ?k"
    using put_evolves [OF Cons.prems(1), of t "thread_resume t"] t ta r by auto
  have k1: "kern_ok ?k" "addrs ?k = addrs k" using kern_evolves_ok [OF e Cons.prems(1)] by auto
  obtain k' where k': "wake_loop ?k tty as = Some k'" "kern_evolves ?k k'"
      "\<forall>b u. b \<in> set as \<longrightarrow> get_thread ?k b = Some u \<longrightarrow> waits_on u tty \<longrightarrow> runs k' b"
    using Cons.IH [OF k1(1)] Cons.prems(2) k1(2) by (auto simp: ok_iff)
  have keep: "runs k' b" if "runs ?k b" for b
    using that kern_evolves_get [OF k'(2)] by (fastforce simp: runs_def evolves_def)
  have "runs k' b" if b: "b \<in> set (a # as)" "get_thread k b = Some u" "waits_on u tty" for b u
  proof (cases "b = a")
    case True
    then have "?w" using b t by (simp add: waits_on_def)
    moreover have "a \<in> set (addrs k)" using Cons.prems(2) by simp
    ultimately have "runs ?k a" using ta by (simp add: runs_def get_put thread_resume_def)
    then show ?thesis using keep True by simp
  next
    case False
    obtain v where v: "get_thread ?k b = Some v" "evolves u v" using kern_evolves_get [OF e b(2)] by auto
    then show ?thesis
      using b(1,3) False k'(3) keep by (auto simp: evolves_def waits_on_def runs_def)
  qed
  moreover have "wake_loop k tty (a # as) = Some k'" using t k'(1) by simp
  ultimately show ?case using kern_evolves_trans [OF e k'(2)] by simp
qed simp

text \<open>A waiting thread has become ready.\<close>

definition woken :: "kernel_state \<Rightarrow> ptr \<Rightarrow> ptr \<Rightarrow> kernel_state \<Rightarrow> bool" where
  "woken k tty a k' \<longleftrightarrow> (\<forall>t. get_thread k a = Some t \<and> waits_on t tty \<longrightarrow> runs k' a)"

lemma runs_evolves: "runs k a \<Longrightarrow> kern_evolves k k' \<Longrightarrow> runs k' a"
  using kern_evolves_get [of k k' a] by (fastforce simp: runs_def evolves_def)

lemma woken_evolves:
  assumes "woken l tty a m" and "kern_evolves k l"
  shows "woken k tty a m \<or> (\<exists>t. get_thread k a = Some t \<and> runs l a)"
proof (cases "get_thread k a")
  case None
  then show ?thesis by (simp add: woken_def)
next
  case (Some t)
  then obtain u where u: "get_thread l a = Some u" "evolves t u" using kern_evolves_get [OF assms(2)] by auto
  show ?thesis
  proof (cases "runs l a")
    case False
    then have "waits_on t tty \<longrightarrow> waits_on u tty" using u by (auto simp: evolves_def waits_on_def runs_def)
    then show ?thesis using assms(1) Some u(1) by (auto simp: woken_def)
  qed (use Some in auto)
qed

text \<open>Waking survives whatever the kernel does before and after it.\<close>

lemma woken_around:
  assumes "kern_evolves k l" and "woken l tty a m" and "kern_evolves m n"
    and "kern_evolves l m"
  shows "woken k tty a n"
  using woken_evolves [OF assms(2,1)] runs_evolves [OF _ assms(3)] runs_evolves [OF _ assms(4)]
  by (auto simp: woken_def)

text \<open>A dead thread in the list.\<close>

lemma get_thread_None: "get_thread k a = None \<longleftrightarrow> a \<notin> set (addrs k)"
  by (auto simp: get_thread_def addrs_def find_None_iff)

lemma wake_loop_dangling:
  "a \<in> set as \<Longrightarrow> get_thread k a = None \<Longrightarrow> wake_loop k tty as = None"
proof (induction as arbitrary: k)
  case (Cons b as)
  show ?case
  proof (cases "get_thread k b")
    case (Some t)
    then have tb: "th_addr t = b" "b \<noteq> a" using get_thread_Some [OF Some] Cons.prems by auto
    let ?w = "th_state t = TS_WAITIO \<and> state_privateData t = tty"
    have "get_thread (if ?w then put_thread k (thread_resume t) else k) a = None"
      using Cons.prems(2) tb by (auto simp: get_put thread_resume_def)
    then show ?thesis using Cons.IH Cons.prems(1) tb(2) Some by (auto simp: Let_def)
  qed simp
qed simp

lemma filtered_out:
  assumes "distinct (map f (i # ts))" and "t \<in> set ts" and "\<not> Q t"
  shows "f t \<notin> set (map f (i # filter Q ts))"
proof -
  obtain xs ys where "ts = xs @ t # ys" using split_list [OF assms(2)] by blast
  then show ?thesis using assms(1,3) by (auto simp: image_iff)
qed

lemma process_destroy_kern_ok:
  assumes k: "kern_ok k" and ts: "k_threads k = idle # ts" and own: "th_owner idle \<noteq> process"
    and k': "k_threads k' = (if b then wake_parent q (idle # filter (\<lambda>t. th_owner t \<noteq> process) ts)
                             else idle # filter (\<lambda>t. th_owner t \<noteq> process) ts)"
    and p': "k_procs k' = (k_procs k)(process := None)"
  shows "kern_ok k' \<and> addrs k' = th_addr idle # map th_addr (filter (\<lambda>t. th_owner t \<noteq> process) ts)"
proof -
  let ?rest = "idle # filter (\<lambda>t. th_owner t \<noteq> process) ts"
  have ad: "addrs k' = map th_addr ?rest" unfolding addrs_def k' using wake_parent_addrs by simp
  have kt: "distinct (th_addr idle # map th_addr ts)" "0 \<notin> set (th_addr idle # map th_addr ts)"
      "\<forall>u \<in> set ?rest. signals_ok u \<and> k_procs k' (th_owner u) \<noteq> None"
    using k own by (auto simp: kern_ok_def threads_ok_def addrs_def ts p')
  have "\<exists>u \<in> set ?rest. t = u \<or> t = thread_resume u" if "t \<in> set (k_threads k')" for t
  proof (cases b)
    case True
    then have "t \<in> set (wake_parent q ?rest)" using that k' by simp
    from wake_parent_elem [OF this] show ?thesis by (auto split: if_splits)
  next
    case False
    then have "t \<in> set ?rest" using that k' by simp
    then show ?thesis by blast
  qed
  then have "\<forall>t \<in> set (k_threads k'). signals_ok t \<and> k_procs k' (th_owner t) \<noteq> None"
    using kt(3) by (fastforce simp: thread_resume_def signals_ok_def)
  moreover have "distinct (map th_addr ?rest)" "0 \<notin> set (map th_addr ?rest)"
    using kt(1,2) by (auto simp: distinct_map_filter)
  ultimately show ?thesis using ad by (simp add: kern_ok_def threads_ok_def)
qed

lemma sample_kern_ok: "kern_ok (sample_kernel [sample_thread 10 TS_RUN 0, sample_thread 20 TS_RUN 0])"
proof -
  have "fifo_inv (fifobuffer_create 64)" "fifo_cap (fifobuffer_create 64) = 64"
    by (rule fifo_inv_create) (simp add: fifo_cap_def fifobuffer_create_def)
  then show ?thesis
    by (simp add: kern_ok_def threads_ok_def addrs_def signals_ok_def sample_kernel_def sample_thread_def)
qed

end
