(* ===== verification/Tty.thy ===== *)
theory Tty
  imports Terminal Waiting
begin

text \<open>
  \<^verbatim>\<open>kernel/ttydev.c\<close>: the terminal device. Its master side is the keyboard and the screen (or a
  terminal program), its slave side the programs that run on it. What is typed goes through the
  line discipline of \<^verbatim>\<open>master_write\<close> into the buffer the slave reads, and its echo into the buffer
  the master reads; what programs write goes through \<^verbatim>\<open>process_slave_write\<close> into the latter.

  A kernel terminal is attached through the callback \<^verbatim>\<open>master_read_ready\<close> of \<^verbatim>\<open>terminal.c\<close>, which
  drains the master's buffer to the screen: the field \<open>tty_terminal\<close> is that terminal. The list of
  sleeping readers is the sequence that \<^verbatim>\<open>list.c\<close> refines (theory \<open>KList\<close>). A read that has to wait
  is one attempt that puts the thread to sleep; the scheduler repeats it after a wake-up.
\<close>

section \<open>State\<close>

record termios =
  c_iflag :: u32
  c_oflag :: u32
  c_cflag :: u32
  c_lflag :: u32
  c_line :: u8
  c_cc :: "nat \<Rightarrow> u8"
  c_ispeed :: u32
  c_ospeed :: u32

record TtyDev =
  controlling_process :: i32
  foreground_process :: i32
  winsize :: winsize_t
  buffer_master_write :: FifoBuffer
  buffer_master_write_lock :: Spinlock
  buffer_master_read :: FifoBuffer
  buffer_master_read_lock :: Spinlock
  buffer_echo :: FifoBuffer
  slave_readers :: "ptr list"
  slave_readers_lock :: Spinlock
  master_reader :: ptr
  tty_terminal :: "terminal_t option"
  line_buffer :: "u8 list"
  line_buffer_index :: u32
  tty_termios :: termios

definition TTYDEV_LINEBUFFER_SIZE :: nat where "TTYDEV_LINEBUFFER_SIZE = 4096"

definition VINTR :: nat where "VINTR = 0"
definition VQUIT :: nat where "VQUIT = 1"
definition VERASE :: nat where "VERASE = 2"
definition VTIME :: nat where "VTIME = 5"
definition VMIN :: nat where "VMIN = 6"
definition VSUSP :: nat where "VSUSP = 10"
definition ISTRIP :: u32 where "ISTRIP = 0x20"
definition INLCR :: u32 where "INLCR = 0x40"
definition IGNCR :: u32 where "IGNCR = 0x80"
definition ICRNL :: u32 where "ICRNL = 0x100"
definition ONLCR :: u32 where "ONLCR = 4"
definition OCRNL :: u32 where "OCRNL = 8"
definition ONLRET :: u32 where "ONLRET = 0x20"
definition ISIG :: u32 where "ISIG = 1"
definition ICANON :: u32 where "ICANON = 2"
definition ECHO :: u32 where "ECHO = 8"

definition SIGINT :: u8 where "SIGINT = 2"
definition SIGQUIT :: u8 where "SIGQUIT = 3"
definition SIGTSTP :: u8 where "SIGTSTP = 20"

definition isset :: "u32 \<Rightarrow> u32 \<Rightarrow> bool" where
  "isset flags bits \<longleftrightarrow> flags AND bits \<noteq> 0"

definition iscntrl :: "u8 \<Rightarrow> bool" where
  "iscntrl a \<longleftrightarrow> a < 0x20 \<or> a = 0x7F"

definition is_erase_character :: "TtyDev \<Rightarrow> u8 \<Rightarrow> bool" where
  "is_erase_character d character \<longleftrightarrow> character = c_cc (tty_termios d) VERASE"

definition ttydev_create :: TtyDev where
  "ttydev_create =
     \<lparr>controlling_process = - 1, foreground_process = - 1,
      winsize = \<lparr>ws_row = 25, ws_col = 80, ws_xpixel = 0, ws_ypixel = 0\<rparr>,
      buffer_master_write = fifobuffer_create 4096, buffer_master_write_lock = spinlock_init,
      buffer_master_read = fifobuffer_create 4096, buffer_master_read_lock = spinlock_init,
      buffer_echo = fifobuffer_create 4096, slave_readers = [], slave_readers_lock = spinlock_init,
      master_reader = 0, tty_terminal = None,
      line_buffer = replicate TTYDEV_LINEBUFFER_SIZE 0, line_buffer_index = 0,
      tty_termios = \<lparr>c_iflag = ICRNL, c_oflag = ONLCR, c_cflag = 0, c_lflag = ECHO OR ICANON OR ISIG,
        c_line = 0,
        c_cc = (\<lambda>_. 0)(VMIN := 1, VTIME := 0, VINTR := 3, VSUSP := 26, VQUIT := 28, VERASE := 127),
        c_ispeed = 0, c_ospeed = 0\<rparr>\<rparr>"

section \<open>Waking readers\<close>

definition wake_slave_readers :: "kernel_state \<Rightarrow> TtyDev \<Rightarrow> ptr \<Rightarrow> (kernel_state \<times> TtyDev) option" where
  "wake_slave_readers k d tty = do {
     l \<leftarrow> spinlock_lock [slave_readers_lock d];
     k' \<leftarrow> wake_loop k tty (slave_readers d);
     Some (k', d\<lparr>slave_readers_lock := spinlock_unlock l\<rparr>)
   }"

definition wake_master_reader :: "kernel_state \<Rightarrow> TtyDev \<Rightarrow> ptr \<Rightarrow> kernel_state option" where
  "wake_master_reader k d tty =
     (if master_reader d \<noteq> 0 then wake_loop k tty [master_reader d] else Some k)"

section \<open>The master side\<close>

definition master_read_test_ready :: "TtyDev \<Rightarrow> TtyDev \<times> bool" where
  "master_read_test_ready d =
     (case spinlock_try_lock (buffer_master_read_lock d) of
        (l, True) \<Rightarrow> (d\<lparr>buffer_master_read_lock := spinlock_unlock l\<rparr>,
                      fifobuffer_get_size (buffer_master_read d) \<ge> 1)
      | (l, False) \<Rightarrow> (d\<lparr>buffer_master_read_lock := l\<rparr>, False))"

text \<open>
  One attempt of \<^verbatim>\<open>master_read\<close>: the result is the number of bytes read, or none when the thread
  has been put to sleep.
\<close>

definition master_read ::
  "kernel_state \<Rightarrow> TtyDev \<Rightarrow> ptr \<Rightarrow> ptr \<Rightarrow> u32 \<Rightarrow> u8 list \<Rightarrow>
   (kernel_state \<times> TtyDev \<times> u8 list \<times> i32 option) option"
where
  "master_read k d tty thread sz buffer =
     (if sz > 0 then do {
        l \<leftarrow> spinlock_lock [buffer_master_read_lock d];
        let buffer_len = fifobuffer_get_size (buffer_master_read d);
        (q, buffer', read_size) \<leftarrow>
          (if buffer_len \<ge> 1 then fifobuffer_dequeue (buffer_master_read d) buffer (min buffer_len sz)
           else Some (buffer_master_read d, buffer, - 1));
        let d' = d\<lparr>buffer_master_read := q, buffer_master_read_lock := spinlock_unlock l\<rparr>;
        if sint read_size > 0 then Some (k, d', buffer', Some read_size)
        else do {
          t \<leftarrow> get_thread k thread;
          Some (put_thread k (thread_change_state t TS_WAITIO tty), d'\<lparr>master_reader := thread\<rparr>, buffer', None)
        }
      } else Some (k, d, buffer, Some (- 1)))"

definition ttydev_master_read_nonblock ::
  "TtyDev \<Rightarrow> u32 \<Rightarrow> u8 list \<Rightarrow> (TtyDev \<times> u8 list \<times> i32) option"
where
  "ttydev_master_read_nonblock d sz buffer =
     (if sz > 0 then
        (case spinlock_try_lock (buffer_master_read_lock d) of
           (l, True) \<Rightarrow> do {
             let buffer_len = fifobuffer_get_size (buffer_master_read d);
             (q, buffer', read_size) \<leftarrow>
               (if buffer_len \<ge> 1 then fifobuffer_dequeue (buffer_master_read d) buffer (min buffer_len sz)
                else Some (buffer_master_read d, buffer, 0));
             Some (d\<lparr>buffer_master_read := q, buffer_master_read_lock := spinlock_unlock l\<rparr>, buffer', read_size)
           }
         | (l, False) \<Rightarrow> Some (d\<lparr>buffer_master_read_lock := l\<rparr>, buffer, 0))
      else Some (d, buffer, - 1))"

text \<open>
  The callback of a kernel terminal drains the buffer to the screen, eight bytes at a time,
  through an array of 128 on its stack.
\<close>

partial_function (option) drain_loop ::
  "TtyDev \<Rightarrow> terminal_t \<Rightarrow> u8 list \<Rightarrow> (TtyDev \<times> terminal_t) option"
where
  "drain_loop d t characters = do {
     (d', characters', bytes) \<leftarrow> ttydev_master_read_nonblock d 8 characters;
     if sint bytes > 0 then do {
       t' \<leftarrow> terminal_put_text (winsize d') t characters' bytes;
       drain_loop d' t' characters'
     } else Some (d', t)
   }"

text \<open>The array is not initialised; its bytes behind those read only end a loop that has ended.\<close>

definition master_read_ready :: "TtyDev \<Rightarrow> TtyDev option" where
  "master_read_ready d =
     (case tty_terminal d of
        None \<Rightarrow> Some d
      | Some t \<Rightarrow> do {
          (d', t') \<leftarrow> drain_loop d t (replicate 128 0);
          Some (d'\<lparr>tty_terminal := Some t'\<rparr>)
        })"

definition override_character_master_write :: "termios \<Rightarrow> u8 \<Rightarrow> u8 \<times> bool" where
  "override_character_master_write tm character =
     (let c1 = (if isset (c_iflag tm) ISTRIP then character AND 0x7F else character);
          result = \<not> (c1 = 13 \<and> isset (c_iflag tm) IGNCR);
          c2 = (if c1 = 13 \<and> isset (c_iflag tm) IGNCR then c1
                else if c1 = 10 \<and> isset (c_iflag tm) INLCR then 13
                else if c1 = 13 \<and> isset (c_iflag tm) ICRNL then 10 else c1);
          c3 = (if c2 = 8 then c_cc tm VERASE else c2)
      in (c3, result))"

text \<open>Echoing one character; the second result is the array \<^verbatim>\<open>escaped\<close>.\<close>

definition master_echo :: "TtyDev \<Rightarrow> u8 \<Rightarrow> (TtyDev \<times> u8 list) option" where
  "master_echo d character =
     (if isset (c_lflag (tty_termios d)) ECHO then
        (if iscntrl character \<and> \<not> is_erase_character d character \<and> character \<noteq> 10 \<and> character \<noteq> 13 then do {
           let escaped = [94, (64 + character) mod 128];
           (q, n) \<leftarrow> fifobuffer_enqueue (buffer_echo d) escaped 2;
           Some (d\<lparr>buffer_echo := q\<rparr>, escaped)
         } else if character \<noteq> 127 then do {
           (q, n) \<leftarrow> fifobuffer_enqueue (buffer_echo d) [character] 1;
           Some (d\<lparr>buffer_echo := q\<rparr>, [0, 0])
         } else Some (d, [0, 0]))
      else Some (d, [0, 0]))"

definition master_signal :: "kernel_state \<Rightarrow> TtyDev \<Rightarrow> u8 \<Rightarrow> kernel_state option" where
  "master_signal k d character =
     (let cc = c_cc (tty_termios d); send = (\<lambda>s. map_option fst (process_signal k (foreground_process d) s))
      in if isset (c_lflag (tty_termios d)) ISIG \<and> sint (foreground_process d) \<ge> 0 then
           (if character = cc VINTR then send SIGINT
            else if character = cc VSUSP then send SIGTSTP
            else if character = cc VQUIT then send SIGQUIT
            else Some k)
         else Some k)"

text \<open>One character of a line in canonical mode.\<close>

definition master_canonical :: "TtyDev \<Rightarrow> u8 list \<Rightarrow> u8 \<Rightarrow> u32 \<Rightarrow> (TtyDev \<times> u32) option" where
  "master_canonical d0 escaped character written =
     (let d = (if line_buffer_index d0 \<ge> of_nat TTYDEV_LINEBUFFER_SIZE - 1 then d0\<lparr>line_buffer_index := 0\<rparr> else d0);
          i = line_buffer_index d
      in if is_erase_character d character then
           (if i > 0 then do {
              b \<leftarrow> wr (line_buffer d) (unat (i - 1)) 0;
              (q1, n1) \<leftarrow> fifobuffer_enqueue (buffer_echo d) [8] 1;
              (q2, n2) \<leftarrow> fifobuffer_enqueue q1 [32] 1;
              (q3, n3) \<leftarrow> fifobuffer_enqueue q2 [8] 1;
              Some (d\<lparr>line_buffer := b, line_buffer_index := i - 1, buffer_echo := q3\<rparr>, written)
            } else Some (d, written))
         else if character = 10 then
           (if sint i > 0 then do {
              (q1, n1) \<leftarrow> fifobuffer_enqueue (buffer_master_write d) (line_buffer d) i;
              (q2, n2) \<leftarrow> fifobuffer_enqueue q1 [10] 1;
              q3 \<leftarrow> (if isset (c_lflag (tty_termios d)) ECHO
                     then map_option fst (fifobuffer_enqueue (buffer_echo d) [13] 1)
                     else Some (buffer_echo d));
              Some (d\<lparr>line_buffer_index := 0, buffer_master_write := q2, buffer_echo := q3\<rparr>, n1 + n2)
            } else Some (d, written))
         else if escaped ! 0 = 94 then
           (if i < of_nat TTYDEV_LINEBUFFER_SIZE - 2 then do {
              b1 \<leftarrow> wr (line_buffer d) (unat i) (escaped ! 0);
              b2 \<leftarrow> wr b1 (unat (i + 1)) (escaped ! 1);
              Some (d\<lparr>line_buffer := b2, line_buffer_index := i + 2\<rparr>, written)
            } else Some (d, written))
         else
           (if i < of_nat TTYDEV_LINEBUFFER_SIZE - 1 then do {
              b \<leftarrow> wr (line_buffer d) (unat i) character;
              Some (d\<lparr>line_buffer := b, line_buffer_index := i + 1\<rparr>, written)
            } else Some (d, written)))"

definition master_char ::
  "kernel_state \<Rightarrow> TtyDev \<Rightarrow> u8 \<Rightarrow> u32 \<Rightarrow> (kernel_state \<times> TtyDev \<times> u32) option"
where
  "master_char k d c0 written =
     (case override_character_master_write (tty_termios d) c0 of
        (character, use_character) \<Rightarrow>
          if \<not> use_character then Some (k, d, written)
          else do {
            (d1, escaped) \<leftarrow> master_echo d character;
            k1 \<leftarrow> master_signal k d1 character;
            if isset (c_lflag (tty_termios d1)) ICANON then do {
              (d2, written') \<leftarrow> master_canonical d1 escaped character written;
              Some (k1, d2, written')
            } else do {
              (q, n) \<leftarrow> fifobuffer_enqueue (buffer_master_write d1) [character] 1;
              Some (k1, d1\<lparr>buffer_master_write := q\<rparr>, written + n)
            }
          })"

fun master_loop ::
  "kernel_state \<Rightarrow> TtyDev \<Rightarrow> u8 list \<Rightarrow> u32 \<Rightarrow> (kernel_state \<times> TtyDev \<times> u32) option"
where
  "master_loop k d [] written = Some (k, d, written)"
| "master_loop k d (c # cs) written = do {
     (k', d', written') \<leftarrow> master_char k d c written;
     master_loop k' d' cs written'
   }"

text \<open>Handing the echo to the master: the kernel terminal prints it, a sleeping reader wakes up.\<close>

definition hand_over_echo :: "kernel_state \<Rightarrow> TtyDev \<Rightarrow> ptr \<Rightarrow> (kernel_state \<times> TtyDev) option" where
  "hand_over_echo k d tty =
     (if fifobuffer_get_size (buffer_echo d) > 0 then do {
        l \<leftarrow> spinlock_lock [buffer_master_read_lock d];
        (q, e, w) \<leftarrow> fifobuffer_enqueue_from_other (buffer_master_read d) (buffer_echo d);
        let bytes_usable = fifobuffer_get_size q;
        let d1 = d\<lparr>buffer_master_read := q, buffer_echo := e, buffer_master_read_lock := spinlock_unlock l\<rparr>;
        d2 \<leftarrow> (if bytes_usable > 0 then master_read_ready d1 else Some d1);
        k' \<leftarrow> (if sint w > 0 then wake_master_reader k d2 tty else Some k);
        Some (k', d2)
      } else Some (k, d))"

definition master_write ::
  "kernel_state \<Rightarrow> TtyDev \<Rightarrow> ptr \<Rightarrow> u32 \<Rightarrow> u8 list \<Rightarrow> (kernel_state \<times> TtyDev \<times> i32) option"
where
  "master_write k d tty sz buffer =
     (if sz = 0 then Some (k, d, - 1)
      else do {
        let d0 = d\<lparr>buffer_echo := fifobuffer_clear (buffer_echo d)\<rparr>;
        l \<leftarrow> spinlock_lock [buffer_master_write_lock d0];
        let to_write = min sz (fifobuffer_get_free (buffer_master_write d0));
        (k1, d1, written) \<leftarrow>
          (if unat to_write \<le> length buffer then master_loop k d0 (take (unat to_write) buffer) 0 else None);
        let d2 = d1\<lparr>buffer_master_write_lock := spinlock_unlock l\<rparr>;
        (k3, d3) \<leftarrow> (if written > 0 then wake_slave_readers k1 d2 tty else Some (k1, d2));
        (k4, d4) \<leftarrow> hand_over_echo k3 d3 tty;
        Some (k4, d4, written)
      })"

text \<open>A key of the keyboard: \<^verbatim>\<open>terminal_send_key\<close> writes its bytes to the master side.\<close>

definition terminal_send_key ::
  "kernel_state \<Rightarrow> TtyDev \<Rightarrow> ptr \<Rightarrow> u8 \<Rightarrow> u8 \<Rightarrow> (kernel_state \<times> TtyDev \<times> i32) option"
where
  "terminal_send_key k d tty modifier character = do {
     t \<leftarrow> tty_terminal d;
     if t_disabled t then Some (k, d, 0)
     else let s = key_sequence modifier character
          in master_write k d tty (of_nat (length s)) (s @ replicate (8 - length s) 0)
   }"

section \<open>The slave side\<close>

definition needed_size :: "TtyDev \<Rightarrow> u32" where
  "needed_size d = (if c_lflag (tty_termios d) AND ICANON \<noteq> ICANON then ucast (c_cc (tty_termios d) VMIN) else 1)"

definition slave_read_test_ready :: "TtyDev \<Rightarrow> TtyDev \<times> bool" where
  "slave_read_test_ready d =
     (case spinlock_try_lock (buffer_master_write_lock d) of
        (l, True) \<Rightarrow> (d\<lparr>buffer_master_write_lock := spinlock_unlock l\<rparr>,
                      fifobuffer_get_size (buffer_master_write d) \<ge> needed_size d)
      | (l, False) \<Rightarrow> (d\<lparr>buffer_master_write_lock := l\<rparr>, False))"

text \<open>One attempt of \<^verbatim>\<open>slave_read\<close>, as for the master.\<close>

definition slave_read ::
  "kernel_state \<Rightarrow> TtyDev \<Rightarrow> ptr \<Rightarrow> ptr \<Rightarrow> u32 \<Rightarrow> u8 list \<Rightarrow>
   (kernel_state \<times> TtyDev \<times> u8 list \<times> i32 option) option"
where
  "slave_read k d tty thread sz buffer =
     (if sz > 0 then do {
        l \<leftarrow> spinlock_lock [buffer_master_write_lock d];
        let needed = (if c_lflag (tty_termios d) AND ICANON \<noteq> ICANON then min sz (needed_size d) else 1);
        let buffer_len = fifobuffer_get_size (buffer_master_write d);
        (q, buffer', read_size) \<leftarrow>
          (if buffer_len \<ge> needed then fifobuffer_dequeue (buffer_master_write d) buffer (min buffer_len sz)
           else Some (buffer_master_write d, buffer, - 1));
        let d' = d\<lparr>buffer_master_write := q, buffer_master_write_lock := spinlock_unlock l\<rparr>;
        if sint read_size > 0 then Some (k, d', buffer', Some read_size)
        else if needed = 0 then Some (k, d', buffer', Some 0)
        else do {
          rl \<leftarrow> spinlock_lock [slave_readers_lock d'];
          t \<leftarrow> get_thread k thread;
          Some (put_thread k (thread_change_state t TS_WAITIO tty),
                d'\<lparr>slave_readers := remove1 thread (slave_readers d') @ [thread],
                   slave_readers_lock := spinlock_unlock rl\<rparr>, buffer', None)
        }
      } else Some (k, d, buffer, Some (- 1)))"

text \<open>Output processing of one character, and of a text.\<close>

definition slave_char :: "u32 \<Rightarrow> FifoBuffer \<Rightarrow> u8 \<Rightarrow> u32 \<Rightarrow> (FifoBuffer \<times> u32) option" where
  "slave_char oflag fifo c written =
     (let put = (\<lambda>w. do {
            (q, n) \<leftarrow> fifobuffer_enqueue fifo [w] 1;
            Some (q, if sint n > 0 then written + 1 else written)
          })
      in if c = 13 \<and> isset oflag OCRNL then put 10
         else if c = 13 \<and> isset oflag ONLRET then Some (fifo, written + 1)
         else if c = 10 \<and> isset oflag ONLCR then
           (if fifobuffer_get_free fifo \<ge> 2 then do {
              (q1, n1) \<leftarrow> fifobuffer_enqueue fifo [13] 1;
              (q2, n2) \<leftarrow> fifobuffer_enqueue q1 [10] 1;
              Some (q2, written + 1)
            } else Some (fifo, written))
         else put c)"

fun process_slave_write :: "u32 \<Rightarrow> FifoBuffer \<Rightarrow> u8 list \<Rightarrow> u32 \<Rightarrow> (FifoBuffer \<times> u32) option" where
  "process_slave_write oflag fifo [] written = Some (fifo, written)"
| "process_slave_write oflag fifo (c # cs) written = do {
     (fifo', written') \<leftarrow> slave_char oflag fifo c written;
     process_slave_write oflag fifo' cs written'
   }"

definition slave_write ::
  "kernel_state \<Rightarrow> TtyDev \<Rightarrow> ptr \<Rightarrow> u32 \<Rightarrow> u8 list \<Rightarrow> (kernel_state \<times> TtyDev \<times> i32) option"
where
  "slave_write k d tty sz buffer =
     (if sz = 0 then Some (k, d, - 1)
      else do {
        l \<leftarrow> spinlock_lock [buffer_master_read_lock d];
        let free = fifobuffer_get_free (buffer_master_read d);
        let n = min sz free;
        (q, written) \<leftarrow>
          (if free > 0 then
             (if unat n \<le> length buffer
              then process_slave_write (c_oflag (tty_termios d)) (buffer_master_read d) (take (unat n) buffer) 0
              else None)
           else Some (buffer_master_read d, 0));
        let bytes_usable = fifobuffer_get_size q;
        let d1 = d\<lparr>buffer_master_read := q, buffer_master_read_lock := spinlock_unlock l\<rparr>;
        d2 \<leftarrow> (if bytes_usable > 0 then master_read_ready d1 else Some d1);
        if sint written > 0 then do {
          k' \<leftarrow> wake_master_reader k d2 tty;
          Some (k', d2, written)
        } else Some (k, d2, - 1)
      })"

section \<open>Control requests\<close>

text \<open>The object the argument points to, by the type each request gives it.\<close>

record ioctl_arg =
  arg_int :: i32
  arg_winsize :: winsize_t
  arg_termios :: termios

definition TIOCGPGRP :: u32 where "TIOCGPGRP = 0x540F"
definition TIOCSPGRP :: u32 where "TIOCSPGRP = 0x5410"
definition TIOCGWINSZ :: u32 where "TIOCGWINSZ = 0x5413"
definition TIOCSWINSZ :: u32 where "TIOCSWINSZ = 0x5414"
definition TCGETS :: u32 where "TCGETS = 0x5401"
definition TCSETS :: u32 where "TCSETS = 0x5402"
definition TCSETSW :: u32 where "TCSETSW = 0x5403"
definition TCSETSF :: u32 where "TCSETSF = 0x5404"
definition ENOTTY :: i32 where "ENOTTY = 25"
definition EFAULT :: i32 where "EFAULT = 14"

definition current_tty :: "kernel_state \<Rightarrow> ptr option" where
  "current_tty k = do {
     t \<leftarrow> get_thread k (k_current k);
     p \<leftarrow> k_procs k (th_owner t);
     Some (p_tty p)
   }"

definition slave_ioctl ::
  "kernel_state \<Rightarrow> TtyDev \<Rightarrow> ptr \<Rightarrow> i32 \<Rightarrow> ptr \<Rightarrow> ioctl_arg \<Rightarrow> (TtyDev \<times> ioctl_arg \<times> i32) option"
where
  "slave_ioctl k d node request argp arg = do {
     tty \<leftarrow> current_tty k;
     Some (
       if node \<noteq> tty then (d, arg, - ENOTTY)
       else if request \<notin> {TIOCGPGRP, TIOCSPGRP, TIOCGWINSZ, TIOCSWINSZ, TCGETS, TCSETS, TCSETSW, TCSETSF}
       then (d, arg, 0)
       else if \<not> check_user_access argp then (d, arg, - EFAULT)
       else if request = TIOCGPGRP then (d, arg\<lparr>arg_int := foreground_process d\<rparr>, 0)
       else if request = TIOCSPGRP then (d\<lparr>foreground_process := arg_int arg\<rparr>, arg, 0)
       else if request = TIOCGWINSZ then (d, arg\<lparr>arg_winsize := winsize d\<rparr>, 0)
       else if request = TIOCSWINSZ then (d\<lparr>winsize := arg_winsize arg\<rparr>, arg, 0)
       else if request = TCGETS then (d, arg\<lparr>arg_termios := tty_termios d\<rparr>, 0)
       else (d\<lparr>tty_termios := arg_termios arg\<rparr>, arg, 0))
   }"

section \<open>Signals from the keyboard\<close>

lemma master_signal_evolves:
  assumes "kern_ok k"
  shows "ok (master_signal k d c) (kern_evolves k)"
proof -
  have "ok (map_option fst (process_signal k (foreground_process d) s)) (kern_evolves k)"
    if "s < SIGNAL_COUNT" for s
    using process_signal_evolves [OF assms that, of "foreground_process d"] by (auto simp: ok_iff)
  moreover have "SIGINT < SIGNAL_COUNT" "SIGTSTP < SIGNAL_COUNT" "SIGQUIT < SIGNAL_COUNT"
    by (simp_all add: SIGINT_def SIGTSTP_def SIGQUIT_def SIGNAL_COUNT_def)
  ultimately show ?thesis by (simp add: master_signal_def Let_def)
qed

section \<open>The line discipline as a function on texts\<close>

text \<open>
  The reference: the line being edited, the bytes delivered to the reader and the bytes echoed,
  as lists. \<open>echo_of\<close> is what a character shows; a control character shows as a caret and a
  letter, and in canonical mode these two are also what the line gets.
\<close>

definition caret_form :: "termios \<Rightarrow> u8 \<Rightarrow> bool" where
  "caret_form tm c \<longleftrightarrow> isset (c_lflag tm) ECHO \<and> iscntrl c \<and> c \<noteq> c_cc tm VERASE \<and> c \<noteq> 10 \<and> c \<noteq> 13"

definition echo_of :: "termios \<Rightarrow> u8 \<Rightarrow> u8 list" where
  "echo_of tm c =
     (if caret_form tm c then [94, (64 + c) mod 128]
      else if isset (c_lflag tm) ECHO \<and> c \<noteq> 127 then [c] else [])"

definition edit_canonical :: "termios \<Rightarrow> u8 list \<Rightarrow> u8 \<Rightarrow> u8 list \<times> u8 list \<times> u8 list" where
  "edit_canonical tm line0 c =
     (let line = (if 4095 \<le> length line0 then [] else line0)
      in if c = c_cc tm VERASE then (butlast line, [], if line = [] then [] else [8, 32, 8])
         else if c = 10 then
           (if line = [] then ([], [], [])
            else ([], line @ [10], if isset (c_lflag tm) ECHO then [13] else []))
         else if caret_form tm c then (if length line < 4094 then line @ echo_of tm c else line, [], [])
         else (line @ [c], [], []))"

definition edit_char :: "termios \<Rightarrow> u8 list \<Rightarrow> u8 \<Rightarrow> u8 list \<times> u8 list \<times> u8 list" where
  "edit_char tm line c0 =
     (case override_character_master_write tm c0 of
        (c, use) \<Rightarrow>
          if \<not> use then (line, [], [])
          else if isset (c_lflag tm) ICANON then
            (case edit_canonical tm line c of (line', out, ech) \<Rightarrow> (line', out, echo_of tm c @ ech))
          else (line, [c], echo_of tm c))"

fun edit :: "termios \<Rightarrow> u8 list \<Rightarrow> u8 list \<Rightarrow> u8 list \<times> u8 list \<times> u8 list" where
  "edit tm line [] = (line, [], [])"
| "edit tm line (c # cs) =
     (case edit_char tm line c of (line', out, ech) \<Rightarrow>
        (case edit tm line' cs of (line'', out', ech') \<Rightarrow> (line'', out @ out', ech @ ech')))"

section \<open>The device is well formed\<close>

definition tty_inv :: "TtyDev \<Rightarrow> bool" where
  "tty_inv d \<longleftrightarrow> fifo_inv (buffer_master_write d) \<and> fifo_inv (buffer_master_read d) \<and>
     fifo_inv (buffer_echo d) \<and> buffer_master_write_lock d = 0 \<and> buffer_master_read_lock d = 0 \<and>
     slave_readers_lock d = 0 \<and> length (line_buffer d) = 4096 \<and> unat (line_buffer_index d) \<le> 4095 \<and>
     fifo_cap (buffer_master_write d) = 4096 \<and> fifo_cap (buffer_master_read d) = 4096 \<and>
     fifo_cap (buffer_echo d) = 4096 \<and>
     (\<forall>t. tty_terminal d = Some t \<longrightarrow> term_ok (winsize d) t)"

definition tty_line :: "TtyDev \<Rightarrow> u8 list" where
  "tty_line d = take (unat (line_buffer_index d)) (line_buffer d)"

definition tty_input :: "TtyDev \<Rightarrow> u8 list" where
  "tty_input d = fifo_list (buffer_master_write d)"

definition tty_output :: "TtyDev \<Rightarrow> u8 list" where
  "tty_output d = fifo_list (buffer_master_read d)"

text \<open>The fields that input processing does not touch.\<close>

definition input_frame :: "TtyDev \<Rightarrow> TtyDev" where
  "input_frame d = d\<lparr>buffer_master_write := fifobuffer_create 0, buffer_echo := fifobuffer_create 0,
     line_buffer := [], line_buffer_index := 0\<rparr>"

lemma input_frame_fields:
  assumes "input_frame d' = input_frame d"
  shows "tty_termios d' = tty_termios d" "slave_readers d' = slave_readers d"
    "master_reader d' = master_reader d" "winsize d' = winsize d" "tty_terminal d' = tty_terminal d"
    "foreground_process d' = foreground_process d" "buffer_master_read d' = buffer_master_read d"
    "buffer_master_read_lock d' = buffer_master_read_lock d"
    "buffer_master_write_lock d' = buffer_master_write_lock d" "slave_readers_lock d' = slave_readers_lock d"
  using arg_cong [OF assms, of tty_termios] arg_cong [OF assms, of slave_readers]
    arg_cong [OF assms, of master_reader] arg_cong [OF assms, of winsize] arg_cong [OF assms, of tty_terminal]
    arg_cong [OF assms, of foreground_process] arg_cong [OF assms, of buffer_master_read]
    arg_cong [OF assms, of buffer_master_read_lock] arg_cong [OF assms, of buffer_master_write_lock]
    arg_cong [OF assms, of slave_readers_lock]
  by (simp_all add: input_frame_def)

lemma tty_create_inv: "tty_inv ttydev_create"
proof -
  have "fifo_cap (fifobuffer_create 4096) = 4096" by (simp add: fifo_cap_def fifobuffer_create_def)
  then show ?thesis
    by (simp add: tty_inv_def ttydev_create_def fifo_inv_create spinlock_init_def TTYDEV_LINEBUFFER_SIZE_def)
qed

lemma master_echo_ok:
  assumes "tty_inv d"
  shows "ok (master_echo d c) (\<lambda>(d', esc). (\<exists>q. d' = d\<lparr>buffer_echo := q\<rparr>) \<and> tty_inv d' \<and>
    fifo_list (buffer_echo d') = take 4096 (fifo_list (buffer_echo d) @ echo_of (tty_termios d) c) \<and>
    esc = (if caret_form (tty_termios d) c then echo_of (tty_termios d) c else [0, 0]))"
proof -
  let ?q = "buffer_echo d" and ?e = "[94, (64 + c) mod 128]"
  have q: "fifo_inv ?q" "fifo_cap ?q = 4096" using assms by (auto simp: tty_inv_def)
  have full: "take 4096 (fifo_list ?q) = fifo_list ?q" using fb.bounded [OF q(1)] q(2) by simp
  obtain q2 n2 where e2: "fifobuffer_enqueue ?q ?e 2 = Some (q2, n2)" "fifo_inv q2" "fifo_cap q2 = 4096"
      "fifo_list q2 = take 4096 (fifo_list ?q @ ?e)"
    using enqueue_take [OF q(1), of 2 ?e] q(2) by (auto simp: ok_iff simp del: length_fifo_list)
  obtain q1 n1 where e1: "fifobuffer_enqueue ?q [c] 1 = Some (q1, n1)" "fifo_inv q1" "fifo_cap q1 = 4096"
      "fifo_list q1 = take 4096 (fifo_list ?q @ [c])"
    using enqueue_byte [OF q(1), of c] q(2) by (auto simp: ok_iff simp del: length_fifo_list)
  have same: "\<exists>q. d = d\<lparr>buffer_echo := q\<rparr>" by (rule exI [of _ ?q]) simp
  show ?thesis
  proof (cases "caret_form (tty_termios d) c")
    case True
    then show ?thesis using assms e2 unfolding master_echo_def
      by (auto simp: caret_form_def is_erase_character_def echo_of_def tty_inv_def Let_def)
  next
    case False
    show ?thesis
    proof (cases "isset (c_lflag (tty_termios d)) ECHO \<and> c \<noteq> 127")
      case True
      then show ?thesis using False assms e1 unfolding master_echo_def
        by (auto simp: caret_form_def is_erase_character_def echo_of_def tty_inv_def Let_def)
    next
      case no: False
      then have "echo_of (tty_termios d) c = []" using False by (auto simp: echo_of_def)
      moreover have "master_echo d c = Some (d, [0, 0])"
        using no False unfolding master_echo_def by (auto simp: caret_form_def is_erase_character_def)
      ultimately show ?thesis using False assms full same by auto
    qed
  qed
qed

text \<open>
  A character of a line in canonical mode: the buffers get what the reference says, cut off
  where they are full; a delivered line is counted, unless the buffer was full before.
\<close>

lemma take_butlast_Suc: "0 < i \<Longrightarrow> i \<le> length xs \<Longrightarrow> take (i - 1) (xs[i - 1 := v]) = butlast (take i xs)"
  by (simp add: butlast_take)

lemma tty_line_index: "tty_inv d \<Longrightarrow> length (tty_line d) = unat (line_buffer_index d)"
  by (simp add: tty_inv_def tty_line_def)

lemma enqueue_three:
  assumes "fifo_inv q" and "fifo_cap q = 4096"
  shows "\<exists>q1 n1 q2 n2 q3 n3. fifobuffer_enqueue q [a] 1 = Some (q1, n1) \<and>
    fifobuffer_enqueue q1 [b] 1 = Some (q2, n2) \<and> fifobuffer_enqueue q2 [c] 1 = Some (q3, n3) \<and>
    fifo_inv q3 \<and> fifo_cap q3 = 4096 \<and> fifo_list q3 = take 4096 (fifo_list q @ [a, b, c])"
proof -
  obtain q1 n1 where q1: "fifobuffer_enqueue q [a] 1 = Some (q1, n1)" "fifo_inv q1" "fifo_cap q1 = 4096"
      "fifo_list q1 = take 4096 (fifo_list q @ [a])"
    using enqueue_byte [OF assms(1), of a] assms(2) by (auto simp: ok_iff simp del: length_fifo_list take_append)
  obtain q2 n2 where q2: "fifobuffer_enqueue q1 [b] 1 = Some (q2, n2)" "fifo_inv q2" "fifo_cap q2 = 4096"
      "fifo_list q2 = take 4096 (fifo_list q1 @ [b])"
    using enqueue_byte [OF q1(2), of b] q1(3) by (auto simp: ok_iff simp del: length_fifo_list take_append)
  obtain q3 n3 where q3: "fifobuffer_enqueue q2 [c] 1 = Some (q3, n3)" "fifo_inv q3" "fifo_cap q3 = 4096"
      "fifo_list q3 = take 4096 (fifo_list q2 @ [c])"
    using enqueue_byte [OF q2(2), of c] q2(3) by (auto simp: ok_iff simp del: length_fifo_list take_append)
  have "fifo_list q3 = take 4096 (fifo_list q @ [a, b, c])"
    unfolding q3(4) q2(4) q1(4) by (simp only: take_take_append append_assoc append.simps)
  then show ?thesis using q1(1) q2(1) q3(1-3) by blast
qed

text \<open>The index is never above 4095, and at 4095 the line starts anew.\<close>

definition fresh_line :: "TtyDev \<Rightarrow> TtyDev" where
  "fresh_line d = (if line_buffer_index d \<ge> of_nat TTYDEV_LINEBUFFER_SIZE - 1 then d\<lparr>line_buffer_index := 0\<rparr> else d)"

lemma fresh_line_ok:
  assumes "tty_inv d"
  shows "tty_inv (fresh_line d) \<and> unat (line_buffer_index (fresh_line d)) < 4095 \<and>
    input_frame (fresh_line d) = input_frame d \<and> buffer_master_write (fresh_line d) = buffer_master_write d \<and>
    buffer_echo (fresh_line d) = buffer_echo d \<and> tty_termios (fresh_line d) = tty_termios d \<and>
    tty_line (fresh_line d) = (if 4095 \<le> length (tty_line d) then [] else tty_line d)"
proof -
  have i: "line_buffer_index d \<ge> of_nat TTYDEV_LINEBUFFER_SIZE - 1 \<longleftrightarrow> 4095 \<le> unat (line_buffer_index d)"
    by (simp add: TTYDEV_LINEBUFFER_SIZE_def word_le_nat_alt)
  show ?thesis
  proof (cases "4095 \<le> unat (line_buffer_index d)")
    case True
    then have "fresh_line d = d\<lparr>line_buffer_index := 0\<rparr>" using i by (simp add: fresh_line_def)
    then show ?thesis using True assms
      by (simp add: tty_line_index tty_inv_def input_frame_def tty_line_def)
  next
    case False
    then have "fresh_line d = d" using i by (simp add: fresh_line_def)
    then show ?thesis using False assms by (simp add: tty_line_index)
  qed
qed

lemma canonical_erase:
  assumes inv: "tty_inv d" and i: "unat (line_buffer_index d) < 4095" and pos: "line_buffer_index d \<noteq> 0"
  shows "\<exists>b q1 n1 q2 n2 q3 n3 d'. wr (line_buffer d) (unat (line_buffer_index d - 1)) 0 = Some b \<and>
    fifobuffer_enqueue (buffer_echo d) [8] 1 = Some (q1, n1) \<and> fifobuffer_enqueue q1 [32] 1 = Some (q2, n2) \<and>
    fifobuffer_enqueue q2 [8] 1 = Some (q3, n3) \<and>
    d' = d\<lparr>line_buffer := b, line_buffer_index := line_buffer_index d - 1, buffer_echo := q3\<rparr> \<and> tty_inv d' \<and>
    tty_line d' = butlast (tty_line d) \<and>
    fifo_list (buffer_echo d') = take 4096 (fifo_list (buffer_echo d) @ [8, 32, 8])"
proof -
  obtain q1 n1 q2 n2 q3 n3 where q: "fifobuffer_enqueue (buffer_echo d) [8] 1 = Some (q1, n1)"
      "fifobuffer_enqueue q1 [32] 1 = Some (q2, n2)" "fifobuffer_enqueue q2 [8] 1 = Some (q3, n3)"
      "fifo_inv q3" "fifo_cap q3 = 4096" "fifo_list q3 = take 4096 (fifo_list (buffer_echo d) @ [8, 32, 8])"
    using enqueue_three [of "buffer_echo d" 8 32 8] inv by (auto simp: tty_inv_def simp del: take_append)
  have i1: "unat (line_buffer_index d - 1) = unat (line_buffer_index d) - 1" "0 < unat (line_buffer_index d)"
    using pos unat_minus1 [of "line_buffer_index d"] by (simp_all add: word_gt_0 unat_gt_0)
  have len: "length (line_buffer d) = 4096" using inv by (simp add: tty_inv_def)
  let ?d = "d\<lparr>line_buffer := (line_buffer d)[unat (line_buffer_index d) - 1 := 0],
              line_buffer_index := line_buffer_index d - 1, buffer_echo := q3\<rparr>"
  have "wr (line_buffer d) (unat (line_buffer_index d - 1)) 0 = Some ((line_buffer d)[unat (line_buffer_index d) - 1 := 0])"
    using i i1 len by (simp add: wr_def)
  moreover have "tty_inv ?d" using inv i i1 q(4,5) by (simp add: tty_inv_def)
  moreover have "tty_line ?d = butlast (tty_line d)"
    using take_butlast_Suc [OF i1(2), of "line_buffer d" 0] i i1 len by (simp add: tty_line_def)
  ultimately show ?thesis using q(1-3,6) by simp
qed

lemma canonical_newline:
  assumes inv: "tty_inv d" and i: "unat (line_buffer_index d) < 4095" and pos: "line_buffer_index d \<noteq> 0"
  shows "\<exists>q1 n1 q2 n2. fifobuffer_enqueue (buffer_master_write d) (line_buffer d) (line_buffer_index d) = Some (q1, n1) \<and>
    fifobuffer_enqueue q1 [10] 1 = Some (q2, n2) \<and> fifo_inv q2 \<and> fifo_cap q2 = 4096 \<and>
    fifo_list q2 = take 4096 (tty_input d @ tty_line d @ [10]) \<and>
    (length (tty_input d) < 4096 \<longrightarrow> n1 + n2 > 0) \<and> unat (n1 + n2) \<le> 4096"
proof -
  let ?q = "buffer_master_write d" and ?i = "line_buffer_index d"
  have q: "fifo_inv ?q" "fifo_cap ?q = 4096" "length (line_buffer d) = 4096" using inv by (auto simp: tty_inv_def)
  obtain q1 n1 where e1: "fifobuffer_enqueue ?q (line_buffer d) ?i = Some (q1, n1)" "fifo_inv q1" "fifo_cap q1 = 4096"
      "fifo_list q1 = take 4096 (tty_input d @ tty_line d)"
      "unat n1 = min (unat ?i) (4096 - length (fifo_list ?q))"
    using enqueue_take [OF q(1), of ?i "line_buffer d"] q i pos
    by (auto simp: ok_iff tty_input_def tty_line_def simp del: length_fifo_list take_append)
  obtain q2 n2 where e2: "fifobuffer_enqueue q1 [10] 1 = Some (q2, n2)" "fifo_inv q2" "fifo_cap q2 = 4096"
      "fifo_list q2 = take 4096 (fifo_list q1 @ [10])" "unat n2 \<le> 1"
    using enqueue_byte [OF e1(2), of 10] e1(3) by (auto simp: ok_iff simp del: length_fifo_list take_append)
  have "fifo_list q2 = take 4096 (tty_input d @ tty_line d @ [10])"
    unfolding e2(4) e1(4) by (simp only: take_take_append append_assoc)
  moreover have sum: "unat (n1 + n2) = unat n1 + unat n2"
    using e1(5) i e2(5) by (intro unat_add_small) simp
  moreover have "n1 + n2 > 0" if "length (tty_input d) < 4096"
  proof -
    have "0 < unat n1" using that e1(5) pos by (simp add: tty_input_def unat_gt_0 del: length_fifo_list)
    then show ?thesis using sum by (simp add: word_less_nat_alt)
  qed
  moreover have "unat (n1 + n2) \<le> 4096" using sum e1(5) i e2(5) by simp
  ultimately show ?thesis using e1(1) e2(1-3) by blast
qed

lemma canonical_store:
  assumes inv: "tty_inv d" and i: "unat (line_buffer_index d) + length cs \<le> 4095"
  shows "let j = unat (line_buffer_index d);
             b = take j (line_buffer d) @ cs @ drop (j + length cs) (line_buffer d);
             d' = d\<lparr>line_buffer := b, line_buffer_index := line_buffer_index d + of_nat (length cs)\<rparr>
         in tty_inv d' \<and> tty_line d' = tty_line d @ cs"
proof -
  have len: "length (line_buffer d) = 4096" using inv by (simp add: tty_inv_def)
  have n: "unat (of_nat (length cs) :: u32) = length cs" using i by (intro unat_of_nat_small) simp
  have "unat (line_buffer_index d + of_nat (length cs)) = unat (line_buffer_index d) + unat (of_nat (length cs) :: u32)"
    using i n by (intro unat_add_small) simp
  then show ?thesis using inv i n len by (simp add: tty_inv_def tty_line_def Let_def)
qed

text \<open>How far a device has come: what \<open>edit\<close> says of the line, the input and the echo.\<close>

definition input_step :: "TtyDev \<Rightarrow> TtyDev \<Rightarrow> u8 list \<times> u8 list \<times> u8 list \<Rightarrow> bool" where
  "input_step d d' r \<longleftrightarrow> (case r of (line, out, ech) \<Rightarrow>
     tty_inv d' \<and> input_frame d' = input_frame d \<and> tty_line d' = line \<and>
     tty_input d' = take 4096 (tty_input d @ out) \<and>
     fifo_list (buffer_echo d') = take 4096 (fifo_list (buffer_echo d) @ ech))"

lemma input_full:
  assumes "tty_inv d"
  shows "take 4096 (tty_input d) = tty_input d" "take 4096 (fifo_list (buffer_echo d)) = fifo_list (buffer_echo d)"
  using fb.bounded [of "buffer_master_write d"] fb.bounded [of "buffer_echo d"] assms
  by (auto simp: tty_inv_def tty_input_def)

lemma input_step_trans:
  assumes "input_step d e (l1, o1, e1)" and "input_step e f (l2, o2, e2)"
  shows "input_step d f (l2, o1 @ o2, e1 @ e2)"
  using assms unfolding input_step_def prod.case
  by (simp only: take_take_append append_assoc [symmetric])

lemma update_two:
  assumes "Suc i < length xs"
  shows "xs[i := a, Suc i := b] = take i xs @ [a, b] @ drop (i + 2) xs"
proof -
  have "xs[i := a, Suc i := b] = take (Suc i) (xs[i := a]) @ b # drop (Suc (Suc i)) xs"
    using assms by (simp add: upd_conv_take_nth_drop)
  also have "take (Suc i) (xs[i := a]) = take i xs @ [a]"
    using assms by (simp add: take_Suc_conv_app_nth)
  finally show ?thesis by simp
qed

lemma canonical_other:
  assumes inv: "tty_inv d" and i: "unat (line_buffer_index d) < 4095"
    and c: "c \<noteq> c_cc (tty_termios d) VERASE" "c \<noteq> 10"
    and esc: "esc = (if caret_form (tty_termios d) c then echo_of (tty_termios d) c else [0, 0])"
    and fresh: "fresh_line d0 = d"
  shows "\<exists>d'. master_canonical d0 esc c written = Some (d', written) \<and>
    input_step d d' (if caret_form (tty_termios d) c
      then (if length (tty_line d) < 4094 then tty_line d @ echo_of (tty_termios d) c else tty_line d)
      else tty_line d @ [c], [], [])"
proof -
  let ?i = "line_buffer_index d" and ?tm = "tty_termios d"
  have len: "length (line_buffer d) = 4096" using inv by (simp add: tty_inv_def)
  have L: "length (tty_line d) = unat ?i" by (rule tty_line_index [OF inv])
  have full: "take 4096 (tty_input d) = tty_input d" "take 4096 (fifo_list (buffer_echo d)) = fifo_list (buffer_echo d)"
    by (rule input_full [OF inv])+
  have body: "master_canonical d0 esc c written =
     (if esc ! 0 = 94 then
        (if ?i < 4094 then do {
              b1 \<leftarrow> wr (line_buffer d) (unat ?i) (esc ! 0);
              b2 \<leftarrow> wr b1 (unat (?i + 1)) (esc ! 1);
              Some (d\<lparr>line_buffer := b2, line_buffer_index := ?i + 2\<rparr>, written)
            } else Some (d, written))
      else (if ?i < 4095 then do {
              b \<leftarrow> wr (line_buffer d) (unat ?i) c;
              Some (d\<lparr>line_buffer := b, line_buffer_index := ?i + 1\<rparr>, written)
            } else Some (d, written)))"
    using c unfolding master_canonical_def fresh_line_def [symmetric] fresh Let_def
    by (simp add: is_erase_character_def TTYDEV_LINEBUFFER_SIZE_def)
  have small: "?i < 4095" using i by (simp add: word_less_nat_alt)
  have i1: "unat (?i + 1) = Suc (unat ?i)" using unat_plus1_less [OF small] by simp
  show ?thesis
  proof (cases "caret_form ?tm c")
    case True
    then have esc': "esc = [94, (64 + c) mod 128]" "echo_of ?tm c = esc" using esc by (auto simp: echo_of_def)
    show ?thesis
    proof (cases "unat ?i < 4094")
      case room: True
      let ?d = "d\<lparr>line_buffer := take (unat ?i) (line_buffer d) @ esc @ drop (unat ?i + 2) (line_buffer d),
                  line_buffer_index := ?i + 2\<rparr>"
      have "(line_buffer d)[unat ?i := 94, Suc (unat ?i) := (64 + c) mod 128] =
          take (unat ?i) (line_buffer d) @ esc @ drop (unat ?i + 2) (line_buffer d)"
        using update_two [of "unat ?i" "line_buffer d"] room len esc'(1) by simp
      then have "master_canonical d0 esc c written = Some (?d, written)"
        unfolding body using room len i1 esc'(1) by (simp add: wr_def word_less_nat_alt)
      moreover have "tty_inv ?d \<and> tty_line ?d = tty_line d @ esc"
        using canonical_store [OF inv, of esc] room esc'(1) by (simp add: Let_def)
      ultimately show ?thesis using True room L esc'(2) full
        by (simp add: input_step_def input_frame_def tty_input_def)
    next
      case False
      then have "master_canonical d0 esc c written = Some (d, written)"
        unfolding body using esc'(1) by (simp add: word_less_nat_alt)
      then show ?thesis using True False L full inv by (simp add: input_step_def)
    qed
  next
    case False
    let ?d = "d\<lparr>line_buffer := take (unat ?i) (line_buffer d) @ [c] @ drop (unat ?i + 1) (line_buffer d),
                line_buffer_index := ?i + 1\<rparr>"
    have "(line_buffer d)[unat ?i := c] = take (unat ?i) (line_buffer d) @ [c] @ drop (unat ?i + 1) (line_buffer d)"
      using i len by (simp add: upd_conv_take_nth_drop)
    then have "master_canonical d0 esc c written = Some (?d, written)"
      unfolding body using False small i len esc by (simp add: wr_def)
    moreover have "tty_inv ?d \<and> tty_line ?d = tty_line d @ [c]"
      using canonical_store [OF inv, of "[c]"] i by (simp add: Let_def)
    ultimately show ?thesis using False full by (simp add: input_step_def input_frame_def tty_input_def)
  qed
qed

lemma master_canonical_ok:
  assumes inv: "tty_inv d" and esc: "esc = (if caret_form (tty_termios d) c then echo_of (tty_termios d) c else [0, 0])"
  shows "ok (master_canonical d esc c written) (\<lambda>(d', written').
    input_step d d' (edit_canonical (tty_termios d) (tty_line d) c) \<and>
    (case edit_canonical (tty_termios d) (tty_line d) c of (line, out, ech) \<Rightarrow>
      (if out = [] then written' = written
       else (length (tty_input d) < 4096 \<longrightarrow> written' > 0) \<and> unat written' \<le> 4096)))"
proof -
  let ?f = "fresh_line d" and ?tm = "tty_termios d"
  have f: "tty_inv ?f" "unat (line_buffer_index ?f) < 4095" "input_frame ?f = input_frame d"
      "buffer_master_write ?f = buffer_master_write d" "buffer_echo ?f = buffer_echo d" "tty_termios ?f = ?tm"
      "tty_line ?f = (if 4095 \<le> length (tty_line d) then [] else tty_line d)"
    using fresh_line_ok [OF inv] by auto
  have nil: "tty_line ?f = [] \<longleftrightarrow> line_buffer_index ?f = 0"
    using tty_line_index [OF f(1)] by (metis length_0_conv unsigned_eq_0_iff)
  have full: "take 4096 (tty_input d) = tty_input d" "take 4096 (fifo_list (buffer_echo d)) = fifo_list (buffer_echo d)"
    by (rule input_full [OF inv])+
  have same: "tty_input ?f = tty_input d" using f(4) by (simp add: tty_input_def)
  consider (erase) "c = c_cc ?tm VERASE" | (newline) "c \<noteq> c_cc ?tm VERASE" "c = 10" | (other) "c \<noteq> c_cc ?tm VERASE" "c \<noteq> 10"
    by blast
  then show ?thesis
  proof cases
    case erase
    show ?thesis
    proof (cases "line_buffer_index ?f = 0")
      case True
      then have "master_canonical d esc c written = Some (?f, written)"
        using erase f(6) unfolding master_canonical_def fresh_line_def [symmetric] Let_def
        by (simp add: is_erase_character_def)
      then show ?thesis using True nil erase f full same
        by (simp add: input_step_def edit_canonical_def Let_def)
    next
      case False
      then show ?thesis
        using canonical_erase [OF f(1,2) False] nil erase f(3-7) same full
        unfolding master_canonical_def fresh_line_def [symmetric] Let_def
        by (auto simp: is_erase_character_def word_gt_0 input_step_def edit_canonical_def Let_def
            input_frame_def tty_input_def simp del: take_append)
    qed
  next
    case newline
    show ?thesis
    proof (cases "line_buffer_index ?f = 0")
      case True
      then have "master_canonical d esc c written = Some (?f, written)"
        using newline f(6) unfolding master_canonical_def fresh_line_def [symmetric] Let_def
        by (simp add: is_erase_character_def)
      then show ?thesis using True nil newline f full same
        by (simp add: input_step_def edit_canonical_def Let_def)
    next
      case False
      obtain q1 n1 q2 n2 where q: "fifobuffer_enqueue (buffer_master_write ?f) (line_buffer ?f) (line_buffer_index ?f) = Some (q1, n1)"
          "fifobuffer_enqueue q1 [10] 1 = Some (q2, n2)" "fifo_inv q2" "fifo_cap q2 = 4096"
          "fifo_list q2 = take 4096 (tty_input d @ tty_line ?f @ [10])"
          "length (tty_input d) < 4096 \<longrightarrow> n1 + n2 > 0" "unat (n1 + n2) \<le> 4096"
        using canonical_newline [OF f(1,2) False] same by auto
      let ?echo = "if isset (c_lflag ?tm) ECHO then [13] else []"
      obtain q3 where q3: "(if isset (c_lflag ?tm) ECHO then map_option fst (fifobuffer_enqueue (buffer_echo ?f) [13] 1)
            else Some (buffer_echo ?f)) = Some q3" "fifo_inv q3" "fifo_cap q3 = 4096"
          "fifo_list q3 = take 4096 (fifo_list (buffer_echo d) @ ?echo)"
      proof (cases "isset (c_lflag ?tm) ECHO")
        case True
        have "fifo_inv (buffer_echo d)" "fifo_cap (buffer_echo d) = 4096" using inv by (auto simp: tty_inv_def)
        then obtain q n where "fifobuffer_enqueue (buffer_echo d) [13] 1 = Some (q, n)" "fifo_inv q" "fifo_cap q = 4096"
            "fifo_list q = take 4096 (fifo_list (buffer_echo d) @ [13])"
          using enqueue_byte [of "buffer_echo d" 13] by (auto simp: ok_iff simp del: length_fifo_list take_append)
        then show thesis using True f(5) by (intro that [of q]) simp_all
      next
        case False
        then show thesis using inv f(5) full by (intro that [of "buffer_echo d"]) (auto simp: tty_inv_def)
      qed
      let ?d = "?f\<lparr>line_buffer_index := 0, buffer_master_write := q2, buffer_echo := q3\<rparr>"
      have "sint (line_buffer_index ?f) = int (unat (line_buffer_index ?f))"
        using f(2) by (intro sint_nonneg) simp
      moreover have "0 < unat (line_buffer_index ?f)" using False by (simp add: unat_gt_0)
      ultimately have pos: "sint (line_buffer_index ?f) > 0" by linarith
      have "master_canonical d esc c written = Some (?d, n1 + n2)"
        using newline pos q(1,2) q3(1) unfolding master_canonical_def fresh_line_def [symmetric] Let_def f(6)
        by (simp add: is_erase_character_def f(6))
      moreover have "tty_inv ?d" using f(1) q(3,4) q3(2,3) by (simp add: tty_inv_def)
      moreover have "input_frame ?d = input_frame d" using f(3) by (simp add: input_frame_def)
      moreover have "edit_canonical ?tm (tty_line d) c = ([], tty_line ?f @ [10], ?echo)"
        using newline False nil f(7) by (simp add: edit_canonical_def Let_def)
      ultimately show ?thesis using q(5-7) q3(4)
        by (simp add: input_step_def tty_input_def tty_line_def del: take_append)
    qed
  next
    case other
    obtain d' where d': "master_canonical d esc c written = Some (d', written)"
        "input_step ?f d' (if caret_form ?tm c
          then (if length (tty_line ?f) < 4094 then tty_line ?f @ echo_of ?tm c else tty_line ?f)
          else tty_line ?f @ [c], [], [])"
      using canonical_other [OF f(1,2), unfolded f(6), OF other esc refl] by blast
    then show ?thesis using other f(3-7) same
      by (simp add: edit_canonical_def Let_def input_step_def)
  qed
qed

text \<open>The count of bytes written is positive when something was delivered and all of it fitted.\<close>

definition count_ok :: "TtyDev \<Rightarrow> u32 \<Rightarrow> u8 list \<Rightarrow> u32 \<Rightarrow> bool" where
  "count_ok d written out written' \<longleftrightarrow>
     (if out = [] then written' = written
      else (length (tty_input d) + length out \<le> 4096 \<longrightarrow> written' > 0) \<and>
        unat written' \<le> max 4096 (unat written + 1))"

lemma master_char_ok:
  assumes inv: "tty_inv d" and k: "kern_ok k" and w: "unat written < 20000"
  shows "ok (master_char k d c0 written) (\<lambda>(k', d', written'). kern_evolves k k' \<and>
    input_step d d' (edit_char (tty_termios d) (tty_line d) c0) \<and>
    count_ok d written (fst (snd (edit_char (tty_termios d) (tty_line d) c0))) written')"
proof -
  let ?tm = "tty_termios d"
  obtain c use where ov: "override_character_master_write ?tm c0 = (c, use)" by (cases "override_character_master_write ?tm c0")
  show ?thesis
  proof (cases use)
    case False
    then show ?thesis using inv input_full [OF inv]
      by (simp add: master_char_def ov edit_char_def input_step_def count_ok_def)
  next
    case True
    obtain q esc where e: "master_echo d c = Some (d\<lparr>buffer_echo := q\<rparr>, esc)" "tty_inv (d\<lparr>buffer_echo := q\<rparr>)"
        "fifo_list q = take 4096 (fifo_list (buffer_echo d) @ echo_of ?tm c)"
        "esc = (if caret_form ?tm c then echo_of ?tm c else [0, 0])"
      using master_echo_ok [OF inv, of c] by (auto simp: ok_iff simp del: take_append)
    let ?d1 = "d\<lparr>buffer_echo := q\<rparr>"
    have step1: "input_step d ?d1 (tty_line d, [], echo_of ?tm c)"
      using e(2,3) input_full [OF inv] by (simp add: input_step_def input_frame_def tty_line_def tty_input_def del: take_append)
    have in1: "tty_line ?d1 = tty_line d" "tty_input ?d1 = tty_input d" by (simp_all add: tty_line_def tty_input_def)
    have tm1: "tty_termios ?d1 = ?tm" by simp
    obtain k1 where s: "master_signal k ?d1 c = Some k1" "kern_evolves k k1"
      using master_signal_evolves [OF k, of ?d1 c] by (auto simp: ok_iff)
    show ?thesis
    proof (cases "isset (c_lflag ?tm) ICANON")
      case canon: True
      obtain line out ech where ed: "edit_canonical ?tm (tty_line d) c = (line, out, ech)"
        by (cases "edit_canonical ?tm (tty_line d) c")
      obtain d2 w2 where m: "master_canonical ?d1 esc c written = Some (d2, w2)" "input_step ?d1 d2 (line, out, ech)"
          "if out = [] then w2 = written else (length (tty_input d) < 4096 \<longrightarrow> w2 > 0) \<and> unat w2 \<le> 4096"
        using master_canonical_ok [OF e(2), unfolded tm1, OF e(4), of written, unfolded in1 ed] by (auto simp: ok_iff)
      have "edit_char ?tm (tty_line d) c0 = (line, out, echo_of ?tm c @ ech)"
        using ov True canon ed by (simp add: edit_char_def)
      moreover have "input_step d d2 (line, out, echo_of ?tm c @ ech)"
        using input_step_trans [OF step1 m(2)] by simp
      moreover have "count_ok d written out w2" using m(3) by (cases out) (auto simp: count_ok_def)
      moreover have "master_char k d c0 written = Some (k1, d2, w2)"
        using ov True e(1) s(1) canon m(1) by (simp add: master_char_def)
      ultimately show ?thesis using s(2) by simp
    next
      case raw: False
      have mw: "fifo_inv (buffer_master_write d)" "fifo_cap (buffer_master_write d) = 4096"
        using inv by (auto simp: tty_inv_def)
      obtain q2 n where n: "fifobuffer_enqueue (buffer_master_write d) [c] 1 = Some (q2, n)" "fifo_inv q2"
          "fifo_cap q2 = 4096" "fifo_list q2 = take 4096 (tty_input d @ [c])"
          "unat n = min 1 (4096 - length (tty_input d))"
        using enqueue_byte [OF mw(1), of c] mw(2)
        by (auto simp: ok_iff tty_input_def simp del: length_fifo_list take_append)
      let ?d2 = "?d1\<lparr>buffer_master_write := q2\<rparr>"
      have "input_step ?d1 ?d2 (tty_line ?d1, [c], [])"
        using e(2) n(2-4) input_full(2) [OF e(2)] in1
        by (simp add: input_step_def input_frame_def tty_inv_def tty_line_def tty_input_def del: take_append)
      then have "input_step d ?d2 (tty_line d, [c], echo_of ?tm c)"
        using input_step_trans [OF step1] in1 by fastforce
      moreover have "edit_char ?tm (tty_line d) c0 = (tty_line d, [c], echo_of ?tm c)"
        using ov True raw by (simp add: edit_char_def)
      moreover have "master_char k d c0 written = Some (k1, ?d2, written + n)"
        using ov True e(1) s(1) raw n(1) by (simp add: master_char_def)
      moreover have "unat (written + n) = unat written + unat n"
        using w n(5) by (intro unat_add_small) simp
      then have "count_ok d written [c] (written + n)"
        using n(5) by (auto simp: count_ok_def word_less_nat_alt)
      ultimately show ?thesis using s(2) by simp
    qed
  qed
qed

lemma master_loop_ok:
  assumes "tty_inv d" and "kern_ok k" and "max 4096 (unat written) + length cs < 20000"
  shows "ok (master_loop k d cs written) (\<lambda>(k', d', written'). kern_evolves k k' \<and>
    input_step d d' (edit (tty_termios d) (tty_line d) cs) \<and>
    (case edit (tty_termios d) (tty_line d) cs of (line, out, ech) \<Rightarrow>
      if out = [] then written' = written else length (tty_input d) + length out \<le> 4096 \<longrightarrow> written' > 0))"
  using assms
proof (induction cs arbitrary: k d written)
  case Nil
  then show ?case using input_full by (simp add: input_step_def)
next
  case (Cons c cs)
  let ?tm = "tty_termios d"
  have w0: "unat written < 20000" using Cons.prems(3) by simp
  obtain l1 o1 e1 where ed1: "edit_char ?tm (tty_line d) c = (l1, o1, e1)" by (cases "edit_char ?tm (tty_line d) c")
  obtain k1 d1 w1 where m: "master_char k d c written = Some (k1, d1, w1)" "kern_evolves k k1"
      "input_step d d1 (l1, o1, e1)" "count_ok d written o1 w1"
    using master_char_ok [OF Cons.prems(1,2) w0, of c] ed1 by (auto simp: ok_iff)
  have d1: "tty_inv d1" "tty_line d1 = l1" "tty_termios d1 = ?tm" "tty_input d1 = take 4096 (tty_input d @ o1)"
    using m(3) input_frame_fields(1) [of d1 d] by (auto simp: input_step_def simp del: take_append)
  have k1: "kern_ok k1" using kern_evolves_ok [OF m(2) Cons.prems(2)] by simp
  have w1: "max 4096 (unat w1) + length cs < 20000"
    using m(4) Cons.prems(3) by (auto simp: count_ok_def split: if_splits)
  obtain l2 o2 e2 where ed2: "edit ?tm l1 cs = (l2, o2, e2)" by (cases "edit ?tm l1 cs")
  obtain k2 d2 w2 where n: "master_loop k1 d1 cs w1 = Some (k2, d2, w2)" "kern_evolves k1 k2"
      "input_step d1 d2 (l2, o2, e2)"
      "if o2 = [] then w2 = w1 else length (tty_input d1) + length o2 \<le> 4096 \<longrightarrow> w2 > 0"
    using Cons.IH [OF d1(1) k1 w1] d1(2,3) ed2 by (auto simp: ok_iff)
  have "if o1 @ o2 = [] then w2 = written else length (tty_input d) + length (o1 @ o2) \<le> 4096 \<longrightarrow> w2 > 0"
  proof -
    have "length (tty_input d1) = length (tty_input d) + length o1" if "length (tty_input d) + length o1 \<le> 4096"
      using d1(4) that by simp
    then show ?thesis using m(4) n(4) by (auto simp: count_ok_def split: if_splits)
  qed
  then show ?case
    using m(1) n(1) kern_evolves_trans [OF m(2) n(2)] input_step_trans [OF m(3) n(3)] ed1 ed2 by simp
qed

section \<open>Draining to the kernel terminal\<close>

lemma put_text_prefix:
  "0 \<notin> set xs \<Longrightarrow> put_text_loop ws t (xs @ y # ys) (length xs) = put_all (terminal_put_character ws) t xs"
proof (induction xs arbitrary: t)
  case (Cons x xs)
  then show ?case by (cases "terminal_put_character ws t x") auto
qed simp

lemma put_all_disabled: "t_disabled t \<Longrightarrow> put_all (terminal_put_character ws) t xs = Some t"
  by (induction xs) (simp_all add: terminal_put_character_def)

lemma put_text_all:
  assumes "0 \<notin> set xs" and "unat n = length xs"
  shows "terminal_put_text ws t (xs @ y # ys) n = put_all (terminal_put_character ws) t xs"
  using put_text_prefix [OF assms(1)] assms(2) by (simp add: terminal_put_text_def put_all_disabled)

lemma put_all_append:
  "put_all put t (xs @ ys) = Option.bind (put_all put t xs) (\<lambda>t'. put_all put t' ys)"
  by (induction xs arbitrary: t) (simp_all add: bind_assoc split: bind_split)

lemma read_nonblock_ok:
  assumes "fifo_inv (buffer_master_read d)" and "buffer_master_read_lock d = 0"
    and "length characters = 128"
  shows "ok (ttydev_master_read_nonblock d 8 characters) (\<lambda>(d', characters', n).
    (\<exists>q. d' = d\<lparr>buffer_master_read := q\<rparr> \<and> fifo_inv q \<and> fifo_cap q = fifo_cap (buffer_master_read d) \<and>
       fifo_list q = drop 8 (tty_output d)) \<and>
    unat n = min 8 (length (tty_output d)) \<and>
    characters' = take 8 (tty_output d) @ drop (length (take 8 (tty_output d))) characters)"
proof -
  let ?q = "buffer_master_read d"
  let ?n = "min (fifobuffer_get_size ?q) 8"
  have len: "length (tty_output d) = unat (fifobuffer_get_size ?q)"
    by (simp add: tty_output_def fifobuffer_get_size_def)
  have n: "unat ?n = min (length (tty_output d)) 8"
    unfolding len by (simp add: min_def word_le_nat_alt)
  have lock: "d\<lparr>buffer_master_read := q, buffer_master_read_lock := spinlock_unlock l\<rparr> =
      d\<lparr>buffer_master_read := q\<rparr>" for q l
    using assms(2) by (simp add: spinlock_unlock_def)
  show ?thesis
  proof (cases "fifobuffer_get_size ?q = 0")
    case True
    then have "tty_output d = []" using len by simp
    moreover have "ttydev_master_read_nonblock d 8 characters = Some (d\<lparr>buffer_master_read := ?q\<rparr>, characters, 0)"
      using True assms(2) lock
      by (simp add: ttydev_master_read_nonblock_def spinlock_try_lock_def exchange_atomic_def Let_def)
    moreover have "\<exists>q. d = d\<lparr>buffer_master_read := q\<rparr> \<and> fifo_inv q \<and> fifo_cap q = fifo_cap ?q \<and> fifo_list q = []"
      using calculation(1) assms(1) by (intro exI [of _ ?q]) (simp add: tty_output_def)
    ultimately show ?thesis by simp
  next
    case False
    then have ge: "fifobuffer_get_size ?q \<ge> 1" by (simp add: word_le_nat_alt unat_gt_0 Suc_le_eq)
    have nz: "?n \<noteq> 0" using False by (simp add: min_def)
    have fit: "unat ?n \<le> length characters" using n assms(3) by linarith
    obtain q' b' r where e: "fifobuffer_dequeue ?q characters ?n = Some (q', b', r)" "fifo_inv q'"
        "fifo_cap q' = fifo_cap ?q" "unat r = min (unat ?n) (length (fifo_list ?q))"
        "fifo_list q' = drop (unat r) (fifo_list ?q)"
        "b' = take (unat r) (fifo_list ?q) @ drop (unat r) characters"
      using fifobuffer_dequeue_ok [OF assms(1) fit nz] by (auto simp: ok_iff)
    have r: "unat r = min 8 (length (tty_output d))" using e(4) n by (simp add: tty_output_def)
    have "take (unat r) (tty_output d) = take 8 (tty_output d)" "drop (unat r) (tty_output d) = drop 8 (tty_output d)"
      unfolding r by (simp_all add: min_def)
    moreover have "length (take 8 (tty_output d)) = unat r" using r by simp
    moreover have "ttydev_master_read_nonblock d 8 characters = Some (d\<lparr>buffer_master_read := q'\<rparr>, b', r)"
      using ge e(1) assms(2) lock
      by (simp add: ttydev_master_read_nonblock_def spinlock_try_lock_def exchange_atomic_def Let_def)
    ultimately show ?thesis using e(2,3,5,6) r by (auto simp: tty_output_def)
  qed
qed

text \<open>The drained terminal: the same device with an empty output buffer, and the characters printed.\<close>

lemma drain_loop_ok:
  assumes "fifo_inv (buffer_master_read d)" and "buffer_master_read_lock d = 0"
    and "length characters = 128" and "term_ok (winsize d) t"
  shows "\<exists>q t'. drain_loop d t characters = Some (d\<lparr>buffer_master_read := q\<rparr>, t') \<and>
    fifo_inv q \<and> fifo_cap q = fifo_cap (buffer_master_read d) \<and> fifo_list q = [] \<and> term_ok (winsize d) t' \<and>
    (0 \<notin> set (tty_output d) \<longrightarrow> put_all (terminal_put_character (winsize d)) t (tty_output d) = Some t')"
  using assms
proof (induction "length (tty_output d)" arbitrary: d characters t rule: less_induct)
  case less
  obtain q cs n where rd: "ttydev_master_read_nonblock d 8 characters = Some (d\<lparr>buffer_master_read := q\<rparr>, cs, n)"
      "fifo_inv q" "fifo_cap q = fifo_cap (buffer_master_read d)" "fifo_list q = drop 8 (tty_output d)"
      "unat n = min 8 (length (tty_output d))"
      "cs = take 8 (tty_output d) @ drop (length (take 8 (tty_output d))) characters"
    using read_nonblock_ok [OF less.prems(1-3)] by (auto simp: ok_iff)
  let ?d = "d\<lparr>buffer_master_read := q\<rparr>"
  have out: "tty_output ?d = drop 8 (tty_output d)" using rd(4) by (simp add: tty_output_def)
  have "unat n < 2 ^ 31" using rd(5) by simp
  then have sn: "sint n = int (unat n)" by (rule sint_nonneg)
  show ?case
  proof (cases "tty_output d = []")
    case True
    then have "unat n = 0" using rd(5) by simp
    then have "\<not> sint n > 0" using sn by linarith
    then have "drain_loop d t characters = Some (?d, t)" by (subst drain_loop.simps) (simp add: rd(1))
    moreover have "fifo_list q = []" using True rd(4) by simp
    ultimately show ?thesis using rd(2,3) less.prems(4) True by (intro exI [of _ q] exI [of _ t]) simp
  next
    case False
    then have "0 < unat n" using rd(5) by simp
    then have pos: "sint n > 0" using sn by linarith
    have clen: "length cs = 128" using rd(6) less.prems(3) by simp
    have fit: "unat n < length cs \<or> 0 \<in> set cs" using clen rd(5) by linarith
    obtain t1 where t1: "terminal_put_text (winsize d) t cs n = Some t1" "term_ok (winsize d) t1"
      using put_text_loop_ok [OF less.prems(4) fit] less.prems(4)
      by (cases "t_disabled t") (auto simp: terminal_put_text_def ok_iff)
    have small: "length (tty_output ?d) < length (tty_output d)" using False out by simp
    obtain q2 t2 where ih: "drain_loop ?d t1 cs = Some (?d\<lparr>buffer_master_read := q2\<rparr>, t2)" "fifo_inv q2"
        "fifo_cap q2 = fifo_cap q" "fifo_list q2 = []" "term_ok (winsize d) t2"
        "0 \<notin> set (tty_output ?d) \<longrightarrow> put_all (terminal_put_character (winsize d)) t1 (tty_output ?d) = Some t2"
      using less.hyps [OF small, of cs t1] rd(2) less.prems(2) clen t1(2) by auto
    have "drain_loop d t characters = Some (d\<lparr>buffer_master_read := q2\<rparr>, t2)"
      using pos t1(1) ih(1) by (subst drain_loop.simps) (simp add: rd(1))
    moreover have "put_all (terminal_put_character (winsize d)) t (tty_output d) = Some t2"
      if nz: "0 \<notin> set (tty_output d)"
    proof -
      let ?xs = "take 8 (tty_output d)"
      have xs: "0 \<notin> set ?xs" "unat n = length ?xs" "length ?xs < 128"
        using nz rd(5) by (auto dest: in_set_takeD)
      obtain y ys where "cs = ?xs @ y # ys"
        using rd(6) less.prems(3) xs(3) by (cases "drop (length ?xs) characters") auto
      then have "put_all (terminal_put_character (winsize d)) t ?xs = Some t1"
        using put_text_all [OF xs(1,2), of "winsize d" t y ys] t1(1) by simp
      moreover have "0 \<notin> set (tty_output ?d)" using nz out by (auto dest: in_set_dropD)
      ultimately have "put_all (terminal_put_character (winsize d)) t (?xs @ drop 8 (tty_output d)) = Some t2"
        using ih(6) out by (simp add: put_all_append del: append_take_drop_id)
      then show ?thesis by simp
    qed
    ultimately show ?thesis using ih(2-5) rd(3) by (intro exI [of _ q2] exI [of _ t2]) simp
  qed
qed

text \<open>What the callback leaves: nothing to read if a terminal is attached, otherwise no change.\<close>

definition drained :: "TtyDev \<Rightarrow> TtyDev \<Rightarrow> bool" where
  "drained d d' \<longleftrightarrow> (case tty_terminal d of
     None \<Rightarrow> d' = d
   | Some t \<Rightarrow> \<exists>q t'. d' = d\<lparr>buffer_master_read := q, tty_terminal := Some t'\<rparr> \<and> fifo_inv q \<and>
       fifo_cap q = fifo_cap (buffer_master_read d) \<and> fifo_list q = [] \<and> term_ok (winsize d) t' \<and>
       (0 \<notin> set (tty_output d) \<longrightarrow> put_all (terminal_put_character (winsize d)) t (tty_output d) = Some t'))"

lemma master_read_ready_ok:
  assumes "tty_inv d"
  shows "ok (master_read_ready d) (drained d)"
proof (cases "tty_terminal d")
  case None
  then show ?thesis by (simp add: master_read_ready_def drained_def)
next
  case (Some t)
  have "fifo_inv (buffer_master_read d)" "buffer_master_read_lock d = 0" "term_ok (winsize d) t"
    using assms Some by (auto simp: tty_inv_def)
  then obtain q t' where q: "drain_loop d t (replicate 128 0) = Some (d\<lparr>buffer_master_read := q\<rparr>, t')"
      "fifo_inv q" "fifo_cap q = fifo_cap (buffer_master_read d)" "fifo_list q = []" "term_ok (winsize d) t'"
      "0 \<notin> set (tty_output d) \<longrightarrow> put_all (terminal_put_character (winsize d)) t (tty_output d) = Some t'"
    using drain_loop_ok [of d "replicate 128 0" t] by auto
  have "master_read_ready d = Some (d\<lparr>buffer_master_read := q, tty_terminal := Some t'\<rparr>)"
    using Some q(1) by (simp add: master_read_ready_def)
  then show ?thesis using Some q(2-6) by (auto simp: drained_def)
qed

lemma drained_inv: "drained d d' \<Longrightarrow> tty_inv d \<Longrightarrow> tty_inv d'"
  by (auto simp: drained_def tty_inv_def split: option.splits)

lemma drained_fields:
  assumes "drained d d'"
  shows "tty_line d' = tty_line d" "tty_input d' = tty_input d" "tty_termios d' = tty_termios d"
    "master_reader d' = master_reader d" "slave_readers d' = slave_readers d" "winsize d' = winsize d"
  using assms by (auto simp: drained_def tty_line_def tty_input_def split: option.splits)

text \<open>
  The bytes that reach the master: they stay in the buffer, or are printed when a kernel
  terminal is attached (which stops a chunk at a NUL).
\<close>

definition reaches_master :: "TtyDev \<Rightarrow> u8 list \<Rightarrow> TtyDev \<Rightarrow> bool" where
  "reaches_master d out d' \<longleftrightarrow> (case tty_terminal d of
     None \<Rightarrow> tty_terminal d' = None \<and> tty_output d' = out
   | Some t \<Rightarrow> tty_output d' = [] \<and> (\<exists>t'. tty_terminal d' = Some t' \<and>
       (0 \<notin> set out \<longrightarrow> put_all (terminal_put_character (winsize d)) t out = Some t')))"

lemma reaches_master_cong:
  assumes "tty_terminal d1 = tty_terminal d" and "winsize d1 = winsize d"
  shows "reaches_master d1 out d' = reaches_master d out d'"
  unfolding reaches_master_def assms by (rule refl)

lemma drained_reaches:
  assumes "drained d1 d'" and "tty_terminal d1 = tty_terminal d" and "winsize d1 = winsize d"
  shows "reaches_master d (tty_output d1) d'"
proof (cases "tty_terminal d")
  case None
  then show ?thesis using assms by (simp add: drained_def reaches_master_def)
next
  case (Some t)
  then obtain q t' where "d' = d1\<lparr>buffer_master_read := q, tty_terminal := Some t'\<rparr>" "fifo_list q = []"
      "0 \<notin> set (tty_output d1) \<longrightarrow> put_all (terminal_put_character (winsize d1)) t (tty_output d1) = Some t'"
    using assms(1,2) by (auto simp: drained_def)
  then show ?thesis using Some assms(3) by (simp add: reaches_master_def tty_output_def)
qed

definition reader_known :: "kernel_state \<Rightarrow> TtyDev \<Rightarrow> bool" where
  "reader_known k d \<longleftrightarrow> (master_reader d \<noteq> 0 \<longrightarrow> master_reader d \<in> set (addrs k)) \<and>
     set (slave_readers d) \<subseteq> set (addrs k)"

lemma wake_master_ok:
  assumes "kern_ok k" and "reader_known k d"
  shows "ok (wake_master_reader k d tty) (\<lambda>k'. kern_evolves k k' \<and>
    (master_reader d \<noteq> 0 \<longrightarrow> woken k tty (master_reader d) k'))"
proof (cases "master_reader d = 0")
  case False
  then have "set [master_reader d] \<subseteq> set (addrs k)" using assms(2) by (simp add: reader_known_def)
  from wake_loop_ok [OF assms(1) this, of tty] show ?thesis
    using False by (auto simp: wake_master_reader_def ok_iff woken_def)
qed (simp add: wake_master_reader_def)

lemma hand_over_echo_ok:
  assumes inv: "tty_inv d" and k: "kern_ok k" and r: "reader_known k d"
  shows "ok (hand_over_echo k d tty) (\<lambda>(k', d'). kern_evolves k k' \<and> tty_inv d' \<and>
    tty_line d' = tty_line d \<and> tty_input d' = tty_input d \<and> tty_termios d' = tty_termios d \<and>
    (let ech = fifo_list (buffer_echo d)
     in if ech = [] then k' = k \<and> d' = d
        else reaches_master d (take 4096 (tty_output d @ ech)) d' \<and>
          (length (tty_output d) < 4096 \<and> master_reader d \<noteq> 0 \<longrightarrow> woken k tty (master_reader d) k')))"
proof (cases "fifobuffer_get_size (buffer_echo d) = 0")
  case True
  then have "fifo_list (buffer_echo d) = []" by (simp add: fifo_list_Nil fifobuffer_get_size_def)
  then show ?thesis using True inv by (simp add: hand_over_echo_def)
next
  case False
  then have ne: "fifo_list (buffer_echo d) \<noteq> []" by (simp add: fifo_list_Nil fifobuffer_get_size_def)
  have q0: "fifo_inv (buffer_master_read d)" "fifo_inv (buffer_echo d)" "buffer_master_read_lock d = 0"
      "fifo_cap (buffer_master_read d) = 4096" "fifo_cap (buffer_echo d) = 4096"
    using inv by (auto simp: tty_inv_def)
  have bound: "length (tty_output d) \<le> 4096" "length (fifo_list (buffer_echo d)) \<le> 4096"
    using fb.bounded [OF q0(1)] fb.bounded [OF q0(2)] q0(4,5) by (simp_all add: tty_output_def)
  obtain q e w where t: "fifobuffer_enqueue_from_other (buffer_master_read d) (buffer_echo d) = Some (q, e, w)"
      "fifo_inv q" "fifo_inv e" "fifo_cap q = 4096" "fifo_cap e = 4096"
      "unat w = min (4096 - length (tty_output d)) (length (fifo_list (buffer_echo d)))"
      "fifo_list q = tty_output d @ take (unat w) (fifo_list (buffer_echo d))"
    using fifobuffer_enqueue_from_other_ok [OF q0(1,2)] q0(4,5) by (auto simp: ok_iff tty_output_def)
  have out: "fifo_list q = take 4096 (tty_output d @ fifo_list (buffer_echo d))"
    using t(6,7) bound by (simp add: min_def)
  let ?d1 = "d\<lparr>buffer_master_read := q, buffer_echo := e, buffer_master_read_lock := spinlock_unlock 1\<rparr>"
  have d1: "tty_inv ?d1" using inv t(2-5) by (simp add: tty_inv_def spinlock_unlock_def)
  have some: "fifobuffer_get_size q \<noteq> 0"
    using ne out bound by (auto simp: fifobuffer_get_size_def simp flip: fifo_list_Nil)
  obtain d2 where d2: "master_read_ready ?d1 = Some d2" "drained ?d1 d2"
    using master_read_ready_ok [OF d1] by (auto simp: ok_iff)
  have inv2: "tty_inv d2" by (rule drained_inv [OF d2(2) d1])
  have same: "tty_line d2 = tty_line d" "tty_input d2 = tty_input d" "tty_termios d2 = tty_termios d"
      "master_reader d2 = master_reader d" "slave_readers d2 = slave_readers d"
    using drained_fields [OF d2(2)] by (simp_all add: tty_line_def tty_input_def)
  have reach: "reaches_master d (take 4096 (tty_output d @ fifo_list (buffer_echo d))) d2"
    using drained_reaches [OF d2(2), of d] out by (simp add: tty_output_def)
  have r2: "reader_known k d2" using r same by (simp add: reader_known_def)
  obtain k' where k': "wake_master_reader k d2 tty = Some k'" "kern_evolves k k'"
      "master_reader d \<noteq> 0 \<longrightarrow> woken k tty (master_reader d) k'"
    using wake_master_ok [OF k r2, of tty] same(4) by (auto simp: ok_iff)
  have "unat w < 2 ^ 31" using t(6) bound by simp
  then have sw: "sint w = int (unat w)" by (rule sint_nonneg)
  show ?thesis
  proof (cases "unat w = 0")
    case True
    then have "\<not> sint w > 0" using sw by linarith
    then have "hand_over_echo k d tty = Some (k, d2)"
      using False q0(3) t(1) some d2(1) by (simp add: hand_over_echo_def word_gt_0 Let_def)
    moreover have "0 < length (fifo_list (buffer_echo d))" using ne by (simp only: length_greater_0_conv) simp
    then have "\<not> length (tty_output d) < 4096" using True t(6) by linarith
    ultimately show ?thesis using inv2 same reach ne by (simp add: Let_def)
  next
    case pos: False
    then have "sint w > 0" using sw by linarith
    then have "hand_over_echo k d tty = Some (k', d2)"
      using False q0(3) t(1) some d2(1) k'(1) by (simp add: hand_over_echo_def word_gt_0 Let_def)
    then show ?thesis using inv2 same reach ne k'(2,3) by (simp add: Let_def)
  qed
qed

lemma wake_slaves_ok:
  assumes "kern_ok k" and "set (slave_readers d) \<subseteq> set (addrs k)" and "slave_readers_lock d = 0"
  shows "ok (wake_slave_readers k d tty) (\<lambda>(k', d'). d' = d \<and> kern_evolves k k' \<and>
    (\<forall>a \<in> set (slave_readers d). woken k tty a k'))"
  using wake_loop_ok [OF assms(1,2), of tty] assms(3)
  by (auto simp: wake_slave_readers_def ok_iff spinlock_unlock_def woken_def)

lemma master_write_ok:
  assumes inv: "tty_inv d" and k: "kern_ok k" and r: "reader_known k d"
    and sz: "sz \<noteq> 0" "unat sz \<le> length buffer"
  shows "let cs = take (min (unat sz) (4096 - length (tty_input d))) buffer in
    ok (master_write k d tty sz buffer) (\<lambda>(k', d', written). kern_evolves k k' \<and> tty_inv d' \<and>
    tty_termios d' = tty_termios d \<and>
    (case edit (tty_termios d) (tty_line d) cs of (line, out, ech) \<Rightarrow>
      tty_line d' = line \<and> tty_input d' = take 4096 (tty_input d @ out) \<and>
      (if ech = [] then tty_output d' = tty_output d \<and> tty_terminal d' = tty_terminal d
       else reaches_master d (take 4096 (tty_output d @ ech)) d') \<and>
      (out \<noteq> [] \<and> length (tty_input d) + length out \<le> 4096 \<longrightarrow>
         (\<forall>a \<in> set (slave_readers d). woken k tty a k'))))"
proof -
  let ?d0 = "d\<lparr>buffer_echo := fifobuffer_clear (buffer_echo d)\<rparr>"
  let ?n = "min sz (fifobuffer_get_free (buffer_master_write ?d0))"
  let ?cs = "take (min (unat sz) (4096 - length (tty_input d))) buffer"
  have q: "fifo_inv (buffer_master_write d)" "fifo_cap (buffer_master_write d) = 4096" "fifo_inv (buffer_echo d)"
      "fifo_cap (buffer_echo d) = 4096" "buffer_master_write_lock d = 0"
    using inv by (auto simp: tty_inv_def)
  have n: "unat ?n = min (unat sz) (4096 - length (tty_input d))"
    using unat_get_free [OF q(1)] q(2) by (simp add: tty_input_def min_def word_le_nat_alt)
  have cs: "take (unat ?n) buffer = ?cs" by (simp only: n)
  have len: "length ?cs \<le> 4096" by simp
  have inv0: "tty_inv ?d0" using inv q(3) fifo_inv_clear [OF q(3)] by (simp add: tty_inv_def)
  have f0: "tty_line ?d0 = tty_line d" "tty_input ?d0 = tty_input d" "tty_output ?d0 = tty_output d"
      "fifo_list (buffer_echo ?d0) = []"
    by (simp_all add: tty_line_def tty_input_def tty_output_def fifo_list_clear)
  obtain line out ech where ed: "edit (tty_termios d) (tty_line d) ?cs = (line, out, ech)"
    by (cases "edit (tty_termios d) (tty_line d) ?cs")
  have w0: "max 4096 (unat (0 :: u32)) + length ?cs < 20000" using len by simp
  have tm0: "tty_termios ?d0 = tty_termios d" by simp
  obtain k1 d1 w where l: "master_loop k ?d0 ?cs 0 = Some (k1, d1, w)" "kern_evolves k k1"
      "input_step ?d0 d1 (line, out, ech)"
      "if out = [] then w = 0 else length (tty_input d) + length out \<le> 4096 \<longrightarrow> w > 0"
    using master_loop_ok [OF inv0 k w0, unfolded tm0 f0(1,2) ed prod.case] by (auto simp: ok_iff)
  have k1: "kern_ok k1" "addrs k1 = addrs k" using kern_evolves_ok [OF l(2) k] by auto
  have d1: "tty_inv d1" "tty_line d1 = line" "tty_input d1 = take 4096 (tty_input d @ out)"
      "fifo_list (buffer_echo d1) = take 4096 ech" "input_frame d1 = input_frame ?d0"
    using l(3) f0(2,4) by (simp_all add: input_step_def del: take_append)
  note fr = input_frame_fields [OF d1(5)]
  let ?d2 = "d1\<lparr>buffer_master_write_lock := spinlock_unlock 1\<rparr>"
  have d2eq: "?d2 = d1" using d1(1) by (simp add: tty_inv_def spinlock_unlock_def)
  have out1: "tty_output d1 = tty_output d" using fr(7) by (simp add: tty_output_def)
  have known: "reader_known k1 d1" using r k1(2) fr(2,3) by (simp add: reader_known_def)
  have sl: "set (slave_readers d1) \<subseteq> set (addrs k1)" "slave_readers_lock d1 = 0"
    using known d1(1) by (simp_all add: reader_known_def tty_inv_def)
  obtain k3 where k3: "(if w > 0 then wake_slave_readers k1 d1 tty else Some (k1, d1)) = Some (k3, d1)"
      "kern_evolves k1 k3" "w > 0 \<longrightarrow> (\<forall>a \<in> set (slave_readers d). woken k1 tty a k3)"
    using wake_slaves_ok [OF k1(1) sl, of tty] fr(2) by (cases "w > 0") (auto simp: ok_iff)
  have k3': "kern_ok k3" "addrs k3 = addrs k1" using kern_evolves_ok [OF k3(2) k1(1)] by auto
  have known3: "reader_known k3 d1" using known k3'(2) by (simp add: reader_known_def)
  obtain k4 d4 where h: "hand_over_echo k3 d1 tty = Some (k4, d4)" "kern_evolves k3 k4" "tty_inv d4"
      "tty_line d4 = line" "tty_input d4 = take 4096 (tty_input d @ out)" "tty_termios d4 = tty_termios d"
      "if take 4096 ech = [] then k4 = k3 \<and> d4 = d1
       else reaches_master d1 (take 4096 (tty_output d1 @ take 4096 ech)) d4 \<and>
         (length (tty_output d1) < 4096 \<and> master_reader d1 \<noteq> 0 \<longrightarrow> woken k3 tty (master_reader d1) k4)"
    using hand_over_echo_ok [OF d1(1) k3'(1) known3, of tty, unfolded d1(2-4)] fr(1)
    by (auto simp: ok_iff Let_def simp del: take_append)
  have fit: "min (unat sz) (4096 - length (tty_input d)) \<le> length buffer" using sz(2) by linarith
  have run: "master_write k d tty sz buffer = Some (k4, d4, w)"
    using sz(1) fit q(5) n cs l(1) k3(1) h(1) d2eq
    by (cases "w > 0") (simp_all add: master_write_def Let_def)
  have reach: "if ech = [] then tty_output d4 = tty_output d \<and> tty_terminal d4 = tty_terminal d
      else reaches_master d (take 4096 (tty_output d @ ech)) d4"
    using h(7) out1 fr(5) reaches_master_cong [of d1 d] fr(4)
    by (cases "ech = []") (simp_all del: take_append)
  have wake: "\<forall>a \<in> set (slave_readers d). woken k tty a k4"
    if "out \<noteq> []" "length (tty_input d) + length out \<le> 4096"
    using that l(4) k3(3) woken_around [OF l(2) _ h(2) k3(2)] by auto
  have "kern_evolves k k4" using kern_evolves_trans [OF kern_evolves_trans [OF l(2) k3(2)] h(2)] .
  then show ?thesis using run h(3-6) reach wake ed by (simp add: Let_def)
qed

section \<open>Output processing as a function on texts\<close>

definition output_of :: "u32 \<Rightarrow> u8 \<Rightarrow> u8 list" where
  "output_of oflag c =
     (if c = 13 \<and> isset oflag OCRNL then [10]
      else if c = 13 \<and> isset oflag ONLRET then []
      else if c = 10 \<and> isset oflag ONLCR then [13, 10] else [c])"

text \<open>A character that does not fit is dropped whole; a character that fits is counted once.\<close>

lemma slave_char_ok:
  assumes f: "fifo_inv f" "fifo_cap f = 4096"
  shows "ok (slave_char oflag f c written) (\<lambda>(f', written'). fifo_inv f' \<and> fifo_cap f' = 4096 \<and>
    (if length (fifo_list f) + length (output_of oflag c) \<le> 4096
     then fifo_list f' = fifo_list f @ output_of oflag c \<and> written' = written + 1
     else fifo_list f' = fifo_list f \<and> written' = written))"
proof -
  have bound: "length (fifo_list f) \<le> 4096" using fb.bounded [OF f(1)] f(2) by simp
  have put: "\<exists>q n. fifobuffer_enqueue f [w] 1 = Some (q, n) \<and> fifo_inv q \<and> fifo_cap q = 4096 \<and>
      fifo_list q = (if length (fifo_list f) + 1 \<le> 4096 then fifo_list f @ [w] else fifo_list f) \<and>
      (sint n > 0 \<longleftrightarrow> length (fifo_list f) + 1 \<le> 4096)" for w
  proof -
    obtain q n where q: "fifobuffer_enqueue f [w] 1 = Some (q, n)" "fifo_inv q" "fifo_cap q = 4096"
        "fifo_list q = take 4096 (fifo_list f @ [w])" "unat n = min 1 (4096 - length (fifo_list f))"
      using enqueue_byte [OF f(1), of w] f(2) by (auto simp: ok_iff simp del: length_fifo_list take_append)
    have "sint n = int (unat n)" using q(5) by (intro sint_nonneg) simp
    then have "sint n > 0 \<longleftrightarrow> length (fifo_list f) + 1 \<le> 4096" using q(5) by linarith
    moreover have "take 4096 (fifo_list f @ [w]) =
        (if length (fifo_list f) + 1 \<le> 4096 then fifo_list f @ [w] else fifo_list f)"
      using bound by simp
    ultimately show ?thesis using q by metis
  qed
  have two: "fifobuffer_get_free f \<ge> 2 \<longleftrightarrow> length (fifo_list f) + 2 \<le> 4096"
    using unat_get_free [OF f(1)] f(2) bound by (simp add: word_le_nat_alt del: length_fifo_list) linarith
  consider "c = 13" "isset oflag OCRNL" | "c = 13" "\<not> isset oflag OCRNL" "isset oflag ONLRET"
    | "c = 10" "isset oflag ONLCR" | (plain) "output_of oflag c = [c]"
      "\<not> (c = 13 \<and> isset oflag OCRNL)" "\<not> (c = 13 \<and> isset oflag ONLRET)" "\<not> (c = 10 \<and> isset oflag ONLCR)"
    by (auto simp: output_of_def)
  then show ?thesis
  proof cases
    case 1
    then show ?thesis using put [of 10] by (auto simp: slave_char_def output_of_def Let_def)
  next
    case 2
    then show ?thesis using f bound by (simp add: slave_char_def output_of_def Let_def)
  next
    case 3
    show ?thesis
    proof (cases "length (fifo_list f) + 2 \<le> 4096")
      case True
      obtain q1 n1 where q1: "fifobuffer_enqueue f [13] 1 = Some (q1, n1)" "fifo_inv q1" "fifo_cap q1 = 4096"
          "fifo_list q1 = take 4096 (fifo_list f @ [13])"
        using enqueue_byte [OF f(1), of 13] f(2) by (auto simp: ok_iff simp del: length_fifo_list take_append)
      obtain q2 n2 where q2: "fifobuffer_enqueue q1 [10] 1 = Some (q2, n2)" "fifo_inv q2" "fifo_cap q2 = 4096"
          "fifo_list q2 = take 4096 (fifo_list q1 @ [10])"
        using enqueue_byte [OF q1(2), of 10] q1(3) by (auto simp: ok_iff simp del: length_fifo_list take_append)
      have "fifo_list q2 = take 4096 (fifo_list f @ [13, 10])"
        unfolding q2(4) q1(4) by (simp only: take_take_append append_assoc append.simps)
      also have "\<dots> = fifo_list f @ [13, 10]" using True by simp
      finally show ?thesis using 3 True two q1(1) q2(1-3) by (simp add: slave_char_def output_of_def Let_def)
    next
      case False
      then show ?thesis using 3 two f by (simp add: slave_char_def output_of_def Let_def)
    qed
  next
    case plain
    then show ?thesis using put [of c] by (auto simp: slave_char_def Let_def)
  qed
qed

lemma process_slave_write_ok:
  assumes "fifo_inv f" and "fifo_cap f = 4096"
  shows "ok (process_slave_write oflag f cs written) (\<lambda>(f', written'). fifo_inv f' \<and> fifo_cap f' = 4096 \<and>
    (length (fifo_list f) + length (concat (map (output_of oflag) cs)) \<le> 4096 \<longrightarrow>
       fifo_list f' = fifo_list f @ concat (map (output_of oflag) cs) \<and> written' = written + of_nat (length cs)) \<and>
    (\<exists>j \<le> length cs. written' = written + of_nat j))"
  using assms
proof (induction cs arbitrary: f written)
  case (Cons c cs)
  obtain f1 w1 where s: "slave_char oflag f c written = Some (f1, w1)" "fifo_inv f1" "fifo_cap f1 = 4096"
      "if length (fifo_list f) + length (output_of oflag c) \<le> 4096
       then fifo_list f1 = fifo_list f @ output_of oflag c \<and> w1 = written + 1
       else fifo_list f1 = fifo_list f \<and> w1 = written"
    using slave_char_ok [OF Cons.prems, of oflag c written] by (auto simp: ok_iff)
  obtain f2 w2 j where p: "process_slave_write oflag f1 cs w1 = Some (f2, w2)" "fifo_inv f2" "fifo_cap f2 = 4096"
      "length (fifo_list f1) + length (concat (map (output_of oflag) cs)) \<le> 4096 \<longrightarrow>
       fifo_list f2 = fifo_list f1 @ concat (map (output_of oflag) cs) \<and> w2 = w1 + of_nat (length cs)"
      "j \<le> length cs" "w2 = w1 + of_nat j"
    using Cons.IH [OF s(2,3), of w1] by (auto simp: ok_iff)
  have "w1 = written + 1 \<or> w1 = written" using s(4) by (auto split: if_splits)
  then have count: "\<exists>j \<le> length (c # cs). w2 = written + of_nat j"
  proof
    assume "w1 = written + 1"
    then show ?thesis using p(5,6) by (intro exI [of _ "Suc j"]) simp
  next
    assume "w1 = written"
    then show ?thesis using p(5,6) by (intro exI [of _ j]) simp
  qed
  have "fifo_list f2 = fifo_list f @ concat (map (output_of oflag) (c # cs)) \<and> w2 = written + of_nat (length (c # cs))"
    if "length (fifo_list f) + length (concat (map (output_of oflag) (c # cs))) \<le> 4096"
  proof -
    have "length (fifo_list f) + length (output_of oflag c) \<le> 4096" using that by simp
    then have f1: "fifo_list f1 = fifo_list f @ output_of oflag c" "w1 = written + 1" using s(4) by auto
    then have "length (fifo_list f1) + length (concat (map (output_of oflag) cs)) \<le> 4096"
      using that by (simp del: length_fifo_list)
    then show ?thesis using p(4) f1 by simp
  qed
  then show ?case using s(1) p(1-3) count by simp
qed simp

lemma slave_write_ok:
  assumes inv: "tty_inv d" and k: "kern_ok k" and r: "reader_known k d"
    and sz: "sz \<noteq> 0" "unat sz \<le> length buffer"
  shows "ok (slave_write k d tty sz buffer) (\<lambda>(k', d', written). kern_evolves k k' \<and> tty_inv d' \<and>
    tty_input d' = tty_input d \<and> tty_line d' = tty_line d \<and>
    (let out = concat (map (output_of (c_oflag (tty_termios d))) (take (unat sz) buffer))
     in length (tty_output d) + max (unat sz) (length out) \<le> 4096 \<longrightarrow>
        written = sz \<and> reaches_master d (tty_output d @ out) d' \<and>
        (master_reader d \<noteq> 0 \<longrightarrow> woken k tty (master_reader d) k')))"
proof -
  let ?q = "buffer_master_read d" and ?of = "c_oflag (tty_termios d)"
  let ?n = "min sz (fifobuffer_get_free ?q)"
  let ?out = "concat (map (output_of ?of) (take (unat sz) buffer))"
  have q: "fifo_inv ?q" "fifo_cap ?q = 4096" "buffer_master_read_lock d = 0" using inv by (auto simp: tty_inv_def)
  have bound: "length (tty_output d) \<le> 4096" using fb.bounded [OF q(1)] q(2) by (simp add: tty_output_def)
  have n: "unat ?n = min (unat sz) (4096 - length (tty_output d))"
    using unat_get_free [OF q(1)] q(2) by (simp add: tty_output_def min_def word_le_nat_alt)
  have fit: "unat ?n \<le> length buffer" using n sz(2) by linarith
  obtain f w j where p: "(if fifobuffer_get_free ?q > 0 then
        (if unat ?n \<le> length buffer then process_slave_write ?of ?q (take (unat ?n) buffer) 0 else None)
        else Some (?q, 0)) = Some (f, w)"
      "fifo_inv f" "fifo_cap f = 4096" "j \<le> 4096" "w = of_nat j"
      "fifobuffer_get_free ?q > 0 \<Longrightarrow> length (tty_output d) + length (concat (map (output_of ?of) (take (unat ?n) buffer))) \<le> 4096 \<Longrightarrow>
       fifo_list f = tty_output d @ concat (map (output_of ?of) (take (unat ?n) buffer)) \<and> w = of_nat (unat ?n)"
  proof (cases "fifobuffer_get_free ?q > 0")
    case True
    obtain f w j where "process_slave_write ?of ?q (take (unat ?n) buffer) 0 = Some (f, w)" "fifo_inv f"
        "fifo_cap f = 4096" "j \<le> length (take (unat ?n) buffer)" "w = of_nat j"
        "length (fifo_list ?q) + length (concat (map (output_of ?of) (take (unat ?n) buffer))) \<le> 4096 \<longrightarrow>
         fifo_list f = fifo_list ?q @ concat (map (output_of ?of) (take (unat ?n) buffer)) \<and>
         w = 0 + of_nat (length (take (unat ?n) buffer))"
      using process_slave_write_ok [OF q(1,2), of ?of "take (unat ?n) buffer" 0] by (auto simp: ok_iff)
    then show thesis using True fit n
      by (intro that [of f w j]) (auto simp: tty_output_def simp del: length_fifo_list)
  next
    case False
    then show thesis using q by (intro that [of ?q 0 0]) simp_all
  qed
  have sw: "sint w > 0 \<longleftrightarrow> 0 < j"
  proof -
    have "unat w = j" unfolding p(5) using p(4) by (intro unat_of_nat_small) simp
    moreover have "sint w = int (unat w)" using p(4) calculation by (intro sint_nonneg) simp
    ultimately show ?thesis by linarith
  qed
  let ?d1 = "d\<lparr>buffer_master_read := f, buffer_master_read_lock := spinlock_unlock 1\<rparr>"
  have d1: "tty_inv ?d1" using inv p(2,3) by (simp add: tty_inv_def spinlock_unlock_def)
  obtain d2 where d2: "(if fifobuffer_get_size f > 0 then master_read_ready ?d1 else Some ?d1) = Some d2"
      "tty_inv d2" "tty_line d2 = tty_line d" "tty_input d2 = tty_input d" "master_reader d2 = master_reader d"
      "slave_readers d2 = slave_readers d" "reaches_master d (fifo_list f) d2"
  proof (cases "fifobuffer_get_size f > 0")
    case True
    obtain d2 where d2: "master_read_ready ?d1 = Some d2" "drained ?d1 d2"
      using master_read_ready_ok [OF d1] by (auto simp: ok_iff)
    have "reaches_master d (fifo_list f) d2"
      using drained_reaches [OF d2(2), of d] by (simp add: tty_output_def)
    then show thesis using True d2 drained_inv [OF d2(2) d1] drained_fields [OF d2(2)]
      by (intro that [of d2]) (simp_all add: tty_line_def tty_input_def)
  next
    case False
    then have e: "fifo_list f = []" by (simp add: fifo_list_Nil fifobuffer_get_size_def word_gt_0)
    have "reaches_master d (fifo_list f) ?d1"
      using e by (cases "tty_terminal d") (simp_all add: reaches_master_def tty_output_def)
    then show thesis using False d1 by (intro that [of ?d1]) (simp_all add: tty_line_def tty_input_def)
  qed
  have r2: "reader_known k d2" using r d2(5,6) by (simp add: reader_known_def)
  obtain k' where k': "wake_master_reader k d2 tty = Some k'" "kern_evolves k k'"
      "master_reader d \<noteq> 0 \<longrightarrow> woken k tty (master_reader d) k'"
    using wake_master_ok [OF k r2, of tty] d2(5) by (auto simp: ok_iff)
  have run: "slave_write k d tty sz buffer = (if 0 < j then Some (k', d2, w) else Some (k, d2, - 1))"
    unfolding slave_write_def Let_def using sz(1) q(3) p(1) d2(1) k'(1) sw by simp
  show ?thesis
  proof (cases "length (tty_output d) + max (unat sz) (length ?out) \<le> 4096")
    case True
    have pos: "0 < unat sz" using sz(1) by (simp add: unat_gt_0)
    have nsz: "unat ?n = unat sz" using n True by linarith
    have "0 < fifobuffer_get_free ?q"
      using unat_get_free [OF q(1)] q(2) True pos by (simp add: word_less_nat_alt tty_output_def del: length_fifo_list)
    then have fw: "fifo_list f = tty_output d @ ?out" "w = sz"
      using p(6) True unfolding nsz by auto
    have "0 < j" using fw(2) p(4,5) sz(1) by (cases j) auto
    then show ?thesis using run k'(2,3) d2(2-4,7) fw by (simp add: Let_def)
  next
    case False
    then show ?thesis using run k'(2) d2(2-4) by (cases "0 < j") (simp_all add: Let_def)
  qed
qed

text \<open>A single bit is set or not: the two tests of \<^verbatim>\<open>ICANON\<close> in the code agree.\<close>

lemma canon_bit:
  assumes "isset flags ICANON"
  shows "flags AND ICANON = ICANON"
proof -
  have two: "bit ICANON n \<longleftrightarrow> n = 1" for n
    using bit_exp_iff [of 1 n, where 'a = "32 word"] by (auto simp: ICANON_def possible_bit_def)
  have "bit flags 1"
  proof (rule ccontr)
    assume "\<not> bit flags 1"
    then have "flags AND ICANON = 0" by (intro bit_word_eqI) (auto simp: bit_and_iff two)
    then show False using assms by (simp add: isset_def)
  qed
  then show ?thesis by (intro bit_word_eqI) (auto simp: bit_and_iff two)
qed

text \<open>Reading: what is there, or sleep.\<close>

lemma slave_read_ok:
  assumes inv: "tty_inv d" and k: "kern_ok k" and a: "thread \<in> set (addrs k)"
    and sz: "sz \<noteq> 0" "unat sz \<le> length buffer"
    and tm: "isset (c_lflag (tty_termios d)) ICANON"
  shows "ok (slave_read k d tty thread sz buffer) (\<lambda>(k', d', buffer', r). tty_inv d' \<and> kern_ok k' \<and>
    addrs k' = addrs k \<and> k_procs k' = k_procs k \<and> tty_termios d' = tty_termios d \<and> tty_line d' = tty_line d \<and>
    tty_output d' = tty_output d \<and> master_reader d' = master_reader d \<and>
    (if tty_input d = []
     then r = None \<and> buffer' = buffer \<and> tty_input d' = [] \<and>
       set (slave_readers d') = insert thread (set (remove1 thread (slave_readers d))) \<and>
       (\<exists>t. get_thread k' thread = Some t \<and> waits_on t tty)
     else let n = min (length (tty_input d)) (unat sz)
       in k' = k \<and> r = Some (of_nat n) \<and> buffer' = take n (tty_input d) @ drop n buffer \<and>
          tty_input d' = drop n (tty_input d) \<and> slave_readers d' = slave_readers d))"
proof -
  let ?q = "buffer_master_write d"
  have q: "fifo_inv ?q" "fifo_cap ?q = 4096" "buffer_master_write_lock d = 0" "slave_readers_lock d = 0"
    using inv by (auto simp: tty_inv_def)
  have canon: "c_lflag (tty_termios d) AND ICANON = ICANON" by (rule canon_bit [OF tm])
  have len: "length (tty_input d) = unat (fifobuffer_get_size ?q)" by (simp add: tty_input_def fifobuffer_get_size_def)
  show ?thesis
  proof (cases "tty_input d = []")
    case True
    then have z: "fifobuffer_get_size ?q = 0" using len by (simp add: unsigned_eq_0_iff)
    obtain t where t: "get_thread k thread = Some t" using get_thread_ex [OF a] by auto
    have ta: "th_addr t = thread" "t \<in> set (k_threads k)" using get_thread_Some [OF t] by auto
    let ?t = "thread_change_state t TS_WAITIO tty"
    let ?k = "put_thread k ?t"
    let ?d = "d\<lparr>slave_readers := remove1 thread (slave_readers d) @ [thread]\<rparr>"
    have "slave_read k d tty thread sz buffer = Some (?k, ?d, buffer, None)"
      using sz(1) q(3,4) canon z t
      by (simp add: slave_read_def Let_def spinlock_unlock_def word_gt_0)
    moreover have "kern_ok ?k"
    proof -
      have "k_procs k (th_owner ?t) \<noteq> None" "signals_ok ?t"
        using k ta(2) by (auto simp: kern_ok_def threads_ok_def thread_change_state_def signals_ok_def)
      then show ?thesis using k threads_ok_put [of k ?t]
        by (auto simp: kern_ok_def) (auto simp: put_thread_def split: if_splits)
    qed
    moreover have "get_thread ?k thread = Some ?t"
      using a ta(1) by (simp add: get_put thread_change_state_def)
    moreover have "waits_on ?t tty" by (simp add: waits_on_def thread_change_state_def)
    moreover have "tty_inv ?d" using inv by (simp add: tty_inv_def)
    ultimately show ?thesis using True
      by (auto simp: tty_line_def tty_output_def tty_input_def)
  next
    case False
    then have pos: "0 < length (tty_input d)" by simp
    let ?n = "min (fifobuffer_get_size ?q) sz"
    have n: "unat ?n = min (length (tty_input d)) (unat sz)" unfolding len by (simp add: min_def word_le_nat_alt)
    have bound: "length (tty_input d) \<le> 4096" using fb.bounded [OF q(1)] q(2) by (simp add: tty_input_def)
    have "0 < unat sz" using sz(1) by (simp add: unat_gt_0)
    then have "unat ?n \<noteq> 0" using n pos by linarith
    then have nz: "?n \<noteq> 0" by (metis unsigned_0)
    have fit: "unat ?n \<le> length buffer" using n sz(2) by linarith
    obtain q' b' r where e: "fifobuffer_dequeue ?q buffer ?n = Some (q', b', r)" "fifo_inv q'" "fifo_cap q' = 4096"
        "unat r = min (unat ?n) (length (fifo_list ?q))" "fifo_list q' = drop (unat r) (fifo_list ?q)"
        "b' = take (unat r) (fifo_list ?q) @ drop (unat r) buffer"
      using fifobuffer_dequeue_ok [OF q(1) fit nz] q(2) by (auto simp: ok_iff)
    have r: "unat r = min (length (tty_input d)) (unat sz)"
      using e(4) n by (simp add: tty_input_def del: length_fifo_list)
    have rpos: "0 < unat r" using r \<open>unat ?n \<noteq> 0\<close> n by simp
    have "unat r \<le> 4096" using r bound by linarith
    then have "sint r = int (unat r)" by (intro sint_nonneg) simp
    then have sr: "sint r > 0" using rpos by linarith
    have ge: "1 \<le> fifobuffer_get_size ?q" using pos len by (simp add: word_le_nat_alt)
    let ?d = "d\<lparr>buffer_master_write := q'\<rparr>"
    have "d\<lparr>buffer_master_write := q', buffer_master_write_lock := spinlock_unlock 1\<rparr> = ?d"
      using q(3) by (simp add: spinlock_unlock_def)
    then have "slave_read k d tty thread sz buffer = Some (k, ?d, b', Some r)"
      using sz(1) q(3) canon ge e(1) sr by (simp add: slave_read_def Let_def word_gt_0)
    moreover have "r = of_nat (min (length (tty_input d)) (unat sz))" by (simp flip: r)
    moreover have "tty_inv ?d" using inv e(2,3) by (simp add: tty_inv_def)
    ultimately show ?thesis using False k e(5,6) r
      by (simp add: Let_def tty_line_def tty_output_def tty_input_def del: length_fifo_list)
  qed
qed

section \<open>Plain text on a new terminal\<close>

abbreviation default_termios :: termios where
  "default_termios \<equiv> tty_termios ttydev_create"

lemma default_flags [simp]:
  "isset (c_lflag default_termios) ECHO" "isset (c_lflag default_termios) ICANON"
  "isset (c_lflag default_termios) ISIG" "isset (c_iflag default_termios) ICRNL"
  "\<not> isset (c_iflag default_termios) ISTRIP" "\<not> isset (c_iflag default_termios) IGNCR"
  "\<not> isset (c_iflag default_termios) INLCR" "c_cc default_termios VERASE = 127"
  "isset (c_oflag default_termios) ONLCR" "\<not> isset (c_oflag default_termios) OCRNL"
  "\<not> isset (c_oflag default_termios) ONLRET"
  by (simp_all add: ttydev_create_def isset_def ECHO_def ICANON_def ISIG_def ICRNL_def ISTRIP_def
      IGNCR_def INLCR_def ONLCR_def OCRNL_def ONLRET_def VERASE_def VMIN_def VTIME_def VINTR_def
      VSUSP_def VQUIT_def)

definition plain_char :: "u8 \<Rightarrow> bool" where
  "plain_char c \<longleftrightarrow> 32 \<le> c \<and> c \<noteq> 127"

lemma edit_plain_char:
  assumes "plain_char c" and "length line < 4095"
  shows "edit_char default_termios line c = (line @ [c], [], [c])"
proof -
  have c: "c \<noteq> 8" "c \<noteq> 10" "c \<noteq> 13" "c \<noteq> 127" "\<not> iscntrl c"
    using assms(1) by (auto simp: plain_char_def iscntrl_def not_less)
  then have "override_character_master_write default_termios c = (c, True)"
    by (simp add: override_character_master_write_def Let_def)
  moreover have "\<not> caret_form default_termios c" using c by (simp add: caret_form_def)
  ultimately show ?thesis using c assms(2)
    by (simp add: edit_char_def edit_canonical_def echo_of_def Let_def)
qed

lemma edit_return:
  assumes "line \<noteq> []" and "length line < 4095"
  shows "edit_char default_termios line 13 = ([], line @ [10], [10, 13])"
proof -
  have "override_character_master_write default_termios 13 = (10, True)"
    by (simp add: override_character_master_write_def Let_def)
  moreover have "\<not> caret_form default_termios 10" by (simp add: caret_form_def)
  ultimately show ?thesis using assms
    by (simp add: edit_char_def edit_canonical_def echo_of_def Let_def)
qed

lemma edit_plain_line:
  assumes "\<forall>c \<in> set msg. plain_char c" and "length line + length msg < 4095" and "line @ msg \<noteq> []"
  shows "edit default_termios line (msg @ [13]) = ([], line @ msg @ [10], msg @ [10, 13])"
  using assms
proof (induction msg arbitrary: line)
  case Nil
  then show ?case using edit_return [of line] by simp
next
  case (Cons c msg)
  have "edit_char default_termios line c = (line @ [c], [], [c])"
    using Cons.prems by (intro edit_plain_char) simp_all
  moreover have "edit default_termios (line @ [c]) (msg @ [13]) = ([], (line @ [c]) @ msg @ [10], msg @ [10, 13])"
    using Cons.prems by (intro Cons.IH) simp_all
  ultimately show ?case by simp
qed

text \<open>Waking a list with a dead thread in it faults.\<close>

lemma master_write_dangling:
  assumes inv: "tty_inv d" and k: "kern_ok k" and a: "a \<in> set (slave_readers d)" "a \<notin> set (addrs k)"
    and tm: "tty_termios d = default_termios" and empty: "tty_line d = []" "tty_input d = []"
    and msg: "\<forall>c \<in> set msg. plain_char c" "msg \<noteq> []" "length msg < 4095"
  shows "master_write k d tty (of_nat (length msg + 1)) (msg @ [13]) = None"
proof -
  let ?d0 = "d\<lparr>buffer_echo := fifobuffer_clear (buffer_echo d)\<rparr>"
  let ?sz = "of_nat (length msg + 1) :: u32"
  let ?n = "min ?sz (fifobuffer_get_free (buffer_master_write ?d0))"
  have q: "fifo_inv (buffer_master_write d)" "fifo_cap (buffer_master_write d) = 4096" "fifo_inv (buffer_echo d)"
      "buffer_master_write_lock d = 0"
    using inv by (auto simp: tty_inv_def)
  have sz: "unat ?sz = length msg + 1" using msg(3) by (intro unat_of_nat_small) simp
  have free: "unat (fifobuffer_get_free (buffer_master_write d)) = 4096"
    using unat_get_free [OF q(1)] q(2) empty(2) by (simp add: tty_input_def del: length_fifo_list)
  have n: "unat ?n = length msg + 1"
    using free sz msg(3) by (simp add: min_def word_le_nat_alt)
  have inv0: "tty_inv ?d0" using inv fifo_inv_clear [OF q(3)] by (simp add: tty_inv_def)
  have f0: "tty_termios ?d0 = default_termios" "tty_line ?d0 = []" "tty_input ?d0 = []" "slave_readers ?d0 = slave_readers d"
    using tm empty by (simp_all add: tty_line_def tty_input_def)
  have w0: "max 4096 (unat (0 :: u32)) + length (msg @ [13 :: u8]) < 20000" using msg(3) by simp
  have ed: "edit default_termios [] (msg @ [13]) = ([], msg @ [10], msg @ [10, 13])"
    using edit_plain_line [of msg "[]"] msg by simp
  obtain k1 d1 w where l: "master_loop k ?d0 (msg @ [13]) 0 = Some (k1, d1, w)" "kern_evolves k k1"
      "input_frame d1 = input_frame ?d0" "w > 0"
    using master_loop_ok [OF inv0 k w0, unfolded f0(1-3) ed prod.case] msg(3) by (auto simp: ok_iff input_step_def)
  have gone: "get_thread k1 a = None"
    using a(2) kern_evolves_ok [OF l(2) k] by (simp add: get_thread_None)
  have "wake_loop k1 tty (slave_readers d) = None" by (rule wake_loop_dangling [OF a(1) gone])
  moreover have "slave_readers_lock d1 = 0" "slave_readers d1 = slave_readers d"
    using input_frame_fields [OF l(3)] inv by (simp_all add: tty_inv_def)
  ultimately have "wake_slave_readers k1 (d1\<lparr>buffer_master_write_lock := spinlock_unlock 1\<rparr>) tty = None"
    by (simp add: wake_slave_readers_def)
  moreover have "?sz \<noteq> 0" using sz by auto
  moreover have "take (unat ?n) (msg @ [13]) = msg @ [13]" "unat ?n \<le> length (msg @ [13])" using n by simp_all
  ultimately show ?thesis using q(4) l(1,4) unfolding master_write_def Let_def by simp
qed

section \<open>Properties\<close>


lemma create_lists:
  "tty_line ttydev_create = []" "tty_input ttydev_create = []" "tty_output ttydev_create = []"
  "slave_readers ttydev_create = []" "master_reader ttydev_create = 0" "tty_terminal ttydev_create = None"
  by (simp_all add: tty_line_def tty_input_def tty_output_def ttydev_create_def fifo_list_create)

lemma create_known: "reader_known k ttydev_create"
  by (simp add: reader_known_def create_lists)




text \<open>
  What a program writes reaches the master character for character after output processing (a
  newline becomes a return and a newline), all of it counted and in order, as long as it fits,
  and the master's reader wakes up; when it does not fit nothing leaves the buffers either.
\<close>

theorem tty_slave_output:
  assumes "tty_inv d" and "kern_ok k" and "reader_known k d" and "sz \<noteq> 0" and "unat sz \<le> length buffer"
    and "out = concat (map (output_of (c_oflag (tty_termios d))) (take (unat sz) buffer))"
  shows "\<exists>k' d' written. slave_write k d tty sz buffer = Some (k', d', written) \<and> tty_inv d' \<and> kern_ok k' \<and>
    tty_input d' = tty_input d \<and> tty_line d' = tty_line d \<and>
    (length (tty_output d) + max (unat sz) (length out) \<le> 4096 \<longrightarrow>
       written = sz \<and> reaches_master d (tty_output d @ out) d' \<and>
       (master_reader d \<noteq> 0 \<longrightarrow> woken k tty (master_reader d) k'))"
proof -
  obtain k' d' w where w: "slave_write k d tty sz buffer = Some (k', d', w)" "kern_evolves k k'" "tty_inv d'"
      "tty_input d' = tty_input d" "tty_line d' = tty_line d"
      "length (tty_output d) + max (unat sz) (length out) \<le> 4096 \<longrightarrow>
       w = sz \<and> reaches_master d (tty_output d @ out) d' \<and>
       (master_reader d \<noteq> 0 \<longrightarrow> woken k tty (master_reader d) k')"
    using slave_write_ok [OF assms(1-5), of tty] unfolding assms(6) ok_iff Let_def by blast
  then show ?thesis using kern_evolves_ok [OF w(2) assms(2)] by blast
qed

theorem tty_slave_output_witness:
  "\<exists>k' d'. slave_write (sample_kernel [sample_thread 10 TS_RUN 0, sample_thread 20 TS_RUN 0]) ttydev_create
      0x2000 3 [111, 107, 10] = Some (k', d', 3) \<and> tty_output d' = [111, 107, 13, 10]"
proof -
  have o: "concat (map (output_of (c_oflag default_termios)) (take (unat (3 :: u32)) [111, 107, 10])) = [111, 107, 13, 10]"
    by (simp add: output_of_def)
  from tty_slave_output [OF tty_create_inv sample_kern_ok create_known _ _ o [symmetric], of "0x2000"]
  show ?thesis by (auto simp: create_lists reaches_master_def)
qed

text \<open>
  In canonical mode with echo on, as a new terminal is set up, a control character such as the
  tab or the escape key does not reach the program: the line gets the two characters of its
  echo, a caret and a letter, instead.
\<close>

theorem tty_control_character_mangled:
  assumes "tty_inv d" and "kern_ok k" and "reader_known k d" and "tty_termios d = default_termios"
    and "tty_line d = []" and "tty_input d = []" and "c < 32" and "c \<notin> {8, 10, 13}"
  shows "\<exists>k' d' written. master_write k d tty 2 [c, 13] = Some (k', d', written) \<and>
    tty_input d' = [94, 64 + c, 10]"
proof -
  have c: "c \<noteq> 8" "c \<noteq> 10" "c \<noteq> 13" "iscntrl c" using assms(7,8) by (auto simp: iscntrl_def)
  have c7: "c \<noteq> 127" using assms(7) by auto
  have low: "(64 + c) mod 128 = 64 + c"
  proof -
    have "unat c < 32" using assms(7) by (simp add: word_less_nat_alt)
    then have "unat (64 + c) = 64 + unat c" by (subst unat_add_small) simp_all
    then show ?thesis using \<open>unat c < 32\<close> by (intro mod_word_less) (simp add: word_less_nat_alt)
  qed
  have caret: "caret_form default_termios c" using c c7 by (simp add: caret_form_def)
  have "edit_char default_termios [] c = ([94, 64 + c], [], [94, 64 + c])"
    using c c7 caret low
    by (simp add: edit_char_def edit_canonical_def override_character_master_write_def echo_of_def Let_def)
  then have ed: "edit default_termios [] [c, 13] = ([], [94, 64 + c, 10], [94, 64 + c, 10, 13])"
    using edit_return [of "[94, 64 + c]"] by simp
  have "take (min (unat (2 :: u32)) (4096 - length (tty_input d))) [c, 13] = [c, 13]" using assms(6) by simp
  from master_write_ok [OF assms(1-3), of 2 "[c, 13]" tty, unfolded Let_def this assms(4,5) ed prod.case]
  show ?thesis using assms(6) by (auto simp: ok_iff)
qed

theorem tty_control_character_mangled_witness:
  "\<exists>k' d' w. master_write (sample_kernel [sample_thread 10 TS_RUN 0, sample_thread 20 TS_RUN 0]) ttydev_create
      0x2000 2 [9, 13] = Some (k', d', w) \<and> tty_input d' = [94, 73, 10]"
  using tty_control_character_mangled [OF tty_create_inv sample_kern_ok create_known refl create_lists(1,2),
      of 9 "0x2000"]
  by simp

text \<open>
  C40: a thread that is destroyed while it waits for input stays in the terminal's list of readers, so
  the next line the user types makes the kernel follow a pointer to the freed thread.
\<close>

theorem tty_dead_reader_fault:
  assumes "tty_inv d" and "kern_ok k" and "k_threads k = idle # ts" and "k_procs k process = Some p"
    and "\<forall>t \<in> set ts. th_owner t = process \<longrightarrow> message_queue_lock t = 0"
    and "th_owner idle \<noteq> process" and "t \<in> set ts" and "th_owner t = process"
    and "th_addr t \<in> set (slave_readers d)" and "tty_termios d = default_termios"
    and "tty_line d = []" and "tty_input d = []"
    and "\<forall>c \<in> set msg. plain_char c" and "msg \<noteq> []" and "length msg < 4095"
  shows "\<exists>k'. process_destroy k process = Some k' \<and>
    master_write k' d tty (of_nat (length msg + 1)) (msg @ [13]) = None"
proof -
  let ?rest = "idle # filter (\<lambda>t. th_owner t \<noteq> process) ts"
  obtain k' where k': "process_destroy k process = Some k'"
      "k_threads k' = (if p_parent p \<noteq> 0 then wake_parent (p_parent p) ?rest else ?rest)"
      "k_procs k' = (k_procs k)(process := None)"
    using process_destroy_run [OF assms(3-5)] unfolding Let_def by blast
  have ok': "kern_ok k'" "addrs k' = map th_addr ?rest"
    using process_destroy_kern_ok [OF assms(2,3,6) k'(2,3)] by auto
  have "distinct (map th_addr (idle # ts))"
    using assms(2,3) by (simp add: kern_ok_def threads_ok_def addrs_def)
  then have "th_addr t \<notin> set (addrs k')"
    unfolding ok'(2) using assms(7,8) by (intro filtered_out) simp_all
  then show ?thesis
    using master_write_dangling [OF assms(1) ok'(1) assms(9) _ assms(10-15)] k'(1) by blast
qed

theorem tty_dead_reader_fault_witness:
  "\<exists>k'. process_destroy ((sample_kernel [(sample_thread 10 TS_RUN 0)\<lparr>th_owner := 2\<rparr>, sample_thread 20 TS_WAITIO 0x2000])
       \<lparr>k_procs := (\<lambda>a. if a = 1 \<or> a = 2 then Some sample_process else None)\<rparr>) 1 = Some k' \<and>
     master_write k' (ttydev_create\<lparr>slave_readers := [20]\<rparr>) 0x2000 2 [97, 13] = None"
proof -
  let ?k = "(sample_kernel [(sample_thread 10 TS_RUN 0)\<lparr>th_owner := 2\<rparr>, sample_thread 20 TS_WAITIO 0x2000])
       \<lparr>k_procs := (\<lambda>a. if a = 1 \<or> a = 2 then Some sample_process else None)\<rparr>"
  let ?d = "ttydev_create\<lparr>slave_readers := [20]\<rparr>"
  have "fifo_inv (fifobuffer_create 64)" "fifo_cap (fifobuffer_create 64) = 64"
    by (rule fifo_inv_create) (simp add: fifo_cap_def fifobuffer_create_def)
  then have "\<forall>t \<in> set (k_threads ?k). signals_ok t \<and> k_procs ?k (th_owner t) \<noteq> None"
    by (simp add: signals_ok_def sample_kernel_def sample_thread_def)
  moreover have "addrs ?k = [10, 20]" by (simp add: addrs_def sample_kernel_def sample_thread_def)
  ultimately have k: "kern_ok ?k" by (simp add: kern_ok_def threads_ok_def)
  have d: "tty_inv ?d" using tty_create_inv by (simp add: tty_inv_def)
  have e: "tty_line ?d = []" "tty_input ?d = []" using create_lists(1,2) by (simp_all add: tty_line_def tty_input_def)
  let ?i = "(sample_thread 10 TS_RUN 0)\<lparr>th_owner := 2\<rparr>" and ?t = "sample_thread 20 TS_WAITIO 0x2000"
  have ts: "k_threads ?k = ?i # [?t]" "k_procs ?k 1 = Some sample_process" by (simp_all add: sample_kernel_def)
  have t: "\<forall>u \<in> set [?t]. th_owner u = 1 \<longrightarrow> message_queue_lock u = 0" "th_owner ?i \<noteq> 1" "?t \<in> set [?t]"
      "th_owner ?t = 1" "th_addr ?t \<in> set (slave_readers ?d)"
    by (simp_all add: sample_thread_def)
  have m: "tty_termios ?d = default_termios" "\<forall>c \<in> set [97]. plain_char c" "[97] \<noteq> []" "length [97 :: u8] < 4095"
    by (simp_all add: plain_char_def)
  from tty_dead_reader_fault [OF d k ts t m(1) e m(2-4), of "0x2000"] show ?thesis by simp
qed

text \<open>
  A program can set any window size, and the terminal's cell buffer keeps its old one: after a
  \<^verbatim>\<open>TIOCSWINSZ\<close> request with a width the buffer has no room for, printing a newline and a letter
  writes outside the buffer.
\<close>

theorem tty_winsize_overrun:
  assumes "tty_inv d" and "current_tty k = Some node" and "check_user_access argp"
    and "tty_terminal d = Some t" and "\<not> t_disabled t" and "tty_output d = []"
    and "tty_termios d = default_termios"
    and "unat (t_current_line t) + 2 < unat (ws_row (arg_winsize arg))" and "0 < ws_col (arg_winsize arg)"
    and "length (t_buffer t) \<le> (unat (t_current_line t) + 1) * unat (ws_col (arg_winsize arg)) * 2"
  shows "\<exists>d'. slave_ioctl k d node TIOCSWINSZ argp arg = Some (d', arg, 0) \<and> slave_write k d' tty 2 [10, 65] = None"
proof -
  let ?ws = "arg_winsize arg" and ?d = "d\<lparr>winsize := arg_winsize arg\<rparr>"
  have io: "slave_ioctl k d node TIOCSWINSZ argp arg = Some (?d, arg, 0)"
    using assms(2,3)
    by (simp add: slave_ioctl_def TIOCSWINSZ_def TIOCGPGRP_def TIOCSPGRP_def TIOCGWINSZ_def)
  have q: "fifo_inv (buffer_master_read d)" "fifo_cap (buffer_master_read d) = 4096" "buffer_master_read_lock d = 0"
    using assms(1) by (auto simp: tty_inv_def)
  have none: "fifo_list (buffer_master_read d) = []" using assms(6) by (simp add: tty_output_def)
  have free: "unat (fifobuffer_get_free (buffer_master_read d)) = 4096"
    using unat_get_free [OF q(1)] q(2) none by (simp del: length_fifo_list)
  then have pos: "fifobuffer_get_free (buffer_master_read d) > 0"
      "unat (min 2 (fifobuffer_get_free (buffer_master_read d))) = 2"
    by (simp_all add: word_less_nat_alt min_def word_le_nat_alt)
  have out: "concat (map (output_of (c_oflag default_termios)) [10, 65]) = [13, 10, 65]"
    by (simp add: output_of_def)
  obtain f w where p: "process_slave_write (c_oflag default_termios) (buffer_master_read d) [10, 65] 0 = Some (f, w)"
      "fifo_inv f" "fifo_cap f = 4096" "fifo_list f = [13, 10, 65]"
    using process_slave_write_ok [OF q(1,2), of "c_oflag default_termios" "[10, 65]" 0, unfolded out] none
    by (auto simp: ok_iff simp del: length_fifo_list)
  let ?d1 = "?d\<lparr>buffer_master_read := f, buffer_master_read_lock := spinlock_unlock 1\<rparr>"
  have d1: "fifo_inv (buffer_master_read ?d1)" "buffer_master_read_lock ?d1 = 0" "tty_output ?d1 = [13, 10, 65]"
    using p(2,4) by (simp_all add: spinlock_unlock_def tty_output_def)
  have len: "length (replicate 128 (0 :: u8)) = 128" by simp
  obtain q1 n where rd: "ttydev_master_read_nonblock ?d1 8 (replicate 128 0) =
      Some (?d1\<lparr>buffer_master_read := q1\<rparr>, [13, 10, 65] @ 0 # replicate 124 0, n)" "unat n = 3"
    using read_nonblock_ok [OF d1(1,2) len, unfolded d1(3)] by (auto simp: ok_iff numeral_eq_Suc)
  have "terminal_put_text ?ws t ([13, 10, 65] @ 0 # replicate 124 0) n =
      put_all (terminal_put_character ?ws) t [13, 10, 65]"
    using rd(2) by (intro put_text_all) simp_all
  also have "\<dots> = None"
  proof -
    let ?l = "t_current_line t"
    have l: "?l < ws_row ?ws" "?l + 1 < ws_row ?ws" "unat (?l + 1) = unat ?l + 1"
    proof -
      show "?l < ws_row ?ws" using assms(8) by (simp add: word_less_nat_alt)
      then show "unat (?l + 1) = unat ?l + 1" using unat_plus1_less by simp
      then show "?l + 1 < ws_row ?ws" using assms(8) by (simp add: word_less_nat_alt)
    qed
    let ?m = "\<lambda>t line. terminal_move_cursor ?ws t line 0"
    have m: "t_disabled (?m u line) = t_disabled u" "t_buffer (?m u line) = t_buffer u"
        "\<not> t_disabled u \<Longrightarrow> line < ws_row ?ws \<Longrightarrow> t_current_line (?m u line) = line"
        "\<not> t_disabled u \<Longrightarrow> t_current_column (?m u line) = 0" for u line
      using assms(9) by (auto simp: terminal_move_cursor_def Let_def not_le)
    let ?t1 = "?m t ?l"
    let ?t2 = "?m ?t1 (?l + 1)"
    let ?t3 = "?m ?t2 (?l + 1)"
    have t1: "terminal_put_character ?ws t 13 = Some ?t1" "\<not> t_disabled ?t1" "t_current_line ?t1 = ?l"
        "t_current_column ?t1 = 0" "t_buffer ?t1 = t_buffer t"
      using assms(5) l(1) m by (simp_all add: terminal_put_character_def)
    have t2: "\<not> t_disabled ?t2" "t_current_line ?t2 = ?l + 1" "t_current_column ?t2 = 0" "t_buffer ?t2 = t_buffer t"
      using t1 l(2) m by simp_all
    have t3: "\<not> t_disabled ?t3" "t_current_line ?t3 = ?l + 1" "t_current_column ?t3 = 0" "t_buffer ?t3 = t_buffer t"
      using t2 l(2) m by simp_all
    have above: "\<not> int (unat (?l + 1)) \<ge> row_i ?ws - 1" unfolding row_i_def l(3) using assms(8) by linarith
    have n: "terminal_put_character ?ws ?t1 10 = Some ?t3"
      using t1 t2 above by (simp add: terminal_put_character_def put_newline_def Let_def)
    have wide: "ws_col ?ws \<noteq> 0" using assms(9) by auto
    have off: "cell_offset ?ws (int (unat (?l + 1))) (int (unat (0 :: u16))) =
        int ((unat ?l + 1) * unat (ws_col ?ws) * 2)"
      unfolding cell_offset_def col_i_def l(3) by (simp add: distrib_right)
    have "wr (t_buffer t) ((unat ?l + 1) * unat (ws_col ?ws) * 2) 65 = None"
      using assms(10) by (simp add: wr_def)
    then have "write_cell ?ws ?t3 65 = None"
      unfolding write_cell_def Let_def t3(2-4) off put_at_nat by simp
    then have "terminal_put_character ?ws ?t3 65 = None"
      using t3 above wide by (simp add: terminal_put_character_def put_printing_def Let_def)
    then show ?thesis using t1(1) n by simp
  qed
  finally have put: "terminal_put_text ?ws t ([13, 10, 65] @ 0 # replicate 124 0) n = None" .
  have "sint n = int (unat n)" using rd(2) by (intro sint_nonneg) simp
  then have "sint n > 0" using rd(2) by linarith
  then have "drain_loop ?d1 t (replicate 128 0) = None"
    using put by (subst drain_loop.simps) (simp add: rd(1))
  then have "master_read_ready ?d1 = None" using assms(4) by (simp add: master_read_ready_def)
  moreover have "fifobuffer_get_size f > 0"
    using p(4) fifo_list_Nil [of f] by (simp add: fifobuffer_get_size_def word_gt_0)
  ultimately have "slave_write k ?d tty 2 [10, 65] = None"
    using q(3) pos p(1) assms(7) unfolding slave_write_def Let_def by simp
  then show ?thesis using io by blast
qed

theorem tty_winsize_overrun_witness:
  "\<exists>k d d' arg. slave_ioctl k d 0 TIOCSWINSZ 0x40001000 arg = Some (d', arg, 0) \<and> tty_inv d \<and>
     slave_write k d' 0x2000 2 [10, 65] = None"
proof -
  let ?t = "sample_terminal" and ?k = "sample_kernel [sample_thread 10 TS_RUN 0]"
  let ?d = "ttydev_create\<lparr>winsize := sample_window, tty_terminal := Some ?t\<rparr>"
  let ?arg = "\<lparr>arg_int = 0, arg_winsize = \<lparr>ws_row = 10, ws_col = 200, ws_xpixel = 0, ws_ypixel = 0\<rparr>,
    arg_termios = default_termios\<rparr>"
  have d: "tty_inv ?d" using tty_create_inv sample_term_ok by (simp add: tty_inv_def)
  have c: "current_tty ?k = Some 0"
    by (simp add: current_tty_def get_thread_def sample_kernel_def sample_thread_def sample_process_def)
  have a: "check_user_access 0x40001000" by (simp add: check_user_access_def USER_OFFSET_def)
  have o: "tty_output ?d = []" using create_lists(3) by (simp add: tty_output_def)
  have t: "\<not> t_disabled ?t" "unat (t_current_line ?t) + 2 < unat (ws_row (arg_winsize ?arg))"
      "0 < ws_col (arg_winsize ?arg)"
      "length (t_buffer ?t) \<le> (unat (t_current_line ?t) + 1) * unat (ws_col (arg_winsize ?arg)) * 2"
    by (simp_all add: sample_terminal_def)
  show ?thesis
    using tty_winsize_overrun [OF d c a _ t(1) o _ t(2-4), of "0x2000"] d by auto
qed

end
