(* ===== verification/Registry.thy ===== *)
theory Registry
  imports CommonLib
begin

text \<open>
  The interface the kernel's named objects share: pipes, shared memory segments and devices are
  kept in a list, and are found and created by a C string. A provider shows that its lookup and
  its creation agree with a list of names; clients get the consequences.
\<close>

locale name_registry =
  fixes names :: "'t \<Rightarrow> u8 list list \<Rightarrow> bool"
    and has :: "'t \<Rightarrow> u8 list \<Rightarrow> bool option"
    and add :: "'t \<Rightarrow> u8 list \<Rightarrow> ('t \<times> bool) option"
    and fits :: "u8 list \<Rightarrow> bool"
  assumes names_distinct: "names t ns \<Longrightarrow> distinct ns"
    and has_ok: "names t ns \<Longrightarrow> cstr n obj \<Longrightarrow> has t obj = Some (n \<in> set ns)"
    and add_ok: "names t ns \<Longrightarrow> cstr n obj \<Longrightarrow> fits n \<Longrightarrow>
      ok (add t obj) (\<lambda>(t', r). r = (n \<notin> set ns) \<and> names t' (if n \<in> set ns then ns else ns @ [n]))"

text \<open>Creating names one after the other, each given as a C string.\<close>

fun add_all :: "('t \<Rightarrow> u8 list \<Rightarrow> ('t \<times> bool) option) \<Rightarrow> 't \<Rightarrow> u8 list list \<Rightarrow> ('t \<times> bool list) option" where
  "add_all add t [] = Some (t, [])"
| "add_all add t (obj # objs) = do {
     (t', r) \<leftarrow> add t obj;
     (t'', rs) \<leftarrow> add_all add t' objs;
     Some (t'', r # rs)
   }"

context name_registry begin

lemma add_twice:
  assumes "names t ns" and "cstr n obj" and "fits n"
  shows "\<exists>t' r. add t obj = Some (t', r) \<and> has t' obj = Some True \<and>
    (\<exists>t''. add t' obj = Some (t'', False))"
proof -
  obtain t' r where t': "add t obj = Some (t', r)" "names t' (if n \<in> set ns then ns else ns @ [n])"
    using add_ok [OF assms] by (auto simp: ok_iff)
  have "n \<in> set (if n \<in> set ns then ns else ns @ [n])" by simp
  then show ?thesis using has_ok [OF t'(2) assms(2)] add_ok [OF t'(2) assms(2,3)] t'(1)
    by (auto simp: ok_iff)
qed

lemma add_all_ok:
  assumes "names t ns" and "list_all2 cstr nms objs" and "list_all fits nms"
  shows "ok (add_all add t objs) (\<lambda>(t', rs). length rs = length objs \<and>
    (\<exists>ns'. names t' ns' \<and> set ns' = set ns \<union> set nms \<and> (\<forall>n obj. cstr n obj \<longrightarrow> has t' obj = Some (n \<in> set ns \<union> set nms))))"
  using assms(2,1,3)
proof (induction nms objs arbitrary: t ns rule: list_all2_induct)
  case Nil
  then show ?case using has_ok by auto
next
  case (Cons n nms obj objs)
  obtain t1 r1 where t1: "add t obj = Some (t1, r1)" "names t1 (if n \<in> set ns then ns else ns @ [n])"
    using add_ok [OF Cons.prems(1) Cons.hyps(1)] Cons.prems(2) by (auto simp: ok_iff)
  have u: "set (if n \<in> set ns then ns else ns @ [n]) \<union> set nms = set ns \<union> set (n # nms)" by auto
  have fit: "list_all fits nms" using Cons.prems(2) by simp
  show ?case using Cons.IH [OF t1(2) fit, unfolded u] t1(1) by (auto simp: ok_iff)
qed

end

end
