(* ===== verification/Pipe.thy ===== *)
theory Pipe
  imports Waiting Registry
begin

text \<open>
  \<^verbatim>\<open>kernel/pipe.c\<close>: named pipes. The list of pipes keeps each with its address; the reader and
  writer lists are the sequences of \<^verbatim>\<open>list.c\<close> (theory \<open>KList\<close>). A read or write that has to wait is
  one attempt that puts the threads of its list to sleep, as in \<open>Tty\<close>; the scheduler repeats it.
  The buffer argument \<open>None\<close> is a null pointer.
\<close>

section \<open>State\<close>

record Pipe =
  pi_name :: "u8 list"
  pi_buffer :: FifoBuffer
  pi_fsNode :: ptr
  pi_readers :: "ptr list"
  pi_writers :: "ptr list"
  pi_isBroken :: bool

definition O_ACCMODE :: u32 where "O_ACCMODE = 3"
definition O_RDONLY :: u32 where "O_RDONLY = 0"
definition O_WRONLY :: u32 where "O_WRONLY = 1"
definition O_RDWR :: u32 where "O_RDWR = 2"
definition EPIPE :: i32 where "EPIPE = 32"
definition EINTR :: i32 where "EINTR = 4"

definition CHECK_ACCESS :: "u32 \<Rightarrow> u32 \<Rightarrow> bool" where
  "CHECK_ACCESS flags test \<longleftrightarrow> flags AND O_ACCMODE = test"

definition map_irq :: "(irq_state \<Rightarrow> irq_state) \<Rightarrow> kernel_state \<Rightarrow> kernel_state" where
  "map_irq f k = k\<lparr>k_irq := f (k_irq k)\<rparr>"

section \<open>Blocking and waking\<close>

text \<open>Every thread of the list is made to wait, not only the one that called.\<close>

fun block_loop :: "kernel_state \<Rightarrow> ptr \<Rightarrow> ptr list \<Rightarrow> kernel_state option" where
  "block_loop k pipe [] = Some k"
| "block_loop k pipe (a # as) = do {
     t \<leftarrow> get_thread k a;
     block_loop (put_thread k (thread_change_state t TS_WAITIO pipe)) pipe as
   }"

definition block_accessing_threads :: "kernel_state \<Rightarrow> ptr \<Rightarrow> ptr list \<Rightarrow> kernel_state option" where
  "block_accessing_threads k pipe threads =
     map_option (map_irq enable_interrupts) (block_loop (map_irq disable_interrupts k) pipe threads)"

definition wakeup_accessing_threads :: "kernel_state \<Rightarrow> ptr \<Rightarrow> ptr list \<Rightarrow> kernel_state option" where
  "wakeup_accessing_threads k pipe threads =
     map_option (map_irq end_critical_section) (wake_loop (map_irq begin_critical_section k) pipe threads)"

section \<open>Opening and closing\<close>

definition set_current_state :: "kernel_state \<Rightarrow> thread_state_t \<Rightarrow> kernel_state option" where
  "set_current_state k st = do {
     t \<leftarrow> get_thread k (k_current k);
     Some (put_thread k (t\<lparr>th_state := st\<rparr>))
   }"

definition pipe_open :: "kernel_state \<Rightarrow> Pipe \<Rightarrow> ptr \<Rightarrow> File \<Rightarrow> (kernel_state \<times> Pipe \<times> bool) option" where
  "pipe_open k p pipe file =
     (if CHECK_ACCESS (f_flags file) O_RDONLY \<or> CHECK_ACCESS (f_flags file) O_WRONLY then do {
        k1 \<leftarrow> set_current_state (map_irq begin_critical_section k) TS_CRITICAL;
        let p1 = p\<lparr>pi_isBroken := False\<rparr>;
        (k2, p2) \<leftarrow>
          (if CHECK_ACCESS (f_flags file) O_RDONLY then do {
             k2 \<leftarrow> wakeup_accessing_threads k1 pipe (pi_writers p1);
             Some (k2, p1\<lparr>pi_readers := pi_readers p1 @ [f_thread file]\<rparr>)
           } else Some (k1, p1\<lparr>pi_writers := pi_writers p1 @ [f_thread file]\<rparr>));
        k3 \<leftarrow> set_current_state k2 TS_RUN;
        Some (map_irq end_critical_section k3, p2, True)
      } else Some (k, p, False))"

definition pipe_close :: "kernel_state \<Rightarrow> Pipe \<Rightarrow> ptr \<Rightarrow> File \<Rightarrow> (kernel_state \<times> Pipe) option" where
  "pipe_close k p pipe file = do {
     let k1 = map_irq begin_critical_section k;
     let p1 = (if CHECK_ACCESS (f_flags file) O_RDONLY
               then p\<lparr>pi_readers := remove1 (f_thread file) (pi_readers p)\<rparr>
               else if CHECK_ACCESS (f_flags file) O_WRONLY
               then p\<lparr>pi_writers := remove1 (f_thread file) (pi_writers p)\<rparr>
               else p);
     (k2, p2) \<leftarrow>
       (if pi_readers p1 = [] then do {
          k2 \<leftarrow> wakeup_accessing_threads k1 pipe (pi_writers p1);
          Some (k2, p1\<lparr>pi_isBroken := True\<rparr>)
        } else Some (k1, p1));
     Some (map_irq end_critical_section k2, p2)
   }"

section \<open>Reading and writing\<close>

definition pipe_read_test_ready :: "Pipe \<Rightarrow> bool" where
  "pipe_read_test_ready p \<longleftrightarrow> fifobuffer_get_size (pi_buffer p) > 0"

definition pipe_read ::
  "kernel_state \<Rightarrow> Pipe \<Rightarrow> ptr \<Rightarrow> File \<Rightarrow> u32 \<Rightarrow> u8 list option \<Rightarrow>
   (kernel_state \<times> Pipe \<times> u8 list option \<times> i32 option) option"
where
  "pipe_read k p pipe file sz buffer =
     (case buffer of
        None \<Rightarrow> Some (k, p, buffer, Some (- 1))
      | Some buf \<Rightarrow>
          if sz = 0 \<or> \<not> CHECK_ACCESS (f_flags file) O_RDONLY then Some (k, p, buffer, Some (- 1))
          else if \<not> pipe_read_test_ready p then
            (if pi_isBroken p then Some (map_irq disable_interrupts k, p, buffer, Some (- EPIPE))
             else do {
               t \<leftarrow> get_thread k (k_current k);
               if pending_signal_count t > 0 then Some (k, p, buffer, Some (- EINTR))
               else do {
                 k' \<leftarrow> block_accessing_threads k pipe (pi_readers p);
                 Some (k', p, buffer, None)
               }
             })
          else do {
            t \<leftarrow> get_thread k (k_current k);
            if pending_signal_count t > 0 then Some (k, p, buffer, Some (- EINTR))
            else do {
              (q, buf', n) \<leftarrow> fifobuffer_dequeue (pi_buffer p) buf sz;
              k' \<leftarrow> wakeup_accessing_threads (map_irq disable_interrupts k) pipe (pi_writers p);
              Some (k', p\<lparr>pi_buffer := q\<rparr>, Some buf', Some n)
            }
          })"

definition pipe_write_test_ready :: "kernel_state \<Rightarrow> Pipe \<Rightarrow> kernel_state \<times> bool" where
  "pipe_write_test_ready k p =
     (map_irq (\<lambda>s. end_critical_section (begin_critical_section s)) k,
      fifobuffer_get_free (pi_buffer p) > 0 \<and> pi_readers p \<noteq> [])"

definition pipe_write ::
  "kernel_state \<Rightarrow> Pipe \<Rightarrow> ptr \<Rightarrow> File \<Rightarrow> u32 \<Rightarrow> u8 list option \<Rightarrow>
   (kernel_state \<times> Pipe \<times> i32 option) option"
where
  "pipe_write k p pipe file sz buffer =
     (case buffer of
        None \<Rightarrow> Some (k, p, Some (- 1))
      | Some buf \<Rightarrow>
          if sz = 0 \<or> \<not> CHECK_ACCESS (f_flags file) O_WRONLY then Some (k, p, Some (- 1))
          else (case pipe_write_test_ready k p of
            (k0, ready) \<Rightarrow>
              if \<not> ready then
                (if pi_isBroken p then Some (map_irq disable_interrupts k0, p, Some (- EPIPE))
                 else do {
                   t \<leftarrow> get_thread k0 (k_current k0);
                   if pending_signal_count t > 0 then Some (k0, p, Some (- EINTR))
                   else do {
                     k' \<leftarrow> block_accessing_threads k0 pipe (pi_writers p);
                     Some (k', p, None)
                   }
                 })
              else do {
                t \<leftarrow> get_thread k0 (k_current k0);
                if pending_signal_count t > 0 then Some (k0, p, Some (- EINTR))
                else do {
                  (q, n) \<leftarrow> fifobuffer_enqueue (pi_buffer p) buf sz;
                  k' \<leftarrow> wakeup_accessing_threads (map_irq disable_interrupts k0) pipe (pi_readers p);
                  Some (k', p\<lparr>pi_buffer := q\<rparr>, Some n)
                }
              }))"

section \<open>The list of pipes\<close>

fun find_pipe :: "u8 list \<Rightarrow> (ptr \<times> Pipe) list \<Rightarrow> (ptr \<times> Pipe) option option" where
  "find_pipe name [] = Some None"
| "find_pipe name (ap # pipes) = do {
     c \<leftarrow> strcmp name (pi_name (snd ap));
     if c = 0 then Some (Some ap) else find_pipe name pipes
   }"

definition pipe_exists :: "(ptr \<times> Pipe) list \<Rightarrow> u8 list \<Rightarrow> bool option" where
  "pipe_exists pipes name = map_option (\<lambda>r. r \<noteq> None) (find_pipe name pipes)"

definition pipes_finddir :: "(ptr \<times> Pipe) list \<Rightarrow> u8 list \<Rightarrow> ptr option" where
  "pipes_finddir pipes name =
     map_option (\<lambda>r. case r of None \<Rightarrow> 0 | Some (a, p) \<Rightarrow> pi_fsNode p) (find_pipe name pipes)"

text \<open>The name of the entry is copied into the static directory entry.\<close>

definition pipes_readdir :: "(ptr \<times> Pipe) list \<Rightarrow> u8 list \<Rightarrow> u32 \<Rightarrow> u8 list option option" where
  "pipes_readdir pipes dirent_name index =
     (if unat index < length pipes
      then map_option (\<lambda>(d, n). Some d) (strcpy dirent_name (pi_name (snd (pipes ! unat index))))
      else Some None)"

text \<open>The two addresses are those \<^verbatim>\<open>kmalloc\<close> returns for the pipe and its node.\<close>

definition pipe_create ::
  "(ptr \<times> Pipe) list \<Rightarrow> ptr \<Rightarrow> ptr \<Rightarrow> u8 list \<Rightarrow> u32 \<Rightarrow> ((ptr \<times> Pipe) list \<times> bool) option"
where
  "pipe_create pipes pipe_addr node_addr name bufferSize = do {
     r \<leftarrow> find_pipe name pipes;
     case r of
       Some ap \<Rightarrow> Some (pipes, False)
     | None \<Rightarrow> do {
         (nm, n) \<leftarrow> strcpy (replicate 32 0) name;
         Some (pipes @ [(pipe_addr, \<lparr>pi_name = nm, pi_buffer = fifobuffer_create bufferSize,
                 pi_fsNode = node_addr, pi_readers = [], pi_writers = [], pi_isBroken = False\<rparr>)], True)
       }
   }"

definition pipe_destroy :: "(ptr \<times> Pipe) list \<Rightarrow> u8 list \<Rightarrow> ((ptr \<times> Pipe) list \<times> bool) option" where
  "pipe_destroy pipes name = do {
     r \<leftarrow> find_pipe name pipes;
     case r of
       Some ap \<Rightarrow> Some (remove1 ap pipes, True)
     | None \<Rightarrow> Some (pipes, False)
   }"

section \<open>Lemmas on the kernel state\<close>

lemma map_irq_simps [simp]:
  "k_threads (map_irq f k) = k_threads k" "k_procs (map_irq f k) = k_procs k" "addrs (map_irq f k) = addrs k"
  "k_current (map_irq f k) = k_current k" "get_thread (map_irq f k) a = get_thread k a"
  "kern_ok (map_irq f k) = kern_ok k" "k_irq (map_irq f k) = f (k_irq k)" "runs (map_irq f k) a = runs k a"
proof -
  show a: "addrs (map_irq f k) = addrs k" by (simp add: map_irq_def addrs_def)
  show g: "get_thread (map_irq f k) a = get_thread k a" by (simp add: map_irq_def get_thread_def)
  show "kern_ok (map_irq f k) = kern_ok k"
    using a by (simp add: kern_ok_def threads_ok_def) (simp add: map_irq_def)
  show "runs (map_irq f k) a = runs k a" using g by (simp add: runs_def)
qed (simp_all add: map_irq_def)

lemma set_current_simps [simp]:
  "addrs (k\<lparr>k_current := w\<rparr>) = addrs k" "get_thread (k\<lparr>k_current := w\<rparr>) a = get_thread k a"
  "kern_ok (k\<lparr>k_current := w\<rparr>) = kern_ok k"
proof -
  show a: "addrs (k\<lparr>k_current := w\<rparr>) = addrs k" by (simp add: addrs_def)
  show "kern_ok (k\<lparr>k_current := w\<rparr>) = kern_ok k" using a by (simp add: kern_ok_def threads_ok_def)
qed (simp add: get_thread_def)

lemma put_thread_current [simp]: "k_irq (put_thread k t) = k_irq k"
  by (simp add: put_thread_def)

text \<open>Changing a thread's state keeps the kernel well formed.\<close>

lemma kern_ok_put:
  assumes "kern_ok k" and "get_thread k (th_addr t') = Some t" and "th_owner t' = th_owner t"
    and "th_signals t' = th_signals t"
  shows "kern_ok (put_thread k t')"
proof -
  have t: "t \<in> set (k_threads k)" using get_thread_Some [OF assms(2)] by simp
  have "threads_ok (put_thread k t')"
    using assms(1,3) t by (intro threads_ok_put) (auto simp: kern_ok_def threads_ok_def)
  moreover have "signals_ok t'" using assms(1,4) t by (auto simp: kern_ok_def signals_ok_def)
  ultimately show ?thesis using assms(1) by (auto simp: kern_ok_def) (auto simp: put_thread_def split: if_splits)
qed

lemma block_loop_ok:
  assumes "kern_ok k" and "set as \<subseteq> set (addrs k)"
  shows "ok (block_loop k pipe as) (\<lambda>k'. kern_ok k' \<and> addrs k' = addrs k \<and> k_current k' = k_current k \<and>
    k_irq k' = k_irq k \<and>
    (\<forall>a. get_thread k' a = (if a \<in> set as then map_option (\<lambda>t. thread_change_state t TS_WAITIO pipe) (get_thread k a)
                            else get_thread k a)))"
  using assms
proof (induction as arbitrary: k)
  case (Cons a as)
  obtain t where t: "get_thread k a = Some t" using get_thread_ex [of a k] Cons.prems(2) by auto
  have ta: "th_addr t = a" using get_thread_Some [OF t] by simp
  let ?t = "thread_change_state t TS_WAITIO pipe"
  let ?k = "put_thread k ?t"
  have at: "th_addr ?t = a" "th_owner ?t = th_owner t" "th_signals ?t = th_signals t"
    using ta by (simp_all add: thread_change_state_def)
  have k1: "kern_ok ?k" using kern_ok_put [OF Cons.prems(1), of ?t t] t at by simp
  have g: "get_thread ?k b = (if b = a then Some ?t else get_thread k b)" for b
    using Cons.prems(2) at(1) by (simp add: get_put)
  have twice: "thread_change_state ?t TS_WAITIO pipe = ?t" by (simp add: thread_change_state_def)
  show ?case
    using Cons.IH [OF k1] Cons.prems(2) t g twice by (auto simp: ok_iff)
qed simp

lemma block_ok:
  assumes "kern_ok k" and "set as \<subseteq> set (addrs k)"
  shows "ok (block_accessing_threads k pipe as) (\<lambda>k'. kern_ok k' \<and> addrs k' = addrs k \<and>
    k_current k' = k_current k \<and>
    (\<forall>a. get_thread k' a = (if a \<in> set as then map_option (\<lambda>t. thread_change_state t TS_WAITIO pipe) (get_thread k a)
                            else get_thread k a)))"
  using block_loop_ok [of "map_irq disable_interrupts k" as pipe] assms
  by (auto simp: block_accessing_threads_def ok_iff)

lemma wakeup_ok:
  assumes "kern_ok k" and "set as \<subseteq> set (addrs k)"
  shows "ok (wakeup_accessing_threads k pipe as) (\<lambda>k'. kern_ok k' \<and> addrs k' = addrs k \<and>
    (\<forall>a \<in> set as. woken k pipe a k'))"
proof -
  let ?k = "map_irq begin_critical_section k"
  obtain k' where k': "wake_loop ?k pipe as = Some k'" "kern_evolves ?k k'"
      "\<forall>a t. a \<in> set as \<longrightarrow> get_thread ?k a = Some t \<longrightarrow> waits_on t pipe \<longrightarrow> runs k' a"
    using wake_loop_ok [of ?k as pipe] assms by (auto simp: ok_iff)
  then show ?thesis using kern_evolves_ok [OF k'(2)] assms(1)
    by (auto simp: wakeup_accessing_threads_def woken_def)
qed

lemma wake_loop_keeps:
  "wake_loop k pipe as = Some k' \<Longrightarrow> k_irq k' = k_irq k \<and> k_current k' = k_current k"
proof (induction as arbitrary: k)
  case (Cons a as)
  then obtain t where t: "get_thread k a = Some t" by (cases "get_thread k a") auto
  show ?case using Cons.IH Cons.prems t by (cases "th_state t = TS_WAITIO \<and> state_privateData t = pipe") auto
qed simp

lemma wakeup_keeps:
  assumes "wakeup_accessing_threads k pipe as = Some k'"
  shows "k_irq k' = end_critical_section (begin_critical_section (k_irq k)) \<and> k_current k' = k_current k"
  using assms wake_loop_keeps by (auto simp: wakeup_accessing_threads_def)

section \<open>The life of a pipe\<close>

definition pipe_ok :: "kernel_state \<Rightarrow> Pipe \<Rightarrow> bool" where
  "pipe_ok k p \<longleftrightarrow> kern_ok k \<and> fifo_inv (pi_buffer p) \<and> fifo_cap (pi_buffer p) < 2 ^ 31 \<and>
     set (pi_readers p) \<subseteq> set (addrs k) \<and> set (pi_writers p) \<subseteq> set (addrs k) \<and>
     (pi_isBroken p \<longrightarrow> pi_readers p = [])"

definition new_pipe :: "u8 list \<Rightarrow> ptr \<Rightarrow> u32 \<Rightarrow> Pipe" where
  "new_pipe nm node_addr bufferSize = \<lparr>pi_name = nm, pi_buffer = fifobuffer_create bufferSize,
     pi_fsNode = node_addr, pi_readers = [], pi_writers = [], pi_isBroken = False\<rparr>"

definition bytes_of :: "i32 option \<Rightarrow> u8 list \<Rightarrow> u8 list" where
  "bytes_of r buf = (case r of Some n \<Rightarrow> if sint n > 0 then take (unat n) buf else [] | None \<Rightarrow> [])"

text \<open>
  The states a pipe can reach by any sequence of calls of any threads, with the rest of the
  kernel doing anything that keeps the threads alive in between. The two texts are the bytes
  that writers were told they have written and that readers were given so far.
\<close>

inductive pipe_reach :: "ptr \<Rightarrow> kernel_state \<Rightarrow> Pipe \<Rightarrow> u8 list \<Rightarrow> u8 list \<Rightarrow> bool" for pipe where
  reach_create: "kern_ok k \<Longrightarrow> unat bufferSize < 2 ^ 31 \<Longrightarrow>
    pipe_reach pipe k (new_pipe nm node_addr bufferSize) [] []"
| reach_other: "pipe_reach pipe k p sent got \<Longrightarrow> kern_ok k' \<Longrightarrow> addrs k' = addrs k \<Longrightarrow>
    pipe_reach pipe k' p sent got"
| reach_open: "pipe_reach pipe k p sent got \<Longrightarrow> f_thread file \<in> set (addrs k) \<Longrightarrow>
    pipe_open k p pipe file = Some (k', p', r) \<Longrightarrow> pipe_reach pipe k' p' sent got"
| reach_close: "pipe_reach pipe k p sent got \<Longrightarrow>
    pipe_close k p pipe file = Some (k', p') \<Longrightarrow> pipe_reach pipe k' p' sent got"
| reach_read: "pipe_reach pipe k p sent got \<Longrightarrow> unat sz \<le> length buf \<Longrightarrow>
    pipe_read k p pipe file sz (Some buf) = Some (k', p', Some buf', r) \<Longrightarrow>
    pipe_reach pipe k' p' sent (got @ bytes_of r buf')"
| reach_write: "pipe_reach pipe k p sent got \<Longrightarrow> unat sz \<le> length buf \<Longrightarrow>
    pipe_write k p pipe file sz (Some buf) = Some (k', p', r) \<Longrightarrow>
    pipe_reach pipe k' p' (sent @ bytes_of r buf) got"

lemma set_current_keeps:
  assumes "set_current_state k st = Some k'" and "kern_ok k"
  shows "kern_ok k' \<and> addrs k' = addrs k \<and> k_current k' = k_current k \<and> k_irq k' = k_irq k"
proof -
  obtain t where t: "get_thread k (k_current k) = Some t" "k' = put_thread k (t\<lparr>th_state := st\<rparr>)"
    using assms(1) by (auto simp: set_current_state_def split: bind_splits)
  have "th_addr t = k_current k" using get_thread_Some [OF t(1)] by simp
  then show ?thesis using kern_ok_put [OF assms(2), of "t\<lparr>th_state := st\<rparr>" t] t by simp
qed

lemma wakeup_some:
  assumes "wakeup_accessing_threads k pipe as = Some k'" and "kern_ok k" and "set as \<subseteq> set (addrs k)"
  shows "kern_ok k' \<and> addrs k' = addrs k \<and> (\<forall>a \<in> set as. woken k pipe a k')"
  using wakeup_ok [OF assms(2,3), of pipe] assms(1) by simp

lemma block_some:
  assumes "block_accessing_threads k pipe as = Some k'" and "kern_ok k" and "set as \<subseteq> set (addrs k)"
  shows "kern_ok k' \<and> addrs k' = addrs k"
  using block_ok [OF assms(2,3), of pipe] assms(1) by simp

lemma pipe_open_keeps:
  assumes p: "pipe_ok k p" and f: "f_thread file \<in> set (addrs k)" and o: "pipe_open k p pipe file = Some (k', p', r)"
  shows "pipe_ok k' p' \<and> pi_buffer p' = pi_buffer p \<and> addrs k' = addrs k"
proof (cases "CHECK_ACCESS (f_flags file) O_RDONLY \<or> CHECK_ACCESS (f_flags file) O_WRONLY")
  case False
  then show ?thesis using o p by (simp add: pipe_open_def)
next
  case acc: True
  obtain k1 where k1: "set_current_state (map_irq begin_critical_section k) TS_CRITICAL = Some k1"
    using o acc by (auto simp: pipe_open_def split: bind_splits)
  have ok1: "kern_ok k1" "addrs k1 = addrs k" using set_current_keeps [OF k1] p by (auto simp: pipe_ok_def)
  show ?thesis
  proof (cases "CHECK_ACCESS (f_flags file) O_RDONLY")
    case True
    obtain k2 k3 where k2: "wakeup_accessing_threads k1 pipe (pi_writers p) = Some k2"
        "set_current_state k2 TS_RUN = Some k3" "k' = map_irq end_critical_section k3"
        "p' = p\<lparr>pi_isBroken := False, pi_readers := pi_readers p @ [f_thread file]\<rparr>"
      using o acc k1 True by (auto simp: pipe_open_def Let_def split: bind_splits)
    have "kern_ok k2" "addrs k2 = addrs k"
      using wakeup_some [OF k2(1) ok1(1)] ok1(2) p by (auto simp: pipe_ok_def)
    then show ?thesis using set_current_keeps [OF k2(2)] k2(3,4) p f by (auto simp: pipe_ok_def)
  next
    case False
    obtain k3 where k3: "set_current_state k1 TS_RUN = Some k3" "k' = map_irq end_critical_section k3"
        "p' = p\<lparr>pi_isBroken := False, pi_writers := pi_writers p @ [f_thread file]\<rparr>"
      using o acc k1 False by (auto simp: pipe_open_def Let_def split: bind_splits)
    then show ?thesis using set_current_keeps [OF k3(1)] ok1 p f by (auto simp: pipe_ok_def)
  qed
qed

lemma pipe_close_keeps:
  assumes p: "pipe_ok k p" and c: "pipe_close k p pipe file = Some (k', p')"
  shows "pipe_ok k' p' \<and> pi_buffer p' = pi_buffer p \<and> addrs k' = addrs k"
proof -
  let ?p1 = "if CHECK_ACCESS (f_flags file) O_RDONLY then p\<lparr>pi_readers := remove1 (f_thread file) (pi_readers p)\<rparr>
    else if CHECK_ACCESS (f_flags file) O_WRONLY then p\<lparr>pi_writers := remove1 (f_thread file) (pi_writers p)\<rparr> else p"
  have p1: "pi_buffer ?p1 = pi_buffer p" "set (pi_readers ?p1) \<subseteq> set (addrs k)" "set (pi_writers ?p1) \<subseteq> set (addrs k)"
      "pi_isBroken ?p1 \<longrightarrow> pi_readers ?p1 = []"
    using p set_remove1_subset [of "f_thread file" "pi_readers p"] set_remove1_subset [of "f_thread file" "pi_writers p"]
    by (auto simp: pipe_ok_def)
  show ?thesis
  proof (cases "pi_readers ?p1 = []")
    case True
    obtain k2 where k2: "wakeup_accessing_threads (map_irq begin_critical_section k) pipe (pi_writers ?p1) = Some k2"
        "k' = map_irq end_critical_section k2" "p' = ?p1\<lparr>pi_isBroken := True\<rparr>"
      using c True unfolding pipe_close_def Let_def by (auto split: bind_splits)
    have "kern_ok k2" "addrs k2 = addrs k"
      using wakeup_some [OF k2(1)] p p1(3) by (auto simp: pipe_ok_def)
    then show ?thesis using k2(2,3) p p1 True by (auto simp: pipe_ok_def)
  next
    case False
    then have "k' = map_irq end_critical_section (map_irq begin_critical_section k)" "p' = ?p1"
      using c unfolding pipe_close_def Let_def by auto
    then show ?thesis using p p1 by (auto simp: pipe_ok_def)
  qed
qed

text \<open>A read either leaves the pipe as it is and gives no bytes, or dequeues.\<close>

lemma pipe_read_cases:
  assumes "pipe_read k p pipe file sz (Some buf) = Some (k', p', b', r)"
  shows "(p' = p \<and> b' = Some buf \<and> bytes_of r buf = [] \<and>
      ((\<exists>f. k' = map_irq f k) \<or> k' = k \<or> block_accessing_threads k pipe (pi_readers p) = Some k')) \<or>
    (\<exists>q buf' n. fifobuffer_dequeue (pi_buffer p) buf sz = Some (q, buf', n) \<and> sz \<noteq> 0 \<and> p' = p\<lparr>pi_buffer := q\<rparr> \<and>
      b' = Some buf' \<and> r = Some n \<and>
      wakeup_accessing_threads (map_irq disable_interrupts k) pipe (pi_writers p) = Some k')"
  using assms
  by (auto simp: pipe_read_def bytes_of_def EPIPE_def EINTR_def split: if_splits bind_splits)

lemma pipe_write_cases:
  assumes "pipe_write k p pipe file sz (Some buf) = Some (k', p', r)"
  shows "(p' = p \<and> bytes_of r buf = [] \<and>
      ((\<exists>f. k' = map_irq f k) \<or> (\<exists>f. block_accessing_threads (map_irq f k) pipe (pi_writers p) = Some k'))) \<or>
    (\<exists>q n f. fifobuffer_enqueue (pi_buffer p) buf sz = Some (q, n) \<and> sz \<noteq> 0 \<and> p' = p\<lparr>pi_buffer := q\<rparr> \<and> r = Some n \<and>
      wakeup_accessing_threads (map_irq f k) pipe (pi_readers p) = Some k')"
proof -
  have id: "k = map_irq (\<lambda>s. s) k" by (simp add: map_irq_def)
  have two: "map_irq g (map_irq f k) = map_irq (\<lambda>s. g (f s)) k" for f g by (simp add: map_irq_def)
  show ?thesis
    using assms id unfolding pipe_write_def pipe_write_test_ready_def
    by (auto simp: bytes_of_def EPIPE_def EINTR_def two split: if_splits bind_splits)
qed

text \<open>The result of a transfer is not negative: capacities are below 2 GB.\<close>

lemma bytes_of_count:
  assumes "unat n \<le> c" and "c < 2 ^ 31"
  shows "bytes_of (Some n) buf = take (unat n) buf"
proof -
  have "sint n = int (unat n)" using assms by (intro sint_nonneg) simp
  then have "sint n > 0 \<longleftrightarrow> unat n \<noteq> 0" by linarith
  then show ?thesis by (cases "unat n = 0") (simp_all add: bytes_of_def)
qed

lemma pipe_read_keeps:
  assumes p: "pipe_ok k p" and sz: "unat sz \<le> length buf"
    and rd: "pipe_read k p pipe file sz (Some buf) = Some (k', p', Some buf', r)"
  shows "pipe_ok k' p' \<and> addrs k' = addrs k \<and>
    fifo_list (pi_buffer p) = bytes_of r buf' @ fifo_list (pi_buffer p')"
  using pipe_read_cases [OF rd]
proof (elim disjE exE conjE)
  assume "p' = p" "Some buf' = Some buf" "bytes_of r buf = []"
    "block_accessing_threads k pipe (pi_readers p) = Some k'"
  then show ?thesis using p block_some [of k pipe "pi_readers p" k'] by (auto simp: pipe_ok_def)
next
  fix q b n
  assume d: "fifobuffer_dequeue (pi_buffer p) buf sz = Some (q, b, n)" "sz \<noteq> 0" "p' = p\<lparr>pi_buffer := q\<rparr>"
    "Some buf' = Some b" "r = Some n"
    "wakeup_accessing_threads (map_irq disable_interrupts k) pipe (pi_writers p) = Some k'"
  have q: "fifo_inv q" "fifo_cap q = fifo_cap (pi_buffer p)" "unat n = min (unat sz) (length (fifo_list (pi_buffer p)))"
      "fifo_list q = drop (unat n) (fifo_list (pi_buffer p))" "b = take (unat n) (fifo_list (pi_buffer p)) @ drop (unat n) buf"
    using fifobuffer_dequeue_ok [of "pi_buffer p" sz buf] p sz d(1,2) by (auto simp: pipe_ok_def)
  have le: "unat n \<le> length (fifo_list (pi_buffer p))" using q(3) by simp
  have "bytes_of r buf' = take (unat n) b"
    using d(4,5) q(3) p fb.bounded [of "pi_buffer p"] bytes_of_count [of n "fifo_cap (pi_buffer p)"]
    by (auto simp: pipe_ok_def)
  also have "\<dots> = take (unat n) (fifo_list (pi_buffer p))" using q(5) le by simp
  finally have "bytes_of r buf' = take (unat n) (fifo_list (pi_buffer p))" .
  then show ?thesis using p q(1,2,4) d(3) wakeup_some [OF d(6)] by (auto simp: pipe_ok_def)
qed (use p in \<open>auto simp: pipe_ok_def\<close>)

lemma pipe_write_keeps:
  assumes p: "pipe_ok k p" and sz: "unat sz \<le> length buf"
    and wr: "pipe_write k p pipe file sz (Some buf) = Some (k', p', r)"
  shows "pipe_ok k' p' \<and> addrs k' = addrs k \<and>
    fifo_list (pi_buffer p') = fifo_list (pi_buffer p) @ bytes_of r buf"
  using pipe_write_cases [OF wr]
proof (elim disjE exE conjE)
  fix f
  assume "p' = p" "bytes_of r buf = []" "block_accessing_threads (map_irq f k) pipe (pi_writers p) = Some k'"
  then show ?thesis using p block_some [of "map_irq f k" pipe "pi_writers p" k'] by (auto simp: pipe_ok_def)
next
  fix q n f
  assume d: "fifobuffer_enqueue (pi_buffer p) buf sz = Some (q, n)" "sz \<noteq> 0" "p' = p\<lparr>pi_buffer := q\<rparr>" "r = Some n"
    "wakeup_accessing_threads (map_irq f k) pipe (pi_readers p) = Some k'"
  have q: "fifo_inv q" "fifo_cap q = fifo_cap (pi_buffer p)"
      "unat n = min (unat sz) (fifo_cap (pi_buffer p) - length (fifo_list (pi_buffer p)))"
      "fifo_list q = fifo_list (pi_buffer p) @ take (unat n) buf"
    using fifobuffer_enqueue_ok [of "pi_buffer p" sz buf] p sz d(1,2) by (auto simp: pipe_ok_def)
  have "unat n \<le> fifo_cap (pi_buffer p)" using q(3) by simp
  then have "bytes_of r buf = take (unat n) buf"
    using d(4) p bytes_of_count [of n "fifo_cap (pi_buffer p)"] by (auto simp: pipe_ok_def)
  then show ?thesis using p q(1,2,4) d(3) wakeup_some [OF d(5)] by (auto simp: pipe_ok_def)
qed (use p in \<open>auto simp: pipe_ok_def\<close>)

lemma pipe_reach_inv:
  "pipe_reach pipe k p sent got \<Longrightarrow> pipe_ok k p \<and> sent = got @ fifo_list (pi_buffer p)"
proof (induction rule: pipe_reach.induct)
  case (reach_create k bufferSize nm node_addr)
  then show ?case
    by (simp add: pipe_ok_def new_pipe_def fifo_inv_create fifo_list_create)
      (simp add: fifo_cap_def fifobuffer_create_def)
next
  case (reach_other k p sent got k')
  then show ?case by (auto simp: pipe_ok_def)
next
  case (reach_open k p sent got fl k' p' r)
  then show ?case using pipe_open_keeps by metis
next
  case (reach_close k p sent got fl k' p')
  then show ?case using pipe_close_keeps by metis
next
  case (reach_read k p sent got sz buf fl k' p' buf' r)
  then show ?case using pipe_read_keeps [of k p sz buf pipe fl k' p' buf' r] by auto
next
  case (reach_write k p sent got sz buf fl k' p' r)
  then show ?case using pipe_write_keeps [of k p sz buf pipe fl k' p' r] by auto
qed

section \<open>The names of the pipes\<close>

definition pipe_names :: "(ptr \<times> Pipe) list \<Rightarrow> u8 list list \<Rightarrow> bool" where
  "pipe_names pipes ns \<longleftrightarrow> list_all2 (\<lambda>ap n. cstr n (pi_name (snd ap))) pipes ns \<and> distinct ns"

lemma find_pipe_ok:
  assumes "list_all2 (\<lambda>ap n. cstr n (pi_name (snd ap))) pipes ns" and "cstr n obj"
  shows "if n \<in> set ns then \<exists>ap. find_pipe obj pipes = Some (Some ap) \<and> ap \<in> set pipes \<and> cstr n (pi_name (snd ap))
    else find_pipe obj pipes = Some None"
  using assms(1)
proof (induction rule: list_all2_induct)
  case (Cons ap pipes m ns)
  have "strcmp obj (pi_name (snd ap)) = Some (if n = m then 0 else 1)"
    by (rule strcmp_cstr [OF assms(2) Cons.hyps(1)])
  then show ?case using Cons.IH Cons.hyps(1) by (cases "n = m") (auto split: if_splits)
qed simp

lemma cstr_unique: "cstr n obj \<Longrightarrow> cstr m obj \<Longrightarrow> n = m"
proof (induction n arbitrary: m obj)
  case Nil
  then show ?case by (cases m) (auto simp: cstr_iff)
next
  case (Cons c n)
  then obtain obj' where "obj = c # obj'" "c \<noteq> 0" "cstr n obj'" by (auto simp: cstr_iff)
  then show ?case using Cons by (cases m) (auto simp: cstr_iff)
qed

lemma remove_pipe:
  assumes "list_all2 (\<lambda>ap n. cstr n (pi_name (snd ap))) pipes ns" and "ap \<in> set pipes" and "cstr n (pi_name (snd ap))"
    and "distinct ns"
  shows "list_all2 (\<lambda>ap n. cstr n (pi_name (snd ap))) (remove1 ap pipes) (remove1 n ns)"
  using assms(1,2,4)
proof (induction rule: list_all2_induct)
  case (Cons a pipes m ns)
  show ?case
  proof (cases "a = ap")
    case True
    then have "m = n" using Cons.hyps(1) assms(3) cstr_unique by blast
    then show ?thesis using True Cons.hyps(2) by simp
  next
    case False
    then have "ap \<in> set pipes" using Cons.prems(1) by simp
    then obtain i where "i < length pipes" "pipes ! i = ap" by (auto simp: in_set_conv_nth)
    then have "cstr (ns ! i) (pi_name (snd ap))" "i < length ns"
      using list_all2_nthD [OF Cons.hyps(2)] list_all2_lengthD [OF Cons.hyps(2)] by auto
    then have "n \<in> set ns" using assms(3) cstr_unique by (metis nth_mem)
    then have "m \<noteq> n" using Cons.prems(2) by auto
    then show ?thesis using False Cons by simp
  qed
qed simp

lemma pipe_create_ok:
  assumes "pipe_names pipes ns" and "cstr n obj" and "n \<noteq> [] \<and> length n < 32"
  shows "ok (pipe_create pipes a b obj sz) (\<lambda>(pipes', r). r = (n \<notin> set ns) \<and>
    pipe_names pipes' (if n \<in> set ns then ns else ns @ [n]))"
proof (cases "n \<in> set ns")
  case True
  then show ?thesis using find_pipe_ok [of pipes ns n obj] assms by (auto simp: pipe_create_def pipe_names_def)
next
  case False
  let ?nm = "n @ 0 # drop (Suc (length n)) (replicate 32 0)"
  have c: "strcpy (replicate 32 0) obj = Some (?nm, length n)"
    using strcpy_cstr [OF assms(2)] assms(3) by auto
  have z: "0 \<notin> set n" using assms(2) by (auto simp: cstr_iff)
  then have nm: "cstr n ?nm" by (auto simp: cstr_iff)
  have "pipe_create pipes a b obj sz = Some (pipes @ [(a, \<lparr>pi_name = ?nm, pi_buffer = fifobuffer_create sz,
                 pi_fsNode = b, pi_readers = [], pi_writers = [], pi_isBroken = False\<rparr>)], True)"
    using find_pipe_ok [of pipes ns n obj] assms(1,2) False c by (simp add: pipe_create_def pipe_names_def)
  then show ?thesis using False assms(1) nm by (auto simp: pipe_names_def intro: list_all2_appendI)
qed

interpretation pipe_registry: name_registry pipe_names pipe_exists
  "\<lambda>pipes obj. pipe_create pipes a b obj sz" "\<lambda>n. n \<noteq> [] \<and> length n < 32" for a b sz
proof unfold_locales
  show "pipe_names t ns \<Longrightarrow> distinct ns" for t ns by (simp add: pipe_names_def)
  show "pipe_names t ns \<Longrightarrow> cstr n obj \<Longrightarrow> pipe_exists t obj = Some (n \<in> set ns)" for t ns n obj
    using find_pipe_ok [of t ns n obj] by (auto simp: pipe_exists_def pipe_names_def split: if_splits)
qed (fact pipe_create_ok)

lemma pipe_destroy_ok:
  assumes "pipe_names pipes ns" and "cstr n obj"
  shows "ok (pipe_destroy pipes obj) (\<lambda>(pipes', r). r = (n \<in> set ns) \<and> pipe_names pipes' (remove1 n ns))"
proof (cases "n \<in> set ns")
  case True
  then obtain ap where "find_pipe obj pipes = Some (Some ap)" "ap \<in> set pipes" "cstr n (pi_name (snd ap))"
    using find_pipe_ok [of pipes ns n obj] assms by (auto simp: pipe_names_def)
  then show ?thesis using True remove_pipe [of pipes ns ap n] assms(1) by (simp add: pipe_destroy_def pipe_names_def)
next
  case False
  then show ?thesis using find_pipe_ok [of pipes ns n obj] assms
    by (simp add: pipe_destroy_def pipe_names_def remove1_idem)
qed

text \<open>A write to an empty pipe that has a reader and room.\<close>

lemma write_to_empty:
  assumes "kern_ok k" and "fifo_inv (pi_buffer p)" and "set (pi_readers p) \<subseteq> set (addrs k)" and "pi_readers p \<noteq> []"
    and "fifo_list (pi_buffer p) = []" and "CHECK_ACCESS (f_flags wfile) O_WRONLY" and "wsz \<noteq> 0"
    and "unat wsz \<le> length wbuf" and "unat wsz \<le> fifo_cap (pi_buffer p)"
    and "get_thread k (k_current k) = Some tw" and "pending_signal_count tw = 0"
  shows "\<exists>k2 q. pipe_write k p pipe wfile wsz (Some wbuf) = Some (k2, p\<lparr>pi_buffer := q\<rparr>, Some wsz) \<and>
    kern_ok k2 \<and> addrs k2 = addrs k \<and> fifo_inv q \<and> fifo_list q = take (unat wsz) wbuf \<and>
    (\<forall>a \<in> set (pi_readers p). woken k pipe a k2)"
proof -
  obtain q n where q: "fifobuffer_enqueue (pi_buffer p) wbuf wsz = Some (q, n)" "fifo_inv q"
      "unat n = min (unat wsz) (fifo_cap (pi_buffer p) - length (fifo_list (pi_buffer p)))"
      "fifo_list q = fifo_list (pi_buffer p) @ take (unat n) wbuf"
    using fifobuffer_enqueue_ok [OF assms(2,8,7)] by (auto simp: ok_iff)
  have n: "unat n = unat wsz" using q(3) assms(5,9) by (simp del: length_fifo_list)
  then have nw: "n = wsz" by (simp only: word_unat_eq_iff)
  let ?kirq = "map_irq (\<lambda>s. end_critical_section (begin_critical_section s)) k"
  let ?koff = "map_irq disable_interrupts ?kirq"
  have ka: "kern_ok ?koff" "set (pi_readers p) \<subseteq> set (addrs ?koff)" using assms(1,3) by simp_all
  obtain k2 where k2: "wakeup_accessing_threads ?koff pipe (pi_readers p) = Some k2" "kern_ok k2" "addrs k2 = addrs k"
      "\<forall>a \<in> set (pi_readers p). woken ?koff pipe a k2"
    using wakeup_ok [OF ka, of pipe] by (auto simp: ok_iff)
  have "0 < unat wsz" using assms(7) by (simp add: unat_gt_0)
  then have "fifobuffer_get_free (pi_buffer p) > 0"
    using unat_get_free [OF assms(2)] assms(5,9) by (simp add: word_less_nat_alt del: length_fifo_list)
  then have ready: "pipe_write_test_ready k p = (?kirq, True)" using assms(4) by (simp add: pipe_write_test_ready_def)
  have "pipe_write k p pipe wfile wsz (Some wbuf) = Some (k2, p\<lparr>pi_buffer := q\<rparr>, Some wsz)"
    using assms(6,7,10,11) ready q(1) nw k2(1) unfolding pipe_write_def by simp
  moreover have "\<forall>a \<in> set (pi_readers p). woken k pipe a k2" using k2(4) by (simp add: woken_def)
  moreover have "fifo_list q = take (unat wsz) wbuf" using q(4) assms(5) n by simp
  ultimately show ?thesis using q(2) k2(2,3) by blast
qed

section \<open>Properties\<close>

text \<open>
  C8: a pipe is a byte stream: whatever sequence of opens, closes, reads and writes of whatever threads
  it has gone through, the bytes that writers were told are written are the bytes readers have
  been given followed by the bytes in its buffer, in order; and a broken pipe has no readers.
\<close>

theorem pipe_stream:
  assumes "pipe_reach pipe k p sent got"
  shows "sent = got @ fifo_list (pi_buffer p) \<and> fifo_inv (pi_buffer p) \<and> (pi_isBroken p \<longrightarrow> pi_readers p = [])"
  using pipe_reach_inv [OF assms] by (auto simp: pipe_ok_def)


text \<open>A kernel with an idle thread and two threads of a process, and a pipe one of them reads.\<close>

definition sample_threads3 :: kernel_state where
  "sample_threads3 = (sample_kernel [sample_thread 10 TS_RUN 0, sample_thread 20 TS_RUN 0, sample_thread 30 TS_SUSPEND 0])
     \<lparr>k_current := 20\<rparr>"

definition sample_file :: "ptr \<Rightarrow> u32 \<Rightarrow> File" where
  "sample_file t flags = \<lparr>f_node = 0, f_process = 1, f_thread = t, f_fd = 0, f_flags = flags, f_offset = 0,
     f_private_data = 0\<rparr>"

lemma sample3_ok: "kern_ok sample_threads3" "addrs sample_threads3 = [10, 20, 30]" "k_current sample_threads3 = 20"
proof -
  have f: "fifo_inv (fifobuffer_create 64)" "fifo_cap (fifobuffer_create 64) = 64"
    by (rule fifo_inv_create) (simp add: fifo_cap_def fifobuffer_create_def)
  show a: "addrs sample_threads3 = [10, 20, 30]"
    by (simp add: sample_threads3_def addrs_def sample_kernel_def sample_thread_def)
  have "\<forall>t \<in> set (k_threads sample_threads3). signals_ok t \<and> k_procs sample_threads3 (th_owner t) \<noteq> None"
    using f by (simp add: signals_ok_def sample_threads3_def sample_kernel_def sample_thread_def)
  then show "kern_ok sample_threads3" using a by (simp add: kern_ok_def threads_ok_def)
qed (simp add: sample_threads3_def)

lemma sample3_threads:
  "get_thread sample_threads3 10 = Some (sample_thread 10 TS_RUN 0)"
  "get_thread sample_threads3 20 = Some (sample_thread 20 TS_RUN 0)"
  "get_thread sample_threads3 30 = Some (sample_thread 30 TS_SUSPEND 0)"
  by (simp_all add: get_thread_def sample_threads3_def sample_kernel_def sample_thread_def)

lemma sample3_pipe: "pipe_ok sample_threads3 ((new_pipe [] 0 16)\<lparr>pi_readers := [20]\<rparr>)"
  "fifo_list (pi_buffer ((new_pipe [] 0 16)\<lparr>pi_readers := [20]\<rparr>)) = []"
  "fifo_cap (pi_buffer ((new_pipe [] 0 16)\<lparr>pi_readers := [20]\<rparr>)) = 16"
proof -
  show c: "fifo_cap (pi_buffer ((new_pipe [] 0 16)\<lparr>pi_readers := [20]\<rparr>)) = 16"
    by (simp add: new_pipe_def fifo_cap_def fifobuffer_create_def)
  then show "pipe_ok sample_threads3 ((new_pipe [] 0 16)\<lparr>pi_readers := [20]\<rparr>)"
    using sample3_ok by (simp add: pipe_ok_def new_pipe_def fifo_inv_create)
qed (simp add: new_pipe_def fifo_list_create)

lemma access_simps:
  "CHECK_ACCESS (f_flags (sample_file a 0)) O_RDONLY" "CHECK_ACCESS (f_flags (sample_file a 1)) O_WRONLY"
  by (simp_all add: CHECK_ACCESS_def sample_file_def O_ACCMODE_def O_RDONLY_def O_WRONLY_def)

theorem pipe_stream_witness:
  "\<exists>k p. pipe_reach 0x3000 k p [] [] \<and> k_current k = 20 \<and> fifo_list (pi_buffer p) = []"
proof -
  have "unat (16 :: u32) < 2 ^ 31" by simp
  then have r: "pipe_reach 0x3000 sample_threads3 (new_pipe [] 0 16) [] []"
    by (rule pipe_reach.reach_create [OF sample3_ok(1)])
  from pipe_stream [OF r] have "fifo_list (pi_buffer (new_pipe [] 0 16)) = []" by simp
  then show ?thesis using r sample3_ok(3) by blast
qed


text \<open>
  The list of pipes is a registry of names: a name is found exactly when it was created and not
  destroyed since, creating a name a second time is refused, and destroying one removes that
  pipe and no other.
\<close>

theorem pipe_registry_correct:
  assumes "pipe_names pipes ns" and "cstr n obj" and "n \<noteq> []" and "length n < 32"
  shows "(\<exists>pipes'. pipe_create pipes a b obj sz = Some (pipes', n \<notin> set ns) \<and>
      (\<forall>m mobj. cstr m mobj \<longrightarrow> pipe_exists pipes' mobj = Some (m = n \<or> m \<in> set ns))) \<and>
    (\<exists>pipes'. pipe_destroy pipes obj = Some (pipes', n \<in> set ns) \<and>
      (\<forall>m mobj. cstr m mobj \<longrightarrow> pipe_exists pipes' mobj = Some (m \<noteq> n \<and> m \<in> set ns)))"
proof (intro conjI)
  have fit: "n \<noteq> [] \<and> length n < 32" using assms(3,4) by simp
  obtain p1 r1 where p1: "pipe_create pipes a b obj sz = Some (p1, r1)" "r1 = (n \<notin> set ns)"
      "pipe_names p1 (if n \<in> set ns then ns else ns @ [n])"
    using pipe_registry.add_ok [OF assms(1,2) fit, of a b sz] by (auto simp: ok_iff)
  have "pipe_exists p1 mobj = Some (m = n \<or> m \<in> set ns)" if "cstr m mobj" for m mobj
    using pipe_registry.has_ok [OF p1(3) that] by auto
  then show "\<exists>pipes'. pipe_create pipes a b obj sz = Some (pipes', n \<notin> set ns) \<and>
      (\<forall>m mobj. cstr m mobj \<longrightarrow> pipe_exists pipes' mobj = Some (m = n \<or> m \<in> set ns))"
    using p1(1,2) by blast
next
  obtain p2 r2 where p2: "pipe_destroy pipes obj = Some (p2, r2)" "r2 = (n \<in> set ns)" "pipe_names p2 (remove1 n ns)"
    using pipe_destroy_ok [OF assms(1,2)] by (auto simp: ok_iff)
  have "set (remove1 n ns) = set ns - {n}"
    using pipe_registry.names_distinct [OF assms(1)] by simp
  then have "pipe_exists p2 mobj = Some (m \<noteq> n \<and> m \<in> set ns)" if "cstr m mobj" for m mobj
    using pipe_registry.has_ok [OF p2(3) that] by auto
  then show "\<exists>pipes'. pipe_destroy pipes obj = Some (pipes', n \<in> set ns) \<and>
      (\<forall>m mobj. cstr m mobj \<longrightarrow> pipe_exists pipes' mobj = Some (m \<noteq> n \<and> m \<in> set ns))"
    using p2(1,2) by blast
qed

theorem pipe_registry_correct_witness:
  "\<exists>pipes'. pipe_create [] 0x1000 0x2000 [112, 0] 16 = Some (pipes', True) \<and> pipe_exists pipes' [112, 0] = Some True"
proof -
  have "pipe_names [] []" "cstr [112] [112, 0]" by (simp_all add: pipe_names_def cstr_def)
  from pipe_registry_correct [OF this, of "0x1000" "0x2000" 16] this(2) show ?thesis by auto
qed

lemma pipe_open_reader:
  assumes p: "pipe_ok k p" and f: "f_thread file \<in> set (addrs k)" and c: "get_thread k (k_current k) = Some t"
    and w: "k_current k \<notin> set (pi_writers p)" "CHECK_ACCESS (f_flags file) O_RDONLY"
  shows "\<exists>k'. pipe_open k p pipe file = Some (k', p\<lparr>pi_isBroken := False, pi_readers := pi_readers p @ [f_thread file]\<rparr>, True) \<and>
    kern_ok k' \<and> addrs k' = addrs k \<and> runs k' (k_current k) \<and> k_current k' = k_current k \<and>
    (\<forall>a \<in> set (pi_writers p). woken k pipe a k') \<and> \<not> is_interrupts_enabled (k_irq k')"
proof -
  have q: "kern_ok k" "set (pi_writers p) \<subseteq> set (addrs k)" using p by (auto simp: pipe_ok_def)
  have ta: "th_addr t = k_current k" and ca: "k_current k \<in> set (addrs k)"
    using get_thread_Some [OF c] by (auto simp: addrs_def intro: rev_image_eqI)
  let ?k1 = "put_thread (map_irq begin_critical_section k) (t\<lparr>th_state := TS_CRITICAL\<rparr>)"
  have k1: "set_current_state (map_irq begin_critical_section k) TS_CRITICAL = Some ?k1"
    using c by (simp add: set_current_state_def)
  have ok1: "kern_ok ?k1" "addrs ?k1 = addrs k" "k_current ?k1 = k_current k"
    using set_current_keeps [OF k1] q(1) by auto
  obtain k2 where k2: "wakeup_accessing_threads ?k1 pipe (pi_writers p) = Some k2" "kern_ok k2" "addrs k2 = addrs k"
      "\<forall>a \<in> set (pi_writers p). woken ?k1 pipe a k2"
    using wakeup_ok [OF ok1(1), of "pi_writers p" pipe] ok1(2) q(2) by (auto simp: ok_iff)
  have i2: "k_irq k2 = end_critical_section (begin_critical_section (k_irq ?k1))" "k_current k2 = k_current k"
    using wakeup_keeps [OF k2(1)] ok1(3) by auto
  obtain t2 where t2: "get_thread k2 (k_current k) = Some t2"
    using get_thread_ex [of "k_current k" k2] k2(3) ca by auto
  have ta2: "th_addr t2 = k_current k" using get_thread_Some [OF t2] by simp
  let ?k3 = "put_thread k2 (t2\<lparr>th_state := TS_RUN\<rparr>)"
  have k3: "set_current_state k2 TS_RUN = Some ?k3" using t2 i2(2) by (simp add: set_current_state_def)
  have ok3: "kern_ok ?k3" "addrs ?k3 = addrs k" "k_current ?k3 = k_current k" "k_irq ?k3 = k_irq k2"
    using set_current_keeps [OF k3 k2(2)] k2(3) i2(2) by auto
  have o: "pipe_open k p pipe file =
      Some (map_irq end_critical_section ?k3, p\<lparr>pi_isBroken := False, pi_readers := pi_readers p @ [f_thread file]\<rparr>, True)"
    using w(2) k1 k2(1) k3 by (simp add: pipe_open_def)
  have off: "\<not> is_interrupts_enabled (k_irq ?k1)" by (simp add: put_thread_def)
  have "\<not> is_interrupts_enabled (end_critical_section (k_irq ?k3))"
    using off ok3(4) i2(1) by (simp add: end_critical_section_def)
  moreover have "runs ?k3 (k_current k)"
    using ta2 k2(3) ca by (simp add: runs_def get_put)
  moreover have "woken k pipe a ?k3" if a: "a \<in> set (pi_writers p)" for a
  proof -
    have ne: "a \<noteq> k_current k" using a w(1) by auto
    then have "get_thread ?k1 a = get_thread k a" "get_thread ?k3 a = get_thread k2 a" using ta ta2 by (simp_all add: get_put)
    then show ?thesis using k2(4) a by (simp add: woken_def runs_def)
  qed
  ultimately show ?thesis using o ok3 by (auto simp: woken_def)
qed

text \<open>
  Opening a pipe enters the file's thread into the list of readers or of writers and makes the pipe
  whole again; opening it for reading also wakes the writers that wait for it, and because waking
  them is a critical section inside the critical section of the open, interrupts stay
  disabled afterwards, whatever they were before.
\<close>

theorem pipe_open_correct:
  assumes p: "pipe_ok k p" and f: "f_thread file \<in> set (addrs k)" and c: "get_thread k (k_current k) = Some t"
    and w: "k_current k \<notin> set (pi_writers p)" "CHECK_ACCESS (f_flags file) O_RDONLY"
  shows "\<exists>k'. pipe_open k p pipe file = Some (k', p\<lparr>pi_isBroken := False, pi_readers := pi_readers p @ [f_thread file]\<rparr>, True) \<and>
    kern_ok k' \<and> addrs k' = addrs k \<and> runs k' (k_current k) \<and> k_current k' = k_current k \<and>
    (\<forall>a \<in> set (pi_writers p). woken k pipe a k') \<and> \<not> is_interrupts_enabled (k_irq k')"
  by (rule pipe_open_reader [OF assms])

lemma sample_pipe_ok: "pipe_ok sample_threads3 (new_pipe [] 0 16)"
  using sample3_ok sample3_pipe(3) by (simp add: pipe_ok_def new_pipe_def fifo_inv_create)

lemma sample_open_hyps:
  "f_thread (sample_file 20 0) \<in> set (addrs sample_threads3)"
  "get_thread sample_threads3 (k_current sample_threads3) = Some (sample_thread 20 TS_RUN 0)"
  "k_current sample_threads3 \<notin> set (pi_writers (new_pipe [] 0 16))"
  using sample3_ok sample3_threads by (simp_all add: new_pipe_def sample_file_def)

lemmas sample_opened =
  pipe_open_reader [OF sample_pipe_ok sample_open_hyps access_simps(1), of "0x3000"]

theorem pipe_open_correct_witness:
  "\<exists>k. pipe_open sample_threads3 (new_pipe [] 0 16) 0x3000 (sample_file 20 0) =
     Some (k, (new_pipe [] 0 16)\<lparr>pi_isBroken := False, pi_readers := pi_readers (new_pipe [] 0 16) @ [f_thread (sample_file 20 0)]\<rparr>, True) \<and>
     \<not> is_interrupts_enabled (k_irq k)"
  using pipe_open_correct [OF sample_pipe_ok sample_open_hyps access_simps(1), of "0x3000"] by blast

text \<open>
  C39: a reader never sees the end of a pipe: whatever has happened to a pipe, as long as a thread has it
  open for reading, a read of the empty pipe goes to sleep, even when no writer is left to wake it.
\<close>

theorem pipe_no_end_of_file:
  assumes "pipe_reach pipe k p sent got" and "pi_readers p \<noteq> []" and "fifo_list (pi_buffer p) = []"
    and "CHECK_ACCESS (f_flags file) O_RDONLY" and "sz \<noteq> 0"
    and "get_thread k (k_current k) = Some t" and "pending_signal_count t = 0"
  shows "\<exists>k'. pipe_read k p pipe file sz (Some buf) = Some (k', p, Some buf, None) \<and>
    (\<forall>a \<in> set (pi_readers p). \<exists>u. get_thread k' a = Some u \<and> waits_on u pipe)"
proof -
  have p: "pipe_ok k p" using pipe_reach_inv [OF assms(1)] by simp
  have e: "fifobuffer_get_size (pi_buffer p) = 0" using assms(3) by (simp add: fifo_list_Nil fifobuffer_get_size_def)
  have q: "kern_ok k" "set (pi_readers p) \<subseteq> set (addrs k)" "\<not> pi_isBroken p" using p assms(2) by (auto simp: pipe_ok_def)
  obtain k1 where k1: "block_accessing_threads k pipe (pi_readers p) = Some k1"
      "\<forall>a. get_thread k1 a = (if a \<in> set (pi_readers p) then map_option (\<lambda>t. thread_change_state t TS_WAITIO pipe) (get_thread k a)
                            else get_thread k a)"
    using block_ok [OF q(1,2), of pipe] by (auto simp: ok_iff)
  have "pipe_read k p pipe file sz (Some buf) = Some (k1, p, Some buf, None)"
    using assms(4-7) e q(3) k1(1) by (simp add: pipe_read_def pipe_read_test_ready_def)
  moreover have "\<exists>u. get_thread k1 a = Some u \<and> waits_on u pipe" if a: "a \<in> set (pi_readers p)" for a
  proof -
    obtain u where "get_thread k a = Some u" using get_thread_ex [of a k] q(2) a by auto
    then show ?thesis using k1(2) a by (simp add: waits_on_def thread_change_state_def)
  qed
  ultimately show ?thesis by blast
qed

theorem pipe_no_end_of_file_witness:
  "\<exists>p k'. pi_writers p = [] \<and> pipe_read sample_threads3 p 0x3000 (sample_file 20 0) 4 (Some [0, 0, 0, 0]) =
     Some (k', p, Some [0, 0, 0, 0], None)"
proof -
  let ?new = "new_pipe [] 0 16"
  let ?opened = "?new\<lparr>pi_isBroken := False, pi_readers := pi_readers ?new @ [f_thread (sample_file 20 0)]\<rparr>"
  have "unat (16 :: u32) < 2 ^ 31" by simp
  then have r0: "pipe_reach 0x3000 sample_threads3 ?new [] []"
    by (rule pipe_reach.reach_create [OF sample3_ok(1)])
  obtain k1 where k1: "pipe_open sample_threads3 ?new 0x3000 (sample_file 20 0) = Some (k1, ?opened, True)"
      "addrs k1 = addrs sample_threads3"
    using sample_opened by blast
  have r1: "pipe_reach 0x3000 k1 ?opened [] []"
    by (rule pipe_reach.reach_open [OF r0 sample_open_hyps(1) k1(1)])
  have r: "pipe_reach 0x3000 sample_threads3 ?opened [] []"
    by (rule pipe_reach.reach_other [OF r1 sample3_ok(1)]) (simp add: k1(2))
  have h: "pi_readers ?opened \<noteq> []" "fifo_list (pi_buffer ?opened) = []" "(4 :: u32) \<noteq> 0"
      "pending_signal_count (sample_thread 20 TS_RUN 0) = 0"
    using sample3_pipe(2) by (simp_all add: sample_thread_def)
  have w: "pi_writers ?opened = []" by (simp add: new_pipe_def)
  from pipe_no_end_of_file [OF r h(1,2) access_simps(1) h(3) sample_open_hyps(2) h(4), of 20 "[0, 0, 0, 0]"]
  show ?thesis using w by blast
qed

text \<open>
  A read of an empty pipe changes the state of every thread that has it open for reading, also of one
  that a signal has stopped: the next write makes the stopped thread run again although nobody
  has continued it.
\<close>

theorem pipe_write_resumes_stopped:
  assumes p: "pipe_ok k p" and r: "k_current k \<in> set (pi_readers p)" "u \<in> set (pi_readers p)" "fifo_list (pi_buffer p) = []"
    and t: "get_thread k (k_current k) = Some t" "pending_signal_count t = 0"
    and s: "get_thread k u = Some tu" "th_state tu = TS_SUSPEND"
    and f: "CHECK_ACCESS (f_flags rfile) O_RDONLY" "CHECK_ACCESS (f_flags wfile) O_WRONLY"
    and sz: "rsz \<noteq> 0" "unat rsz \<le> length rbuf" "wsz \<noteq> 0" "unat wsz \<le> length wbuf" "unat wsz \<le> fifo_cap (pi_buffer p)"
    and w: "get_thread k w = Some tw" "pending_signal_count tw = 0" "w \<notin> set (pi_readers p)"
  shows "\<exists>k1 k2 p2. pipe_read k p pipe rfile rsz (Some rbuf) = Some (k1, p, Some rbuf, None) \<and>
    pipe_write (k1\<lparr>k_current := w\<rparr>) p pipe wfile wsz (Some wbuf) = Some (k2, p2, Some wsz) \<and> runs k2 u"
proof -
  have q: "fifo_inv (pi_buffer p)" "kern_ok k" "set (pi_readers p) \<subseteq> set (addrs k)" "\<not> pi_isBroken p"
    using p r(1) by (auto simp: pipe_ok_def)
  have e: "fifobuffer_get_size (pi_buffer p) = 0" using r(3) by (simp add: fifo_list_Nil fifobuffer_get_size_def)
  obtain k1 where k1: "block_accessing_threads k pipe (pi_readers p) = Some k1" "kern_ok k1" "addrs k1 = addrs k"
      "\<forall>a. get_thread k1 a = (if a \<in> set (pi_readers p) then map_option (\<lambda>t. thread_change_state t TS_WAITIO pipe) (get_thread k a)
                            else get_thread k a)"
    using block_ok [OF q(2,3), of pipe] by (auto simp: ok_iff)
  have rd: "pipe_read k p pipe rfile rsz (Some rbuf) = Some (k1, p, Some rbuf, None)"
    using sz(1) f(1) e q(4) t k1(1) by (simp add: pipe_read_def pipe_read_test_ready_def)
  let ?k = "k1\<lparr>k_current := w\<rparr>"
  have ne: "pi_readers p \<noteq> []" using r(1) by auto
  have kw: "kern_ok ?k" "set (pi_readers p) \<subseteq> set (addrs ?k)" "get_thread ?k (k_current ?k) = Some tw"
    using k1(2,3,4) q(3) w(1,3) by simp_all
  from write_to_empty [OF kw(1) q(1) kw(2) ne r(3) f(2) sz(3-5) kw(3) w(2), of pipe]
  obtain k2 b where w2: "pipe_write ?k p pipe wfile wsz (Some wbuf) = Some (k2, p\<lparr>pi_buffer := b\<rparr>, Some wsz)"
      "\<forall>a \<in> set (pi_readers p). woken ?k pipe a k2"
    by blast
  have "get_thread ?k u = Some (thread_change_state tu TS_WAITIO pipe)" using k1(4) r(2) s(1) by simp
  then have "runs k2 u" using w2(2) r(2) by (auto simp: woken_def waits_on_def thread_change_state_def)
  then show ?thesis using rd w2(1) by blast
qed

theorem pipe_write_resumes_stopped_witness:
  "\<exists>k1 k2 p2. pipe_write (k1\<lparr>k_current := 10\<rparr>) ((new_pipe [] 0 16)\<lparr>pi_readers := [20, 30]\<rparr>) 0x3000 (sample_file 10 1) 2
     (Some [7, 8]) = Some (k2, p2, Some 2) \<and> runs k2 30"
proof -
  let ?p = "(new_pipe [] 0 16)\<lparr>pi_readers := [20, 30]\<rparr>"
  have c: "fifo_cap (pi_buffer ?p) = 16" using sample3_pipe(3) by simp
  have p: "pipe_ok sample_threads3 ?p" using sample3_ok c by (simp add: pipe_ok_def new_pipe_def fifo_inv_create)
  have l: "fifo_list (pi_buffer ?p) = []" using sample3_pipe(2) by simp
  have h: "k_current sample_threads3 \<in> set (pi_readers ?p)" "30 \<in> set (pi_readers ?p)"
      "get_thread sample_threads3 (k_current sample_threads3) = Some (sample_thread 20 TS_RUN 0)"
      "pending_signal_count (sample_thread 20 TS_RUN 0) = 0" "th_state (sample_thread 30 TS_SUSPEND 0) = TS_SUSPEND"
      "pending_signal_count (sample_thread 10 TS_RUN 0) = 0" "10 \<notin> set (pi_readers ?p)"
      "unat (2 :: u32) \<le> fifo_cap (pi_buffer ?p)"
    using sample3_ok sample3_threads c by (simp_all add: sample_thread_def)
  have z: "(4 :: u32) \<noteq> 0" "unat (4 :: u32) \<le> length [0, 0, 0, 0 :: u8]" "(2 :: u32) \<noteq> 0"
      "unat (2 :: u32) \<le> length [7, 8 :: u8]"
    by simp_all
  from pipe_write_resumes_stopped [OF p h(1,2) l h(3,4) sample3_threads(3) h(5) access_simps(1) [of 20] access_simps(2) [of 10]
      z h(8) sample3_threads(1) h(6,7), of "0x3000"]
  show ?thesis by blast
qed

end
