(* ===== verification/PathName.thy ===== *)
theory PathName
  imports CommonLib
begin

text \<open>
  The path arithmetic of \<^verbatim>\<open>kernel/fs.c\<close>: \<^verbatim>\<open>fs_resolve_path\<close> removes repeated slashes and the
  components that start with a dot. The reference works on the list of components of the path.
  Indices are natural numbers; the code keeps them in \<^verbatim>\<open>int\<close>, which is the same for a string
  shorter than \<open>2 ^ 31\<close>. \<^verbatim>\<open>path + index\<close> is \<open>drop index path\<close>.
\<close>

section \<open>The code\<close>

abbreviation slash :: u8 where "slash \<equiv> 47"
abbreviation dot :: u8 where "dot \<equiv> 46"

text \<open>\<^verbatim>\<open>while (path[++index] == '/');\<close>\<close>

function skip_slashes :: "u8 list \<Rightarrow> nat \<Rightarrow> nat option" where
  "skip_slashes path index = do {
     c \<leftarrow> rd path (Suc index);
     if c = slash then skip_slashes path (Suc index) else Some (Suc index)
   }"
  by pat_completeness auto
termination
  by (relation "measure (\<lambda>(path, index). length path - index)") (auto simp: rd_def split: if_splits)

declare skip_slashes.simps [simp del]

lemma skip_slashes_greater: "skip_slashes path index = Some i \<Longrightarrow> index < i"
proof (induction path index rule: skip_slashes.induct)
  case (1 path index)
  from "1.prems" obtain c where c: "rd path (Suc index) = Some c"
      "(if c = slash then skip_slashes path (Suc index) else Some (Suc index)) = Some i"
    by (subst (asm) skip_slashes.simps) (auto split: bind_splits)
  show ?case using "1.IH" [OF c(1)] c(2) by (cases "c = slash") auto
qed

text \<open>The loop that removes the last component behind \<^verbatim>\<open>index_buffer\<close>.\<close>

fun back_up :: "u8 list \<Rightarrow> nat \<Rightarrow> (u8 list \<times> nat) option" where
  "back_up buffer 0 = Some (buffer, 0)"
| "back_up buffer (Suc i) = do {
     c \<leftarrow> rd buffer i;
     if c = slash then Some (buffer, i)
     else do { b \<leftarrow> wr buffer i 0; back_up b i }
   }"

definition token_length :: "u8 list \<Rightarrow> nat option" where
  "token_length current = do {
     next_index \<leftarrow> str_first_index_of current slash;
     if sint next_index \<ge> 0 then Some (unat next_index) else map_option unat (strlen (Some current))
   }"

definition put_token :: "u8 list \<Rightarrow> nat \<Rightarrow> u8 list \<Rightarrow> nat \<Rightarrow> (u8 list \<times> nat) option" where
  "put_token buffer index_buffer current len = do {
     t \<leftarrow> strncpy (drop index_buffer buffer) current (of_nat len);
     let b = take index_buffer buffer @ t;
     c \<leftarrow> rd current len;
     (b', j) \<leftarrow> (if c = slash then do { b' \<leftarrow> wr b (index_buffer + len) slash; Some (b', index_buffer + len + 1) }
                else Some (b, index_buffer + len));
     b'' \<leftarrow> wr b' j 0;
     Some (b'', j)
   }"

function resolve_loop :: "u8 list \<Rightarrow> int \<Rightarrow> int \<Rightarrow> nat \<Rightarrow> u8 list \<Rightarrow> nat \<Rightarrow> (u8 list \<times> nat \<times> bool) option" where
  "resolve_loop path length_path buffer_size index buffer index_buffer =
     (if int index < length_path - 1 then do {
        i \<leftarrow> skip_slashes path index;
        let current = drop i path;
        len \<leftarrow> token_length current;
        if len > 0 then do {
          up \<leftarrow> strncmp current [dot, dot, 0] 2;
          if up = 0 then do {
            (b, j) \<leftarrow> back_up buffer (index_buffer - 1);
            resolve_loop path length_path buffer_size (i + len) b (j + 1)
          } else do {
            here \<leftarrow> strncmp current [dot, 0] 1;
            if here = 0 then resolve_loop path length_path buffer_size (i + len) buffer index_buffer
            else if int (index_buffer + len + 2) > buffer_size then Some (buffer, index_buffer, False)
            else do {
              (b, j) \<leftarrow> put_token buffer index_buffer current len;
              resolve_loop path length_path buffer_size (i + len) b j
            }
          }
        } else resolve_loop path length_path buffer_size i buffer index_buffer
      } else Some (buffer, index_buffer, True))"
  by pat_completeness auto
termination
proof (relation "measure (\<lambda>(path, n, size, index, buffer, ib). nat (n - int index))", goal_cases)
  case 1
  show ?case by simp
qed (auto dest: skip_slashes_greater)

declare resolve_loop.simps [simp del]

text \<open>A buffer too small for the root is refused before it is written; the result is the flag.\<close>

definition fs_resolve_path :: "u8 list \<Rightarrow> u8 list \<Rightarrow> i32 \<Rightarrow> (u8 list \<times> bool) option" where
  "fs_resolve_path path buffer buffer_size = do {
     length_path \<leftarrow> strlen (Some path);
     c \<leftarrow> rd path 0;
     if c \<noteq> slash then Some (buffer, False)
     else if sint buffer_size < 2 then Some (buffer, False)
     else do {
       b0 \<leftarrow> wr buffer 0 slash;
       b1 \<leftarrow> wr b0 1 0;
       (b, j, found) \<leftarrow> resolve_loop path (sint length_path) (sint buffer_size) 0 b1 1;
       if \<not> found then Some (b, False)
       else if j > 2 then do {
         l \<leftarrow> rd b (j - 1);
         if l = slash then map_option (\<lambda>b'. (b', True)) (wr b (j - 1) 0) else Some (b, True)
       } else Some (b, True)
     }
   }"

section \<open>The reference on components\<close>

text \<open>The non-empty pieces between the slashes.\<close>

function components :: "u8 list \<Rightarrow> u8 list list" where
  "components s =
     (let r = dropWhile (\<lambda>c. c = slash) s
      in if r = [] then [] else takeWhile (\<lambda>c. c \<noteq> slash) r # components (dropWhile (\<lambda>c. c \<noteq> slash) r))"
  by pat_completeness auto
termination
proof (relation "measure length", goal_cases)
  case (2 s r)
  have "length (dropWhile (\<lambda>c. c \<noteq> slash) r) < length r"
  proof (cases r)
    case (Cons a l)
    have "r \<noteq> []" using Cons by simp
    then have "hd r \<noteq> slash" using hd_dropWhile [of "\<lambda>c. c = slash" s] 2(1) by metis
    then have "a \<noteq> slash" using Cons by simp
    then show ?thesis using Cons length_dropWhile_le [of "\<lambda>c. c \<noteq> slash" l] by simp
  qed (use 2 in simp)
  then show ?case using 2(1) length_dropWhile_le [of "\<lambda>c. c = slash" s] by simp
qed simp

declare components.simps [simp del]

definition dir_text :: "u8 list list \<Rightarrow> u8 list" where
  "dir_text st = slash # concat (map (\<lambda>c. c @ [slash]) st)"

definition path_text :: "u8 list list \<Rightarrow> u8 list" where
  "path_text st = (if st = [] then [slash] else butlast (dir_text st))"

definition parent_mark :: "u8 list \<Rightarrow> bool" where
  "parent_mark c \<longleftrightarrow> take 2 c = [dot, dot]"

definition self_mark :: "u8 list \<Rightarrow> bool" where
  "self_mark c \<longleftrightarrow> take 1 c = [dot]"

fun normalize :: "int \<Rightarrow> u8 list list \<Rightarrow> u8 list list \<Rightarrow> u8 list list option" where
  "normalize cap st [] = Some st"
| "normalize cap st (c # cs) =
     (if parent_mark c then normalize cap (butlast st) cs
      else if self_mark c then normalize cap st cs
      else if int (length (dir_text st) + length c + 2) > cap then None
      else normalize cap (st @ [c]) cs)"
section \<open>Lemmas\<close>

definition plain_component :: "u8 list \<Rightarrow> bool" where
  "plain_component c \<longleftrightarrow> c \<noteq> [] \<and> slash \<notin> set c \<and> 0 \<notin> set c"

lemma dir_text_Nil [simp]: "dir_text [] = [slash]"
  by (simp add: dir_text_def)

lemma dir_text_snoc [simp]: "dir_text (st @ [c]) = dir_text st @ c @ [slash]"
  by (simp add: dir_text_def)

lemma dir_text_ends: "\<exists>t. dir_text st = t @ [slash]"
  by (induction st rule: rev_induct) auto

lemma dir_text_0: "\<forall>c \<in> set st. plain_component c \<Longrightarrow> 0 \<notin> set (dir_text st)"
  by (auto simp: dir_text_def plain_component_def)

lemma length_dir_text: "0 < length (dir_text st)"
  by (simp add: dir_text_def)

lemma length_dir_text_2: "st \<noteq> [] \<Longrightarrow> \<forall>c \<in> set st. plain_component c \<Longrightarrow> 2 < length (dir_text st)"
  by (cases st) (auto simp: dir_text_def plain_component_def Suc_lessI)

lemma components_Nil [simp]: "components [] = []"
  by (subst components.simps) simp

lemma components_slash: "components (slash # s) = components s"
  by (subst (1 2) components.simps) simp

lemma components_drop_slashes: "components (dropWhile (\<lambda>c. c = slash) s) = components s"
  by (induction s) (auto simp: components_slash)

lemma components_token:
  assumes "plain_component c" and "s = [] \<or> hd s = slash"
  shows "components (c @ s) = c # components s"
proof -
  obtain a l where c: "c = a # l" "a \<noteq> slash" using assms(1) by (cases c) (auto simp: plain_component_def)
  have ns: "\<forall>x \<in> set c. x \<noteq> slash" using assms(1) by (auto simp: plain_component_def)
  have d: "dropWhile (\<lambda>c. c = slash) (c @ s) = c @ s" using c by simp
  have "takeWhile (\<lambda>c. c \<noteq> slash) (c @ s) = c" "dropWhile (\<lambda>c. c \<noteq> slash) (c @ s) = s"
    using ns assms(2) by (cases s; simp add: takeWhile_append2 dropWhile_append2)+
  moreover have "c @ s \<noteq> []" using c by simp
  ultimately show ?thesis by (subst components.simps) (simp only: Let_def d if_False)
qed

lemma components_plain: "0 \<notin> set s \<Longrightarrow> \<forall>c \<in> set (components s). plain_component c"
proof (induction s rule: components.induct)
  case (1 s)
  let ?r = "dropWhile (\<lambda>c. c = slash) s"
  show ?case
  proof (cases "?r = []")
    case True
    then show ?thesis by (subst components.simps) simp
  next
    case False
    have z: "0 \<notin> set ?r" using "1.prems" set_dropWhileD [of 0] by auto
    then have zd: "0 \<notin> set (dropWhile (\<lambda>c. c \<noteq> slash) ?r)" by (meson set_dropWhileD)
    have "hd ?r \<noteq> slash" using False by (rule hd_dropWhile)
    then have "plain_component (takeWhile (\<lambda>c. c \<noteq> slash) ?r)"
      using False z by (cases ?r) (auto simp: plain_component_def dest: set_takeWhileD)
    then show ?thesis using "1.IH" [OF refl False zd] False by (subst components.simps) (simp add: Let_def)
  qed
qed

lemma components_dir_text:
  "\<forall>c \<in> set st. plain_component c \<Longrightarrow> components (concat (map (\<lambda>c. c @ [slash]) st)) = st"
proof (induction st)
  case (Cons c st)
  then show ?case using components_token [of c "slash # concat (map (\<lambda>c. c @ [slash]) st)"]
    by (simp add: components_slash)
qed simp

lemma components_Cons:
  assumes "dropWhile (\<lambda>c. c = slash) s = r" and "r \<noteq> []"
  shows "components s = takeWhile (\<lambda>c. c \<noteq> slash) r # components (dropWhile (\<lambda>c. c \<noteq> slash) r)"
  by (subst components.simps) (simp only: Let_def assms if_False)

lemma dropWhile_snoc_slash: "dropWhile (\<lambda>c. c \<noteq> slash) (r @ [slash]) = dropWhile (\<lambda>c. c \<noteq> slash) r @ [slash]"
  by (induction r) auto

lemma takeWhile_snoc_slash: "takeWhile (\<lambda>c. c \<noteq> slash) (r @ [slash]) = takeWhile (\<lambda>c. c \<noteq> slash) r"
  by (induction r) auto

lemma components_append_slash: "components (s @ [slash]) = components s"
proof (induction s rule: components.induct)
  case (1 s)
  let ?r = "dropWhile (\<lambda>c. c = slash) s"
  show ?case
  proof (cases "?r = []")
    case True
    then have "dropWhile (\<lambda>c. c = slash) (s @ [slash]) = []" by (simp add: dropWhile_eq_Nil_conv)
    then show ?thesis using True by (subst (1 2) components.simps) simp
  next
    case False
    have r: "dropWhile (\<lambda>c. c = slash) (s @ [slash]) = ?r @ [slash]"
      using False by (auto simp: dropWhile_eq_Nil_conv dropWhile_append)
    show ?thesis
      unfolding components_Cons [OF refl False]
      by (subst components_Cons [OF r]) (simp_all only: snoc_eq_iff_butlast takeWhile_snoc_slash dropWhile_snoc_slash
          "1.IH" [OF refl False] not_False_eq_True append_is_Nil_conv list.distinct simp_thms)
  qed
qed

lemma path_text_slash: "st \<noteq> [] \<Longrightarrow> path_text st @ [slash] = dir_text st"
  using dir_text_ends [of st] by (auto simp: path_text_def)

lemma components_path_text:
  assumes "\<forall>c \<in> set st. plain_component c"
  shows "components (path_text st) = st"
proof (cases "st = []")
  case False
  have "components (path_text st @ [slash]) = st"
    using components_dir_text [OF assms] path_text_slash [OF False]
    by (simp add: dir_text_def components_slash)
  then show ?thesis by (simp add: components_append_slash)
qed (simp add: path_text_def components_slash)

text \<open>Scanning a C string.\<close>

lemma index_of_cstr:
  "cstr s obj \<Longrightarrow> c \<noteq> 0 \<Longrightarrow> str_first_index_of_loop obj c i =
     Some (if c \<in> set s then i + of_nat (length (takeWhile (\<lambda>x. x \<noteq> c) s)) else - 1)"
proof (induction s arbitrary: obj i)
  case (Cons a s)
  then obtain obj' where obj: "obj = a # obj'" "a \<noteq> 0" "cstr s obj'" by (auto simp: cstr_iff)
  show ?case using Cons.IH [OF obj(3) Cons.prems(2), of "i + 1"] obj by (auto simp: add.assoc)
qed (auto simp: cstr_iff)

lemma sint_of_nat: "n < 2 ^ 31 \<Longrightarrow> sint (of_nat n :: i32) = int n"
  using sint_nonneg [of "of_nat n"] by (simp add: unat_of_nat_small)

lemma unat_of_nat31: "n < 2 ^ 31 \<Longrightarrow> unat (of_nat n :: i32) = n"
  by (simp add: unat_of_nat_small)

lemma token_length_cstr:
  assumes "cstr s current" and "length s < 2 ^ 31"
  shows "token_length current = Some (length (takeWhile (\<lambda>x. x \<noteq> slash) s))"
proof -
  have le: "length (takeWhile (\<lambda>x. x \<noteq> slash) s) < 2 ^ 31" using assms(2) length_takeWhile_le le_less_trans by blast
  show ?thesis
  proof (cases "slash \<in> set s")
    case True
    then show ?thesis using index_of_cstr [OF assms(1), of slash 0] sint_of_nat [OF le] unat_of_nat31 [OF le]
      by (simp add: token_length_def str_first_index_of_def)
  next
    case False
    then have "takeWhile (\<lambda>x. x \<noteq> slash) s = s" by (auto simp: takeWhile_eq_all_conv)
    then show ?thesis
      unfolding token_length_def
      using index_of_cstr [OF assms(1), of slash 0] False strlen_cstr [OF assms(1), of 0] unat_of_nat31 [OF assms(2)]
      by (simp only: str_first_index_of_def strlen_def option.case bind.bind_lunit option.map if_False) simp
  qed
qed

lemma skip_slashes_cstr:
  assumes "cstr s (drop (Suc index) path)"
  shows "skip_slashes path index = Some (Suc index + length (takeWhile (\<lambda>c. c = slash) s))"
  using assms
proof (induction s arbitrary: index)
  case Nil
  then obtain rest where r: "drop (Suc index) path = 0 # rest" by (auto simp: cstr_iff)
  then have "Suc index < length path" by (metis drop_all leI list.distinct(1))
  then have "rd path (Suc index) = Some 0" using nth_via_drop [OF r] by (simp add: rd_def)
  then show ?case by (subst skip_slashes.simps) simp
next
  case (Cons a s)
  then obtain rest where r: "drop (Suc index) path = a # rest" "cstr s rest" by (auto simp: cstr_iff)
  have len: "Suc index < length path" using r(1) by (metis drop_all leI list.distinct(1))
  have "rd path (Suc index) = Some a" "drop (Suc (Suc index)) path = rest"
    using nth_via_drop [OF r(1)] r(1) len by (simp_all add: rd_def drop_Suc tl_drop [symmetric])
  then show ?case using Cons.IH [of "Suc index"] r(2) by (subst skip_slashes.simps) simp
qed
lemma scast_u8_eq: "(scast (a :: u8) - scast b :: i32) = 0 \<longleftrightarrow> a = b"
proof -
  have "sint (scast x :: i32) = sint x" for x :: u8 by (rule sint_up_scast) (simp add: is_up)
  then show ?thesis by (metis right_minus_eq signed_word_eqI)
qed

lemma scast_u8_dot: "(scast (a :: u8) :: i32) = 46 \<longleftrightarrow> a = dot"
  using scast_u8_eq [of a dot] by simp

lemma strncmp_dots:
  assumes "cstr (c @ s) current" and "plain_component c" and "s = [] \<or> hd s = slash"
  shows "\<exists>up. strncmp current [dot, dot, 0] 2 = Some up \<and> (up = 0 \<longleftrightarrow> parent_mark c)"
    and "\<exists>here. strncmp current [dot, 0] 1 = Some here \<and> (here = 0 \<longleftrightarrow> self_mark c)"
proof -
  obtain a c' rest where c: "c = a # c'" "a \<noteq> slash" "current = a # c' @ s @ 0 # rest"
    using assms(1,2) by (cases c) (auto simp: plain_component_def cstr_iff)
  have two: "strncmp current [dot, dot, 0] 2 = strncmp_loop current [dot, dot, 0] (Suc (Suc 0))"
      "strncmp current [dot, 0] 1 = strncmp_loop current [dot, 0] (Suc 0)"
    by (simp_all add: strncmp_def) (simp_all only: numeral_2_eq_2)
  show "\<exists>here. strncmp current [dot, 0] 1 = Some here \<and> (here = 0 \<longleftrightarrow> self_mark c)"
    unfolding two using c(1,3) by (auto simp: self_mark_def scast_u8_dot)
  show "\<exists>up. strncmp current [dot, dot, 0] 2 = Some up \<and> (up = 0 \<longleftrightarrow> parent_mark c)"
  proof (cases c')
    case Nil
    then obtain x r where x: "c' @ s @ 0 # rest = x # r" "x \<noteq> dot"
      using assms(3) by (cases s) auto
    then show ?thesis unfolding two using Nil c(1,3) by (auto simp: parent_mark_def scast_u8_eq scast_u8_dot)
  next
    case (Cons b l)
    then show ?thesis unfolding two using c(1,3) by (auto simp: parent_mark_def scast_u8_eq scast_u8_dot)
  qed
qed

text \<open>The buffer holds the components of a directory, or of a path that ends without a slash.\<close>

definition at_dir :: "u8 list list \<Rightarrow> u8 list \<Rightarrow> nat \<Rightarrow> bool" where
  "at_dir st b j \<longleftrightarrow> (\<forall>c \<in> set st. plain_component c) \<and> j = length (dir_text st) \<and>
     (\<exists>r. b = dir_text st @ 0 # r)"

definition at_end :: "u8 list list \<Rightarrow> u8 list \<Rightarrow> nat \<Rightarrow> bool" where
  "at_end st b j \<longleftrightarrow> at_dir st b j \<or>
     (st \<noteq> [] \<and> (\<forall>c \<in> set st. plain_component c) \<and> j = length (path_text st) \<and> (\<exists>r. b = path_text st @ 0 # r))"

lemma back_up_component:
  "slash \<notin> set c \<Longrightarrow> back_up (pre @ slash # c @ post) (length pre + Suc (length c)) =
     Some (pre @ slash # replicate (length c) 0 @ post, length pre)"
proof (induction c arbitrary: post rule: rev_induct)
  case (snoc a c)
  have w: "(pre @ slash # (c @ [a]) @ post)[length pre + Suc (length c) := 0] = pre @ slash # c @ (0 # post)"
    by (simp add: list_update_append)
  have n: "(pre @ slash # (c @ [a]) @ post) ! (length pre + Suc (length c)) = a"
    by (simp add: nth_append)
  have r: "replicate (length (c @ [a])) 0 @ post = replicate (length c) 0 @ 0 # post"
    by (simp add: replicate_append_same [symmetric])
  have s: "length pre + Suc (length (c @ [a])) = Suc (length pre + Suc (length c))" by simp
  have "back_up (pre @ slash # (c @ [a]) @ post) (Suc (length pre + Suc (length c))) =
      back_up (pre @ slash # c @ (0 # post)) (length pre + Suc (length c))"
    using snoc.prems n w by (simp add: rd_def wr_def)
  then show ?case unfolding s r using snoc.IH [of "0 # post"] snoc.prems by simp
qed (simp add: rd_def)

lemma back_up_dir:
  assumes "at_dir st b j"
  shows "\<exists>b' j'. back_up b (j - 1) = Some (b', j') \<and> at_dir (butlast st) b' (j' + 1) \<and> length b' = length b"
proof (cases st rule: rev_cases)
  case Nil
  then show ?thesis using assms by (auto simp: at_dir_def)
next
  case (snoc st' c)
  obtain pre where pre: "dir_text st' = pre @ [slash]" using dir_text_ends by blast
  obtain r where r: "b = dir_text st @ 0 # r" "j = length (dir_text st)" using assms by (auto simp: at_dir_def)
  have c: "c \<noteq> []" "slash \<notin> set c" using assms snoc by (auto simp: at_dir_def plain_component_def)
  have b: "b = pre @ slash # c @ (slash # 0 # r)" "j - 1 = length pre + Suc (length c)"
    using r snoc pre by simp_all
  obtain n where n: "length c = Suc n" using c(1) by (cases c) auto
  have "back_up b (j - 1) = Some (pre @ slash # replicate (length c) 0 @ (slash # 0 # r), length pre)"
    unfolding b by (rule back_up_component [OF c(2)])
  moreover have "at_dir st' (pre @ slash # replicate (length c) 0 @ (slash # 0 # r)) (length pre + 1)"
    using assms snoc pre n by (auto simp: at_dir_def)
  ultimately show ?thesis using snoc b(1) by auto
qed

lemma strncpy_prefix:
  assumes "cstr (c @ s) current" and "length c \<le> length dest" and "length c < 2 ^ 31"
  shows "strncpy dest current (of_nat (length c)) = Some (c @ drop (length c) dest)"
proof -
  have "map (pad_nth (c @ s)) [0..<length c] = c"
    by (rule nth_equalityI) (auto simp: pad_nth_def nth_append)
  then show ?thesis
    using strncpy_loop_cstr [OF assms(1), of 0 "length c" dest] assms(2) unat_of_nat31 [OF assms(3)]
    by (simp add: strncpy_def)
qed

lemma put_token_ok:
  assumes d: "at_dir st b j" and c: "plain_component c" and cur: "cstr (c @ s) current" and s: "s = [] \<or> hd s = slash"
    and fit: "j + length c + 2 \<le> length b" and small: "length c < 2 ^ 31"
  shows "\<exists>b' j'. put_token b j current (length c) = Some (b', j') \<and> length b' = length b \<and>
    (if s = [] then at_end (st @ [c]) b' j' else at_dir (st @ [c]) b' j')"
proof -
  obtain r where r: "b = dir_text st @ 0 # r" "j = length (dir_text st)" using d by (auto simp: at_dir_def)
  have p: "\<forall>x \<in> set (st @ [c]). plain_component x" using d c by (auto simp: at_dir_def)
  obtain x y q where q: "drop (length c) (0 # r) = x # y # q"
  proof -
    have "length c + 2 \<le> length (0 # r)" using fit r by simp
    then have "2 \<le> length (drop (length c) (0 # r))" by simp
    then show ?thesis using that by (cases "drop (length c) (0 # r)" rule: list.exhaust; cases "tl (drop (length c) (0 # r))") auto
  qed
  have cp: "strncpy (drop j b) current (of_nat (length c)) = Some (c @ x # y # q)"
    using strncpy_prefix [OF cur _ small, of "0 # r"] fit r q by simp
  have tk: "take j b = dir_text st" using r by simp
  have len: "length b = length (dir_text st @ c @ x # y # q)"
    using r(1) arg_cong [OF q, of length] fit r(2) by simp
  show ?thesis
  proof (cases "s = []")
    case True
    have "rd current (length c) = Some 0" using cur True by (auto simp: cstr_iff rd_def)
    then have "put_token b j current (length c) = Some (dir_text st @ c @ 0 # y # q, length (dir_text st @ c))"
      using cp tk r(2) by (simp add: put_token_def wr_def list_update_append)
    moreover have "at_end (st @ [c]) (dir_text st @ c @ 0 # y # q) (length (dir_text st @ c))"
      using p by (auto simp: at_end_def path_text_def butlast_append)
    ultimately show ?thesis using True len by auto
  next
    case False
    have "rd current (length c) = Some slash" using cur s False
      by (cases s) (auto simp: cstr_iff rd_def)
    then have "put_token b j current (length c) = Some (dir_text st @ c @ slash # 0 # q, length (dir_text st @ c @ [slash]))"
      using cp tk r(2) by (simp add: put_token_def wr_def list_update_append)
    moreover have "at_dir (st @ [c]) (dir_text st @ c @ slash # 0 # q) (length (dir_text st @ c @ [slash]))"
      using p by (auto simp: at_dir_def)
    ultimately show ?thesis using False len by auto
  qed
qed
lemma drop_cstr: "cstr (x @ y) obj \<Longrightarrow> cstr y (drop (length x) obj)"
  by (auto simp: cstr_iff)

lemma resolve_loop_stop:
  "\<not> int index < n - 1 \<Longrightarrow> resolve_loop path n cap index b j = Some (b, j, True)"
  by (subst resolve_loop.simps) simp

lemma resolve_loop_step:
  assumes "int index < n - 1" and "skip_slashes path index = Some i" and "token_length (drop i path) = Some (length c)"
    and "c \<noteq> []" and "strncmp (drop i path) [dot, dot, 0] 2 = Some up" and "up = 0 \<longleftrightarrow> parent_mark c"
    and "strncmp (drop i path) [dot, 0] 1 = Some here" and "here = 0 \<longleftrightarrow> self_mark c"
  shows "resolve_loop path n cap index b j =
     (if parent_mark c then do { (b', j') \<leftarrow> back_up b (j - 1); resolve_loop path n cap (i + length c) b' (j' + 1) }
      else if self_mark c then resolve_loop path n cap (i + length c) b j
      else if int (j + length c + 2) > cap then Some (b, j, False)
      else do { (b', j') \<leftarrow> put_token b j (drop i path) (length c); resolve_loop path n cap (i + length c) b' j' })"
  using assms by (subst resolve_loop.simps) simp

definition resolved :: "u8 list list option \<Rightarrow> nat \<Rightarrow> (u8 list \<times> nat \<times> bool) option \<Rightarrow> bool" where
  "resolved norm len m \<longleftrightarrow> ok m (\<lambda>(b, j, f). length b = len \<and>
     (case norm of None \<Rightarrow> \<not> f | Some st \<Rightarrow> f \<and> at_end st b j))"

lemma at_next:
  "s = [] \<or> hd s = slash \<Longrightarrow> at_dir st b j \<Longrightarrow> if s = [] then at_end st b j else hd s = slash \<and> at_dir st b j"
  by (auto simp: at_end_def)

lemma at_next_if:
  assumes "s = [] \<or> hd s = slash" and "if s = [] then at_end st b j else at_dir st b j"
  shows "if s = [] then at_end st b j else hd s = slash \<and> at_dir st b j"
  using assms by (cases "s = []") simp_all

lemma resolve_loop_ok:
  assumes "cstr s (drop index path)" and "n = int (index + length s)" and "n < 2 ^ 31"
    and "cap \<le> int (length b)" and "if s = [] then at_end st b j else hd s = slash \<and> at_dir st b j"
  shows "resolved (normalize cap st (components s)) (length b) (resolve_loop path n cap index b j)"
  using assms
proof (induction "length s" arbitrary: s index b j st rule: less_induct)
  case less
  show ?case
  proof (cases "s = [] \<or> tl s = []")
    case True
    then have "components s = []" using less.prems(5) by (cases s) (auto simp: components_slash)
    moreover have "\<not> int index < n - 1" using True less.prems(2) by (cases s) auto
    ultimately show ?thesis using less.prems(5)
      by (auto simp: resolved_def resolve_loop_stop at_end_def split: if_splits)
  next
    case False
    obtain r where r: "s = slash # r" "r \<noteq> []" using False less.prems(5) by (cases s) auto
    have d: "at_dir st b j" using less.prems(5) r by simp
    have len: "index < length path" using less.prems(1) by (metis cstr_len drop_all leI length_0_conv less_nat_zero_code list.size(3))
    have cr: "cstr r (drop (Suc index) path)"
      using less.prems(1) r(1) len by (auto simp: cstr_Cons Cons_nth_drop_Suc [symmetric])
    let ?t = "dropWhile (\<lambda>c. c = slash) r"
    let ?i = "Suc index + length (takeWhile (\<lambda>c. c = slash) r)"
    have go: "int index < n - 1" using less.prems(2) r by (cases r) auto
    have sk: "skip_slashes path index = Some ?i" by (rule skip_slashes_cstr [OF cr])
    have split: "r = takeWhile (\<lambda>c. c = slash) r @ ?t" by simp
    have ct: "cstr ?t (drop ?i path)"
      using drop_cstr [of "takeWhile (\<lambda>c. c = slash) r" ?t "drop (Suc index) path"] cr by (simp add: add.commute)
    have lens: "length r = length (takeWhile (\<lambda>c. c = slash) r) + length ?t"
      by (subst (1) split) (simp only: length_append)
    have comp: "components s = components ?t" using r(1) by (simp add: components_slash components_drop_slashes)
    show ?thesis
    proof (cases "?t = []")
      case True
      then have t0: "token_length (drop ?i path) = Some 0"
        using token_length_cstr [OF ct, unfolded True] by simp
      have "length ?t = 0" by (simp only: True list.size)
      then have stop: "\<not> int ?i < n - 1" using lens less.prems(2) r(1) by (simp del: length_0_conv dropWhile_eq_Nil_conv)
      have "resolve_loop path n cap index b j = Some (b, j, True)"
        using go sk t0 resolve_loop_stop [OF stop] by (subst resolve_loop.simps) simp
      then show ?thesis using d comp True by (simp add: resolved_def at_end_def)
    next
      case tne: False
      let ?c = "takeWhile (\<lambda>c. c \<noteq> slash) ?t" and ?s = "dropWhile (\<lambda>c. c \<noteq> slash) ?t"
      have cs: "?c @ ?s = ?t" by simp
      have hd: "hd ?t \<noteq> slash" using tne by (rule hd_dropWhile)
      have c: "plain_component ?c" using tne hd ct
        by (cases ?t) (auto simp: plain_component_def cstr_iff dest: set_takeWhileD)
      have s: "?s = [] \<or> hd ?s = slash" using hd_dropWhile [of "\<lambda>c. c \<noteq> slash" ?t] by auto
      have cst: "cstr (?c @ ?s) (drop ?i path)" using ct by simp
      have lt: "length ?t = length ?c + length ?s" by (subst cs [symmetric]) (rule length_append)
      have small: "length ?t < 2 ^ 31" using less.prems(2,3) lens r(1) by simp
      have smallc: "length ?c < 2 ^ 31" using small lt by simp
      have tl: "token_length (drop ?i path) = Some (length ?c)" using token_length_cstr [OF ct small] .
      have cn: "?c \<noteq> []" using c by (simp add: plain_component_def)
      obtain up where up: "strncmp (drop ?i path) [dot, dot, 0] 2 = Some up" "up = 0 \<longleftrightarrow> parent_mark ?c"
        using strncmp_dots(1) [OF cst c s] by blast
      obtain here where here: "strncmp (drop ?i path) [dot, 0] 1 = Some here" "here = 0 \<longleftrightarrow> self_mark ?c"
        using strncmp_dots(2) [OF cst c s] by blast
      note step = resolve_loop_step [OF go sk tl cn up here, of cap b j]
      have comps: "components s = ?c # components ?s" using comp components_token [OF c s] cs by simp
      have nx: "cstr ?s (drop (?i + length ?c) path)"
        using drop_cstr [OF cst] by (simp add: add.commute add.left_commute)
      have shorter: "length ?s < length s" using lens lt r(1) by simp
      have n: "n = int (?i + length ?c + length ?s)" using less.prems(2) lens lt r(1) by simp
      note IH = less.hyps [OF shorter nx n less.prems(3)]
      show ?thesis
      proof (cases "parent_mark ?c")
        case True
        obtain b' j' where b': "back_up b (j - 1) = Some (b', j')" "at_dir (butlast st) b' (j' + 1)" "length b' = length b"
          using back_up_dir [OF d] by blast
        have "resolved (normalize cap (butlast st) (components ?s)) (length b)
            (resolve_loop path n cap (?i + length ?c) b' (j' + 1))"
          using IH [OF _ at_next [OF s b'(2)]] b'(3) less.prems(4) by simp
        then show ?thesis using step True b'(1) comps by simp
      next
        case np: False
        show ?thesis
        proof (cases "self_mark ?c")
          case True
          then show ?thesis using step np comps IH [OF less.prems(4) at_next [OF s d]] by simp
        next
          case ns: False
          have jd: "j = length (dir_text st)" using d by (simp add: at_dir_def)
          show ?thesis
          proof (cases "int (j + length ?c + 2) > cap")
            case True
            then show ?thesis using step np ns comps jd by (simp add: resolved_def)
          next
            case fits: False
            obtain b' j' where b': "put_token b j (drop ?i path) (length ?c) = Some (b', j')" "length b' = length b"
                "if ?s = [] then at_end (st @ [?c]) b' j' else at_dir (st @ [?c]) b' j'"
              using put_token_ok [OF d c cst s _ smallc] fits less.prems(4) by auto
            have nxt: "if ?s = [] then at_end (st @ [?c]) b' j' else hd ?s = slash \<and> at_dir (st @ [?c]) b' j'"
              by (rule at_next_if [OF s b'(3)])
            have "resolved (normalize cap (st @ [?c]) (components ?s)) (length b)
                (resolve_loop path n cap (?i + length ?c) b' j')"
              using IH [OF _ nxt] b'(2) less.prems(4) by simp
            then show ?thesis using step np ns fits comps b'(1) jd by simp
          qed
        qed
      qed
    qed
  qed
qed
text \<open>What the last test does with the slash at the end.\<close>

lemma at_end_close:
  assumes e: "at_end st b j"
  shows "if 2 < j \<and> b ! (j - 1) = slash then cstr (path_text st) (b[j - 1 := 0]) else cstr (path_text st) b"
    and "j < length b"
proof -
  have plain: "\<forall>c \<in> set st. plain_component c" using e by (auto simp: at_end_def at_dir_def)
  have z: "0 \<notin> set (path_text st)"
    using dir_text_0 [OF plain] by (auto simp: path_text_def dest: in_set_butlastD)
  show "j < length b" using e by (auto simp: at_end_def at_dir_def)
  show "if 2 < j \<and> b ! (j - 1) = slash then cstr (path_text st) (b[j - 1 := 0]) else cstr (path_text st) b"
  proof (cases "at_dir st b j")
    case True
    then obtain r where r: "b = dir_text st @ 0 # r" "j = length (dir_text st)" by (auto simp: at_dir_def)
    show ?thesis
    proof (cases "st = []")
      case True
      then show ?thesis using r by (simp add: path_text_def cstr_iff)
    next
      case False
      have d: "dir_text st = path_text st @ [slash]" using path_text_slash [OF False] by simp
      then have b: "b = path_text st @ slash # 0 # r" "j - 1 = length (path_text st)" using r by simp_all
      have "2 < j" using length_dir_text_2 [OF False plain] r(2) by simp
      then show ?thesis using z unfolding b by (auto simp: cstr_iff list_update_append)
    qed
  next
    case False
    then obtain r where r: "st \<noteq> []" "b = path_text st @ 0 # r" "j = length (path_text st)"
      using e by (auto simp: at_end_def)
    obtain st' c where st: "st = st' @ [c]" using r(1) by (cases st rule: rev_cases) auto
    have p: "path_text st = dir_text st' @ c" using st by (simp add: path_text_def butlast_append)
    have c: "c \<noteq> []" "slash \<notin> set c" using plain st by (auto simp: plain_component_def)
    have j: "j - 1 = length (dir_text st') + (length c - 1)" using r(3) p c(1) by (cases c) simp_all
    have "b ! (j - 1) = last c" unfolding j using r(2) p c(1) by (simp add: nth_append last_conv_nth)
    then have "b ! (j - 1) \<noteq> slash" using c last_in_set [of c] by metis
    then show ?thesis using r(2) z by (auto simp: cstr_iff)
  qed
qed

lemma fs_resolve_path_ok:
  assumes p: "cstr (slash # p) path" "length p < 2 ^ 31 - 1" and b: "2 \<le> sint sz" "sint sz \<le> int (length buffer)"
  shows "ok (fs_resolve_path path buffer sz) (\<lambda>(b, f). length b = length buffer \<and>
    (case normalize (sint sz) [] (components (slash # p)) of None \<Rightarrow> \<not> f | Some st \<Rightarrow> f \<and> cstr (path_text st) b))"
proof -
  let ?s = "slash # p" and ?n = "int (length (slash # p))"
  obtain x y r where buf: "buffer = x # y # r" using b by (cases buffer; cases "tl buffer") auto
  have l31: "length ?s < 2 ^ 31" using p(2) by simp
  have start: "wr buffer 0 slash = Some (slash # y # r)" "wr (slash # y # r) 1 0 = Some (slash # 0 # r)"
    by (simp_all add: buf wr_def)
  have c0: "rd path 0 = Some slash" using p(1) by (auto simp: cstr_iff rd_def)
  have len: "strlen (Some path) = Some (of_nat (length ?s))" using strlen_cstr [OF p(1), of 0] by (simp add: strlen_def)
  have n: "sint (of_nat (length ?s) :: i32) = ?n" by (rule sint_of_nat [OF l31])
  have "resolved (normalize (sint sz) [] (components ?s)) (length (slash # 0 # r))
      (resolve_loop path ?n (sint sz) 0 (slash # 0 # r) 1)"
    by (rule resolve_loop_ok) (use p b(2) buf l31 in \<open>auto simp: at_dir_def\<close>)
  then obtain b' j f where r: "resolve_loop path ?n (sint sz) 0 (slash # 0 # r) 1 = Some (b', j, f)"
      "length b' = length buffer"
      "case normalize (sint sz) [] (components ?s) of None \<Rightarrow> \<not> f | Some st \<Rightarrow> f \<and> at_end st b' j"
    by (auto simp: resolved_def ok_iff buf)
  have run: "fs_resolve_path path buffer sz =
      (if \<not> f then Some (b', False)
       else if j > 2 then do {
         l \<leftarrow> rd b' (j - 1);
         if l = slash then map_option (\<lambda>b'. (b', True)) (wr b' (j - 1) 0) else Some (b', True)
       } else Some (b', True))"
    unfolding fs_resolve_path_def len c0 bind.bind_lunit start n r(1) using b(1) by (simp add: start r(1) n)
  show ?thesis
  proof (cases "normalize (sint sz) [] (components ?s)")
    case None
    then show ?thesis using run r(2,3) by simp
  next
    case (Some st)
    then have f: "f" and e: "at_end st b' j" using r(3) by auto
    show ?thesis using run f at_end_close [OF e] r(2) Some
      by (auto simp: rd_def wr_def split: if_splits)
  qed
qed

section \<open>Properties\<close>

text \<open>
  C12: \<^verbatim>\<open>fs_resolve_path\<close> returns on every absolute path, stays inside the buffer and writes the normalised
  path: repeated slashes and components that begin with a dot disappear, a component that begins
  with two dots removes the one before it, and the path is refused exactly when a component does
  not fit any more.
\<close>

theorem fs_resolve_path_correct:
  assumes "cstr (slash # p) path" and "length p < 2 ^ 31 - 1" and "2 \<le> sint sz" and "sint sz \<le> int (length buffer)"
  shows "\<exists>b f. fs_resolve_path path buffer sz = Some (b, f) \<and> length b = length buffer \<and>
    (case normalize (sint sz) [] (components (slash # p)) of
       None \<Rightarrow> \<not> f
     | Some st \<Rightarrow> f \<and> cstr (path_text st) b)"
  using fs_resolve_path_ok [OF assms] by (auto simp: ok_iff)

text \<open>The path \<^verbatim>\<open>/a//../b/\<close> becomes \<^verbatim>\<open>/b\<close>.\<close>

lemma components_example: "components [47, 97, 47, 47, 46, 46, 47, 98, 47] = [[97], [46, 46], [98]]"
proof -
  have d: "dropWhile P (x # xs) = (if P x then dropWhile P xs else x # xs)"
      "takeWhile P (x # xs) = (if P x then x # takeWhile P xs else [])" for P x and xs :: "u8 list"
    by simp_all
  show ?thesis
    by (subst components.simps, simp add: Let_def, subst components.simps, simp add: Let_def,
        subst components.simps, simp add: Let_def, subst components.simps, simp add: Let_def)
qed

theorem fs_resolve_path_correct_witness:
  "\<exists>b. fs_resolve_path [47, 97, 47, 47, 46, 46, 47, 98, 47, 0] (replicate 16 0) 16 = Some (b, True) \<and> cstr [47, 98] b"
proof -
  have p: "cstr [47, 97, 47, 47, 46, 46, 47, 98, 47] [47, 97, 47, 47, 46, 46, 47, 98, 47, 0]" by (simp add: cstr_def)
  from fs_resolve_path_correct [OF p, of 16 "replicate 16 0"] show ?thesis
    by (auto simp: components_example parent_mark_def self_mark_def path_text_def dir_text_def)
qed

lemma normalize_plain:
  assumes "normalize cap st cs = Some st'" and "\<forall>c \<in> set (st @ cs). plain_component c"
    and "\<forall>c \<in> set st. \<not> self_mark c" and "normalize cap [] st = Some st"
  shows "normalize cap [] st' = Some st' \<and> (\<forall>c \<in> set st'. plain_component c \<and> \<not> self_mark c)"
  using assms
proof (induction cap st cs rule: normalize.induct)
  case (1 cap st)
  then show ?case by simp
next
  case (2 cap st c cs)
  have pm: "parent_mark c \<Longrightarrow> self_mark c" for c
    by (cases c) (auto simp: parent_mark_def self_mark_def)
  have app: "normalize cap s (xs @ ys) = Option.bind (normalize cap s xs) (\<lambda>s'. normalize cap s' ys)" for s xs ys
    by (induction cap s xs rule: normalize.induct) auto
  show ?case
  proof (cases "parent_mark c")
    case True
    have last: "normalize cap [] (butlast st) = Some (butlast st)"
    proof (cases st rule: rev_cases)
      case (snoc a l)
      have l: "\<not> self_mark l" "\<not> parent_mark l" using "2.prems"(3) snoc pm by auto
      show ?thesis
      proof (cases "normalize cap [] a")
        case None
        then show ?thesis using "2.prems"(4) snoc app by simp
      next
        case (Some a')
        then have "normalize cap a' [l] = Some (a @ [l])" using "2.prems"(4) snoc app by simp
        then have "a' = a" using l by (auto split: if_splits)
        then show ?thesis using Some snoc by simp
      qed
    qed simp
    show ?thesis using "2.IH"(1) [OF True] "2.prems" True last by (auto dest: in_set_butlastD)
  next
    case np: False
    show ?thesis
    proof (cases "self_mark c")
      case True
      then show ?thesis using "2.IH"(2) [OF np True] "2.prems" np by auto
    next
      case ns: False
      have fit: "\<not> int (length (dir_text st) + length c + 2) > cap" using "2.prems"(1) np ns by auto
      have "normalize cap [] (st @ [c]) = Some (st @ [c])" using app "2.prems"(4) np ns fit by simp
      then show ?thesis using "2.IH"(3) [OF np ns fit] "2.prems" np ns fit by auto
    qed
  qed
qed

lemma path_text_hd: "\<exists>t. path_text st = slash # t"
  by (cases st) (auto simp: path_text_def dir_text_def)

text \<open>
  Resolving a path a second time changes nothing: the text that \<^verbatim>\<open>fs_resolve_path\<close> produced is
  accepted in a buffer of the same size and reproduced.
\<close>

theorem fs_resolve_path_idempotent:
  assumes "cstr (slash # p) path" and "length p < 2 ^ 31 - 1" and "2 \<le> sint sz" and "sint sz \<le> int (length buffer)"
    and "fs_resolve_path path buffer sz = Some (b, True)" and "length b < 2 ^ 31" and "sint sz \<le> int (length buffer2)"
  shows "\<exists>t' b2. cstr t' b \<and> fs_resolve_path b buffer2 sz = Some (b2, True) \<and> cstr t' b2"
proof -
  obtain st where st: "normalize (sint sz) [] (components (slash # p)) = Some st" "cstr (path_text st) b"
    using fs_resolve_path_ok [OF assms(1-4)] assms(5) by (auto split: option.splits)
  have "\<forall>c \<in> set (components (slash # p)). plain_component c"
    by (rule components_plain) (use assms(1) in \<open>simp add: cstr_iff\<close>)
  then have n: "normalize (sint sz) [] st = Some st" "\<forall>c \<in> set st. plain_component c"
    using normalize_plain [OF st(1)] by auto
  obtain t where t: "path_text st = slash # t" using path_text_hd by blast
  have "length t < 2 ^ 31 - 1" using cstr_len [OF st(2)] t assms(6) by simp
  from fs_resolve_path_ok [OF st(2) [unfolded t] this assms(3,7)]
  obtain b2 where "fs_resolve_path b buffer2 sz = Some (b2, True)" "cstr (path_text st) b2"
    using n(1) components_path_text [OF n(2)] t by (auto simp: ok_iff)
  then show ?thesis using st(2) by blast
qed
theorem fs_resolve_path_idempotent_witness:
  "\<exists>b t' b2. fs_resolve_path [47, 97, 47, 47, 46, 46, 47, 98, 47, 0] (replicate 16 0) 16 = Some (b, True) \<and>
     cstr t' b \<and> fs_resolve_path b (replicate 16 1) 16 = Some (b2, True) \<and> cstr t' b2"
proof -
  have p: "cstr (slash # [97, 47, 47, 46, 46, 47, 98, 47]) [47, 97, 47, 47, 46, 46, 47, 98, 47, 0]" by (simp add: cstr_def)
  from fs_resolve_path_ok [OF p, of 16 "replicate 16 0"]
  obtain b' where b': "fs_resolve_path [47, 97, 47, 47, 46, 46, 47, 98, 47, 0] (replicate 16 0) 16 = Some (b', True)" "length b' = 16"
    by (auto simp: components_example parent_mark_def self_mark_def path_text_def dir_text_def ok_iff)
  from fs_resolve_path_idempotent [OF p _ _ _ b'(1), of "replicate 16 1"] b'(2)
  obtain t' b2 where "cstr t' b'" "fs_resolve_path b' (replicate 16 1) 16 = Some (b2, True)" "cstr t' b2" by auto
  then show ?thesis using b'(1) by blast
qed

text \<open>
  A name that begins with a dot cannot be reached: the last component of a path is dropped when it
  begins with one dot, so the path names the directory, and removes the directory too when it
  begins with two, although only \<^verbatim>\<open>.\<close> and \<^verbatim>\<open>..\<close> themselves have these meanings.
\<close>

theorem fs_resolve_path_dot_names:
  assumes "plain_component d" and "\<not> self_mark d" and "plain_component c" and "self_mark c"
    and "cstr (slash # d @ slash # c) path" and "length (d @ c) < 2 ^ 31 - 2"
    and "int (length d) + 3 \<le> sint sz" and "sint sz \<le> int (length buffer)"
  shows "\<exists>b. fs_resolve_path path buffer sz = Some (b, True) \<and> cstr (if parent_mark c then [slash] else slash # d) b"
proof -
  have "components (slash # d @ slash # c) = [d, c]"
    using components_token [OF assms(1), of "slash # c"] components_token [OF assms(3), of "[]"]
    by (simp add: components_slash)
  moreover have "\<not> parent_mark d" using assms(2) by (cases d) (auto simp: parent_mark_def self_mark_def)
  ultimately have n: "normalize (sint sz) [] (components (slash # d @ slash # c)) =
      Some (if parent_mark c then [] else [d])"
    using assms(2,4,7) by simp
  have "length (d @ slash # c) < 2 ^ 31 - 1" "2 \<le> sint sz" using assms(6,7) by simp_all
  from fs_resolve_path_ok [OF assms(5) this assms(8)] show ?thesis
    by (auto simp: n ok_iff path_text_def dir_text_def)
qed

text \<open>\<^verbatim>\<open>/b/.c\<close> names \<^verbatim>\<open>/b\<close>.\<close>

theorem fs_resolve_path_dot_names_witness:
  "\<exists>b. fs_resolve_path [47, 98, 47, 46, 99, 0] (replicate 8 0) 8 = Some (b, True) \<and> cstr [47, 98] b"
proof -
  have "cstr (slash # [98] @ slash # [46, 99]) [47, 98, 47, 46, 99, 0]" by (simp add: cstr_def)
  from fs_resolve_path_dot_names [OF _ _ _ _ this, of 8 "replicate 8 0"] show ?thesis
    by (simp add: plain_component_def self_mark_def parent_mark_def)
qed

end
