(* ===== verification/Vfs.thy ===== *)
theory Vfs
  imports PathName Spinlock Process
begin

text \<open>
  The file tree: \<^verbatim>\<open>kernel/rootfs.c\<close>, \<^verbatim>\<open>kernel/devfs.c\<close> and the part of \<^verbatim>\<open>kernel/fs.c\<close> that walks it.
  Nodes live in a store indexed by address. A function pointer of a node is a value of \<open>fs_fn\<close>: the
  null pointer, the function of that kind of \<^verbatim>\<open>rootfs.c\<close> or \<^verbatim>\<open>devfs.c\<close>, or the code address of another
  function; the argument \<open>D\<close> says what those other functions do to the state. The address that
  \<^verbatim>\<open>kmalloc\<close> returns for a new node is an argument. Local arrays are taken to be zero at first; no
  result depends on it.
\<close>

section \<open>State\<close>

datatype fs_fn = Fn_null | Fn_rootfs | Fn_devfs | Fn_driver ptr

definition FT_FILE :: u32 where "FT_FILE = 1"
definition FT_CHARACTER_DEVICE :: u32 where "FT_CHARACTER_DEVICE = 2"
definition FT_BLOCK_DEVICE :: u32 where "FT_BLOCK_DEVICE = 3"
definition FT_PIPE :: u32 where "FT_PIPE = 4"
definition FT_SYMBOLIC_LINK :: u32 where "FT_SYMBOLIC_LINK = 5"
definition FT_SOCKET :: u32 where "FT_SOCKET = 6"
definition FT_DIRECTORY :: u32 where "FT_DIRECTORY = 128"
definition FT_MOUNT_POINT :: u32 where "FT_MOUNT_POINT = 256"

record filesystem_node =
  nd_name :: "u8 list"
  nd_mask :: u32
  nd_user_id :: u32
  nd_group_id :: u32
  node_type :: u32
  nd_inode :: u32
  nd_length :: u32
  nd_read_block :: fs_fn
  nd_write_block :: fs_fn
  nd_read :: fs_fn
  nd_write :: fs_fn
  nd_read_test_ready :: fs_fn
  nd_write_test_ready :: fs_fn
  nd_open :: fs_fn
  nd_close :: fs_fn
  nd_unlink :: fs_fn
  nd_ioctl :: fs_fn
  nd_lseek :: fs_fn
  nd_ftruncate :: fs_fn
  nd_stat :: fs_fn
  nd_readdir :: fs_fn
  nd_finddir :: fs_fn
  nd_mkdir :: fs_fn
  nd_mmap :: fs_fn
  nd_munmap :: fs_fn
  first_child :: ptr
  next_sibling :: ptr
  nd_parent :: ptr
  mount_point :: ptr
  mount_source :: ptr
  private_node_data :: ptr

record filesystem_dirent =
  de_name :: "u8 list"
  de_file_type :: u32
  de_inode :: u32

record FileSystem =
  fsys_name :: "u8 list"
  fsys_check_mount :: ptr
  fsys_mount :: ptr

record fs_state =
  fs_nodes :: "ptr \<Rightarrow> filesystem_node option"
  g_fs_root :: ptr
  g_dev_root :: ptr
  g_device_list :: "ptr list"
  g_device_list_lock :: Spinlock
  g_dirent :: filesystem_dirent
  g_registered_filesystems :: "FileSystem list"
  g_next_filesystem_index :: nat

text \<open>The fields of \<^verbatim>\<open>struct stat\<close> that the kernel sets.\<close>

record stat_t =
  st_mode :: u32
  st_size :: u32

text \<open>The functions of other file systems and of drivers, by code address.\<close>

record fs_drivers =
  drv_readdir :: "ptr \<Rightarrow> fs_state \<Rightarrow> ptr \<Rightarrow> u32 \<Rightarrow> (fs_state \<times> filesystem_dirent option) option"
  drv_finddir :: "ptr \<Rightarrow> fs_state \<Rightarrow> ptr \<Rightarrow> u8 list \<Rightarrow> (fs_state \<times> ptr) option"
  drv_mkdir :: "ptr \<Rightarrow> fs_state \<Rightarrow> ptr \<Rightarrow> u8 list \<Rightarrow> u32 \<Rightarrow> (fs_state \<times> bool) option"
  drv_mount :: "ptr \<Rightarrow> fs_state \<Rightarrow> u8 list \<Rightarrow> u8 list \<Rightarrow> u32 \<Rightarrow> ptr \<Rightarrow> (fs_state \<times> bool) option"
  drv_stat :: "ptr \<Rightarrow> fs_state \<Rightarrow> ptr \<Rightarrow> stat_t \<Rightarrow> stat_t \<times> i32"

definition FILESYSTEM_CAPACITY :: nat where "FILESYSTEM_CAPACITY = 10"

text \<open>\<^verbatim>\<open>memset\<close> of a new node.\<close>

definition zero_node :: filesystem_node where
  "zero_node = \<lparr>nd_name = replicate 128 0, nd_mask = 0, nd_user_id = 0, nd_group_id = 0, node_type = 0,
     nd_inode = 0, nd_length = 0, nd_read_block = Fn_null, nd_write_block = Fn_null, nd_read = Fn_null,
     nd_write = Fn_null, nd_read_test_ready = Fn_null, nd_write_test_ready = Fn_null, nd_open = Fn_null,
     nd_close = Fn_null, nd_unlink = Fn_null, nd_ioctl = Fn_null, nd_lseek = Fn_null, nd_ftruncate = Fn_null,
     nd_stat = Fn_null, nd_readdir = Fn_null, nd_finddir = Fn_null, nd_mkdir = Fn_null, nd_mmap = Fn_null,
     nd_munmap = Fn_null, first_child = 0, next_sibling = 0, nd_parent = 0, mount_point = 0, mount_source = 0,
     private_node_data = 0\<rparr>"

text \<open>A dereference: the null pointer is a fault.\<close>

definition nd :: "fs_state \<Rightarrow> ptr \<Rightarrow> filesystem_node option" where
  "nd s a = (if a = 0 then None else fs_nodes s a)"

definition put_nd :: "fs_state \<Rightarrow> ptr \<Rightarrow> filesystem_node \<Rightarrow> fs_state" where
  "put_nd s a n = s\<lparr>fs_nodes := (fs_nodes s)(a \<mapsto> n)\<rparr>"

text \<open>\<^verbatim>\<open>(type & flag) == flag\<close>\<close>

definition has_type :: "filesystem_node \<Rightarrow> u32 \<Rightarrow> bool" where
  "has_type n flag \<longleftrightarrow> node_type n AND flag = flag"

section \<open>The root file system\<close>

definition rootfs_directory :: filesystem_node where
  "rootfs_directory = zero_node\<lparr>node_type := FT_DIRECTORY, nd_open := Fn_rootfs, nd_close := Fn_rootfs,
     nd_readdir := Fn_rootfs, nd_finddir := Fn_rootfs, nd_mkdir := Fn_rootfs\<rparr>"

definition rootfs_initialize :: "fs_state \<Rightarrow> ptr \<Rightarrow> fs_state \<times> ptr" where
  "rootfs_initialize s root = (put_nd s root rootfs_directory, root)"

partial_function (option) sibling_at :: "fs_state \<Rightarrow> ptr \<Rightarrow> u32 \<Rightarrow> u32 \<Rightarrow> ptr option" where
  "sibling_at s n i index =
     (if n = 0 then Some 0
      else do { d \<leftarrow> nd s n; if index = i then Some n else sibling_at s (next_sibling d) (i + 1) index })"

definition rootfs_readdir :: "fs_state \<Rightarrow> ptr \<Rightarrow> u32 \<Rightarrow> (fs_state \<times> filesystem_dirent option) option" where
  "rootfs_readdir s node index = do {
     d \<leftarrow> nd s node;
     n \<leftarrow> sibling_at s (first_child d) 0 index;
     if n = 0 then Some (s, None)
     else do {
       m \<leftarrow> nd s n;
       (nm, i) \<leftarrow> strcpy (de_name (g_dirent s)) (nd_name m);
       let e = \<lparr>de_name = nm, de_file_type = node_type m, de_inode = nd_inode m\<rparr>;
       Some (s\<lparr>g_dirent := e\<rparr>, Some e)
     }
   }"

text \<open>The loop over the siblings that \<^verbatim>\<open>rootfs_finddir\<close> and \<^verbatim>\<open>rootfs_mkdir\<close> share.\<close>

partial_function (option) find_sibling :: "fs_state \<Rightarrow> ptr \<Rightarrow> u8 list \<Rightarrow> ptr option" where
  "find_sibling s n name =
     (if n = 0 then Some 0
      else do {
        d \<leftarrow> nd s n;
        c \<leftarrow> strcmp name (nd_name d);
        if c = 0 then Some n else find_sibling s (next_sibling d) name
      })"

definition rootfs_finddir :: "fs_state \<Rightarrow> ptr \<Rightarrow> u8 list \<Rightarrow> ptr option" where
  "rootfs_finddir s node name = do { d \<leftarrow> nd s node; find_sibling s (first_child d) name }"

partial_function (option) last_sibling :: "fs_state \<Rightarrow> ptr \<Rightarrow> ptr option" where
  "last_sibling s n = do {
     d \<leftarrow> nd s n;
     if next_sibling d \<noteq> 0 then last_sibling s (next_sibling d) else Some n
   }"

definition rootfs_mkdir :: "fs_state \<Rightarrow> ptr \<Rightarrow> u8 list \<Rightarrow> u32 \<Rightarrow> ptr \<Rightarrow> (fs_state \<times> bool) option" where
  "rootfs_mkdir s node name flags new_node = do {
     d \<leftarrow> nd s node;
     n \<leftarrow> find_sibling s (first_child d) name;
     if n \<noteq> 0 then Some (s, False)
     else do {
       (nm, i) \<leftarrow> strcpy (nd_name zero_node) name;
       let s1 = put_nd s new_node (rootfs_directory\<lparr>nd_name := nm, nd_parent := node\<rparr>);
       d1 \<leftarrow> nd s1 node;
       if first_child d1 = 0 then Some (put_nd s1 node (d1\<lparr>first_child := new_node\<rparr>), True)
       else do {
         l \<leftarrow> last_sibling s1 (first_child d1);
         dl \<leftarrow> nd s1 l;
         Some (put_nd s1 l (dl\<lparr>next_sibling := new_node\<rparr>), True)
       }
     }
   }"

section \<open>The device file system\<close>

text \<open>The fields of \<^verbatim>\<open>Device\<close> are those of the node that is made from it.\<close>

record Device =
  dv_name :: "u8 list"
  dv_device_type :: u32
  dv_read_block :: fs_fn
  dv_write_block :: fs_fn
  dv_read :: fs_fn
  dv_write :: fs_fn
  dv_read_test_ready :: fs_fn
  dv_write_test_ready :: fs_fn
  dv_open :: fs_fn
  dv_close :: fs_fn
  dv_ioctl :: fs_fn
  dv_ftruncate :: fs_fn
  dv_mmap :: fs_fn
  dv_munmap :: fs_fn
  dv_private_data :: ptr

fun find_device :: "fs_state \<Rightarrow> ptr list \<Rightarrow> u8 list \<Rightarrow> ptr option" where
  "find_device s [] name = Some 0"
| "find_device s (n # ns) name = do {
     d \<leftarrow> nd s n;
     c \<leftarrow> strcmp name (nd_name d);
     if c = 0 then Some n else find_device s ns name
   }"

definition devfs_finddir :: "fs_state \<Rightarrow> ptr \<Rightarrow> u8 list \<Rightarrow> (fs_state \<times> ptr) option" where
  "devfs_finddir s node name = do {
     l \<leftarrow> spinlock_lock [g_device_list_lock s];
     r \<leftarrow> find_device s (g_device_list s) name;
     Some (s\<lparr>g_device_list_lock := spinlock_unlock l\<rparr>, r)
   }"

definition devfs_readdir :: "fs_state \<Rightarrow> ptr \<Rightarrow> u32 \<Rightarrow> (fs_state \<times> filesystem_dirent option) option" where
  "devfs_readdir s node index = do {
     l \<leftarrow> spinlock_lock [g_device_list_lock s];
     let s1 = s\<lparr>g_device_list_lock := spinlock_unlock l\<rparr>;
     if unat index < length (g_device_list s) then do {
       d \<leftarrow> nd s (g_device_list s ! unat index);
       (nm, i) \<leftarrow> strcpy (de_name (g_dirent s)) (nd_name d);
       let e = \<lparr>de_name = nm, de_file_type = node_type d, de_inode = index\<rparr>;
       Some (s1\<lparr>g_dirent := e\<rparr>, Some e)
     } else Some (s1, None)
   }"

definition device_node :: "Device \<Rightarrow> u8 list \<Rightarrow> ptr \<Rightarrow> filesystem_node" where
  "device_node dev nm parent = zero_node\<lparr>nd_name := nm, node_type := dv_device_type dev,
     nd_open := dv_open dev, nd_close := dv_close dev, nd_read_block := dv_read_block dev,
     nd_write_block := dv_write_block dev, nd_read := dv_read dev, nd_write := dv_write dev,
     nd_read_test_ready := dv_read_test_ready dev, nd_write_test_ready := dv_write_test_ready dev,
     nd_ioctl := dv_ioctl dev, nd_ftruncate := dv_ftruncate dev, nd_mmap := dv_mmap dev,
     nd_munmap := dv_munmap dev, private_node_data := dv_private_data dev, nd_parent := parent\<rparr>"

definition devfs_register_device :: "fs_state \<Rightarrow> Device \<Rightarrow> ptr \<Rightarrow> (fs_state \<times> ptr) option" where
  "devfs_register_device s device new_node = do {
     l \<leftarrow> spinlock_lock [g_device_list_lock s];
     let s1 = s\<lparr>g_device_list_lock := spinlock_unlock l\<rparr>;
     r \<leftarrow> find_device s (g_device_list s) (dv_name device);
     if r \<noteq> 0 then Some (s1, 0)
     else do {
       (nm, i) \<leftarrow> strcpy (nd_name zero_node) (dv_name device);
       let s2 = put_nd s1 new_node (device_node device nm (g_dev_root s));
       Some (s2\<lparr>g_device_list := g_device_list s @ [new_node]\<rparr>, new_node)
     }
   }"

section \<open>Directories\<close>

text \<open>The calls through the function pointers.\<close>

definition call_finddir :: "fs_drivers \<Rightarrow> fs_state \<Rightarrow> fs_fn \<Rightarrow> ptr \<Rightarrow> u8 list \<Rightarrow> (fs_state \<times> ptr) option" where
  "call_finddir D s fn node name =
     (case fn of
        Fn_null \<Rightarrow> None
      | Fn_rootfs \<Rightarrow> map_option (Pair s) (rootfs_finddir s node name)
      | Fn_devfs \<Rightarrow> devfs_finddir s node name
      | Fn_driver a \<Rightarrow> drv_finddir D a s node name)"

definition call_readdir :: "fs_drivers \<Rightarrow> fs_state \<Rightarrow> fs_fn \<Rightarrow> ptr \<Rightarrow> u32 \<Rightarrow> (fs_state \<times> filesystem_dirent option) option" where
  "call_readdir D s fn node index =
     (case fn of
        Fn_null \<Rightarrow> None
      | Fn_rootfs \<Rightarrow> rootfs_readdir s node index
      | Fn_devfs \<Rightarrow> devfs_readdir s node index
      | Fn_driver a \<Rightarrow> drv_readdir D a s node index)"

definition call_mkdir :: "fs_drivers \<Rightarrow> fs_state \<Rightarrow> fs_fn \<Rightarrow> ptr \<Rightarrow> u8 list \<Rightarrow> u32 \<Rightarrow> ptr \<Rightarrow> (fs_state \<times> bool) option" where
  "call_mkdir D s fn node name flags new_node =
     (case fn of
        Fn_rootfs \<Rightarrow> rootfs_mkdir s node name flags new_node
      | Fn_driver a \<Rightarrow> drv_mkdir D a s node name flags
      | _ \<Rightarrow> None)"

definition is_mounted :: "filesystem_node \<Rightarrow> bool" where
  "is_mounted n \<longleftrightarrow> has_type n FT_MOUNT_POINT \<and> mount_point n \<noteq> 0"

definition fs_finddir :: "fs_drivers \<Rightarrow> fs_state \<Rightarrow> ptr \<Rightarrow> u8 list \<Rightarrow> (fs_state \<times> ptr) option" where
  "fs_finddir D s node name = do {
     n \<leftarrow> nd s node;
     if is_mounted n then do {
       m \<leftarrow> nd s (mount_point n);
       if nd_finddir m = Fn_null then Some (s, 0) else call_finddir D s (nd_finddir m) (mount_point n) name
     } else if has_type n FT_DIRECTORY \<and> nd_finddir n \<noteq> Fn_null then call_finddir D s (nd_finddir n) node name
     else Some (s, 0)
   }"

definition fs_readdir :: "fs_drivers \<Rightarrow> fs_state \<Rightarrow> ptr \<Rightarrow> u32 \<Rightarrow> (fs_state \<times> filesystem_dirent option) option" where
  "fs_readdir D s node index = do {
     n \<leftarrow> nd s node;
     if is_mounted n then do {
       m \<leftarrow> nd s (mount_point n);
       if nd_readdir m = Fn_null then Some (s, None) else call_readdir D s (nd_readdir m) (mount_point n) index
     } else if has_type n FT_DIRECTORY \<and> nd_readdir n \<noteq> Fn_null then call_readdir D s (nd_readdir n) node index
     else Some (s, None)
   }"

definition fs_mkdir :: "fs_drivers \<Rightarrow> fs_state \<Rightarrow> ptr \<Rightarrow> u8 list \<Rightarrow> u32 \<Rightarrow> ptr \<Rightarrow> (fs_state \<times> bool) option" where
  "fs_mkdir D s node name flags new_node = do {
     n \<leftarrow> nd s node;
     if is_mounted n then do {
       m \<leftarrow> nd s (mount_point n);
       if nd_mkdir m \<noteq> Fn_null then call_mkdir D s (nd_mkdir m) (mount_point n) name flags new_node else Some (s, False)
     } else if has_type n FT_DIRECTORY \<and> nd_mkdir n \<noteq> Fn_null then call_mkdir D s (nd_mkdir n) node name flags new_node
     else Some (s, False)
   }"

text \<open>The strings \<^verbatim>\<open>dev\<close> and \<^verbatim>\<open>initrd\<close>.\<close>

definition dev_text :: "u8 list" where "dev_text = [100, 101, 118, 0]"
definition initrd_text :: "u8 list" where "initrd_text = [105, 110, 105, 116, 114, 100, 0]"

definition fs_initialize :: "fs_drivers \<Rightarrow> fs_state \<Rightarrow> ptr \<Rightarrow> ptr \<Rightarrow> ptr \<Rightarrow> fs_state option" where
  "fs_initialize D s root a1 a2 = do {
     let zero = \<lparr>fsys_name = replicate 32 0, fsys_check_mount = 0, fsys_mount = 0\<rparr>;
     let (s1, r) = rootfs_initialize (s\<lparr>g_registered_filesystems := replicate FILESYSTEM_CAPACITY zero\<rparr>) root;
     let s2 = s1\<lparr>g_fs_root := r\<rparr>;
     (s3, b1) \<leftarrow> fs_mkdir D s2 r dev_text 0 a1;
     (s4, b2) \<leftarrow> fs_mkdir D s3 r initrd_text 0 a2;
     Some s4
   }"

text \<open>\<^verbatim>\<open>PANIC\<close> when there is no directory \<^verbatim>\<open>/dev\<close>.\<close>

definition devfs_initialize :: "fs_drivers \<Rightarrow> fs_state \<Rightarrow> ptr \<Rightarrow> fs_state option" where
  "devfs_initialize D s new_node = do {
     let s1 = (put_nd s new_node (zero_node\<lparr>node_type := FT_DIRECTORY\<rparr>))\<lparr>g_dev_root := new_node\<rparr>;
     (s2, dev_node) \<leftarrow> fs_finddir D s1 (g_fs_root s1) dev_text;
     if dev_node = 0 then None
     else do {
       d \<leftarrow> nd s2 dev_node;
       let s3 = put_nd s2 dev_node (d\<lparr>node_type := node_type d OR FT_MOUNT_POINT, mount_point := new_node\<rparr>);
       r \<leftarrow> nd s3 new_node;
       (nm, i) \<leftarrow> strcpy (nd_name r) (nd_name d);
       Some ((put_nd s3 new_node (r\<lparr>nd_parent := nd_parent d, nd_name := nm, nd_open := Fn_devfs,
           nd_finddir := Fn_devfs, nd_readdir := Fn_devfs\<rparr>))\<lparr>g_device_list := [], g_device_list_lock := spinlock_init\<rparr>)
     }
   }"

section \<open>Walking a path\<close>

text \<open>The name between two slashes is copied to the local array of 64 bytes.\<close>

definition path_token :: "u8 list \<Rightarrow> i32 \<Rightarrow> u8 list option" where
  "path_token input_path next_index =
     (if sint next_index > 0 then do {
        t \<leftarrow> strncpy (replicate 64 0) input_path next_index;
        wr t (unat next_index) 0
      } else map_option fst (strcpy (replicate 64 0) input_path))"

function get_node_loop :: "fs_drivers \<Rightarrow> fs_state \<Rightarrow> ptr \<Rightarrow> u8 list \<Rightarrow> nat \<Rightarrow> (fs_state \<times> ptr) option" where
  "get_node_loop D s node input_path next_index = do {
     let input = drop (next_index + 1) input_path;
     next \<leftarrow> str_first_index_of input slash;
     if next = 0 then get_node_loop D s node input 0
     else do {
       buffer \<leftarrow> path_token input next;
       (s', node') \<leftarrow> fs_finddir D s node buffer;
       if node' = 0 then Some (s', 0)
       else if sint next > 0 then get_node_loop D s' node' input (unat next)
       else Some (s', node')
     }
   }"
  by pat_completeness auto
termination
  by (relation "measure (\<lambda>(D, s, node, input_path, next_index). length input_path)")
    (auto simp: str_first_index_of_def Suc_le_eq dest!: arg_cong [where f = length], (case_tac input_path; simp)+)

declare get_node_loop.simps [simp del]

definition fs_get_node :: "fs_drivers \<Rightarrow> fs_state \<Rightarrow> u8 list \<Rightarrow> (fs_state \<times> ptr) option" where
  "fs_get_node D s path = do {
     c \<leftarrow> rd path 0;
     if c \<noteq> slash then Some (s, 0)
     else do {
       (real_path, found) \<leftarrow> fs_resolve_path path (replicate 256 0) 256;
       if \<not> found then Some (s, 0)
       else do {
         path_length \<leftarrow> strlen (Some real_path);
         if sint path_length < 1 then Some (s, 0)
         else if path_length = 1 then Some (s, g_fs_root s)
         else get_node_loop D s (g_fs_root s) real_path 0
       }
     }
   }"

text \<open>Building the path of a node backwards in the local array of 128 bytes.\<close>

partial_function (option) node_path_loop :: "fs_state \<Rightarrow> ptr \<Rightarrow> u8 list \<Rightarrow> int \<Rightarrow> (u8 list \<times> int) option option" where
  "node_path_loop s n target_path char_index =
     (if n = 0 then Some (Some (target_path, char_index))
      else do {
        d \<leftarrow> nd s n;
        l \<leftarrow> strlen (Some (nd_name d));
        let i = char_index - sint l;
        if i < 2 then Some None
        else if nd_parent d \<noteq> 0 then do {
          (t, j) \<leftarrow> strcpy_nonnull (drop (nat i) target_path) (nd_name d);
          target \<leftarrow> wr (take (nat i) target_path @ t) (nat (i - 1)) slash;
          node_path_loop s (nd_parent d) target (i - 1)
        } else node_path_loop s (nd_parent d) target_path i
      })"

definition fs_get_node_path :: "fs_state \<Rightarrow> ptr \<Rightarrow> u8 list \<Rightarrow> u32 \<Rightarrow> (u8 list \<times> i32) option" where
  "fs_get_node_path s node buffer buffer_size =
     (if node = g_fs_root s then
        (if buffer_size > 1 then do {
           b0 \<leftarrow> wr buffer 0 slash;
           b1 \<leftarrow> wr b0 1 0;
           Some (b1, 1)
         } else Some (buffer, - 1))
      else do {
        r \<leftarrow> node_path_loop s node (replicate 128 0) 127;
        case r of
          None \<Rightarrow> Some (buffer, - 1)
        | Some (target_path, char_index) \<Rightarrow>
            (let len = 127 - char_index
             in if buffer_size < of_int len then Some (buffer, - 1)
                else do {
                  (b, j) \<leftarrow> strcpy buffer (drop (nat char_index) target_path);
                  Some (b, of_int len)
                })
      })"

definition fs_get_node_relative_to_node ::
  "fs_drivers \<Rightarrow> fs_state \<Rightarrow> u8 list \<Rightarrow> ptr \<Rightarrow> (fs_state \<times> ptr) option"
where
  "fs_get_node_relative_to_node D s path relative_to =
     (if relative_to = 0 then Some (s, 0)
      else do {
        (b, l) \<leftarrow> fs_get_node_path s relative_to (replicate 256 0) 256;
        if sint l \<ge> 0 then do {
          b1 \<leftarrow> strcat b [slash, 0];
          b2 \<leftarrow> strcat b1 path;
          fs_get_node D s b2
        } else Some (s, 0)
      })"

text \<open>\<open>None\<close> is the null process.\<close>

definition fs_get_node_absolute_or_relative ::
  "fs_drivers \<Rightarrow> fs_state \<Rightarrow> u8 list \<Rightarrow> Process option \<Rightarrow> (fs_state \<times> ptr) option"
where
  "fs_get_node_absolute_or_relative D s path process =
     (case process of
        None \<Rightarrow> Some (s, 0)
      | Some p \<Rightarrow> do {
          c \<leftarrow> rd path 0;
          if c = 0 then Some (s, 0)
          else if c = slash then fs_get_node D s path
          else if p_working_directory p \<noteq> 0 then fs_get_node_relative_to_node D s path (p_working_directory p)
          else Some (s, 0)
        })"

section \<open>Registered file systems\<close>

text \<open>The loops compare the names of the first \<open>n\<close> entries.\<close>

fun find_filesystem :: "FileSystem list \<Rightarrow> u8 list \<Rightarrow> nat \<Rightarrow> nat \<Rightarrow> nat option option" where
  "find_filesystem tab name i 0 = Some None"
| "find_filesystem tab name i (Suc n) = do {
     f \<leftarrow> rd tab i;
     c \<leftarrow> strcmp (fsys_name f) name;
     if c = 0 then Some (Some i) else find_filesystem tab name (Suc i) n
   }"

definition fs_register :: "fs_state \<Rightarrow> FileSystem \<Rightarrow> (fs_state \<times> bool) option" where
  "fs_register s fs = do {
     l \<leftarrow> strlen (Some (fsys_name fs));
     if sint l \<le> 0 then Some (s, False)
     else do {
       r \<leftarrow> find_filesystem (g_registered_filesystems s) (fsys_name fs) 0 (g_next_filesystem_index s);
       if r \<noteq> None then Some (s, False)
       else do {
         tab \<leftarrow> wr (g_registered_filesystems s) (g_next_filesystem_index s) fs;
         Some (s\<lparr>g_registered_filesystems := tab, g_next_filesystem_index := g_next_filesystem_index s + 1\<rparr>, True)
       }
     }
   }"

definition fs_mount ::
  "fs_drivers \<Rightarrow> fs_state \<Rightarrow> u8 list \<Rightarrow> u8 list \<Rightarrow> u8 list \<Rightarrow> u32 \<Rightarrow> ptr \<Rightarrow> (fs_state \<times> bool) option"
where
  "fs_mount D s source target fsType flags data = do {
     r \<leftarrow> find_filesystem (g_registered_filesystems s) fsType 0 (g_next_filesystem_index s);
     case r of
       None \<Rightarrow> Some (s, False)
     | Some i \<Rightarrow> drv_mount D (fsys_mount (g_registered_filesystems s ! i)) s source target flags data
   }"

definition fs_check_mount ::
  "fs_drivers \<Rightarrow> fs_state \<Rightarrow> u8 list \<Rightarrow> u8 list \<Rightarrow> u8 list \<Rightarrow> u32 \<Rightarrow> ptr \<Rightarrow> (fs_state \<times> bool) option"
where
  "fs_check_mount D s source target fsType flags data = do {
     r \<leftarrow> find_filesystem (g_registered_filesystems s) fsType 0 (g_next_filesystem_index s);
     case r of
       None \<Rightarrow> Some (s, False)
     | Some i \<Rightarrow> drv_mount D (fsys_check_mount (g_registered_filesystems s ! i)) s source target flags data
   }"

section \<open>File status\<close>

definition S_IFDIR :: u32 where "S_IFDIR = 0x4000"
definition S_IFCHR :: u32 where "S_IFCHR = 0x2000"
definition S_IFBLK :: u32 where "S_IFBLK = 0x6000"
definition S_IFREG :: u32 where "S_IFREG = 0x8000"
definition S_IFIFO :: u32 where "S_IFIFO = 0x1000"
definition S_IFLNK :: u32 where "S_IFLNK = 0xA000"

definition stat_mode :: "filesystem_node \<Rightarrow> u32 \<Rightarrow> u32" where
  "stat_mode n old =
     (if has_type n FT_DIRECTORY then S_IFDIR
      else if has_type n FT_CHARACTER_DEVICE then S_IFCHR
      else if has_type n FT_BLOCK_DEVICE then S_IFBLK
      else if has_type n FT_PIPE then S_IFIFO
      else if has_type n FT_SYMBOLIC_LINK then S_IFLNK
      else if has_type n FT_FILE then S_IFREG
      else old)"

text \<open>A driver that returns \<open>1\<close> leaves the fields to this function.\<close>

definition fs_stat :: "fs_drivers \<Rightarrow> fs_state \<Rightarrow> ptr \<Rightarrow> stat_t \<Rightarrow> (stat_t \<times> i32) option" where
  "fs_stat D s node buf = do {
     n \<leftarrow> nd s node;
     case nd_stat n of
       Fn_driver a \<Rightarrow>
         (let (buf', val) = drv_stat D a s node buf
          in if val = 1 then Some (buf'\<lparr>st_mode := stat_mode n (st_mode buf'), st_size := nd_length n\<rparr>, 0)
             else Some (buf', val))
     | _ \<Rightarrow> Some (buf, - 1)
   }"

end
