(* ===== verification/FileTree.thy ===== *)
theory FileTree
  imports Vfs Registry
begin

text \<open>
  What the file tree of theory \<open>Vfs\<close> is: the invariant that ties the sibling chains, the parent
  pointers and the list of devices together, the tree as a function from paths to nodes, and the
  theorems about looking up, creating and naming nodes.
\<close>

section \<open>The invariant\<close>

fun sib_chain :: "(ptr \<Rightarrow> filesystem_node option) \<Rightarrow> ptr \<Rightarrow> ptr list \<Rightarrow> bool" where
  "sib_chain h a [] \<longleftrightarrow> a = 0"
| "sib_chain h a (b # bs) \<longleftrightarrow> a = b \<and> b \<noteq> 0 \<and> (\<exists>d. h b = Some d \<and> sib_chain h (next_sibling d) bs)"

definition name_of :: "fs_state \<Rightarrow> ptr \<Rightarrow> u8 list" where
  "name_of s a = (case fs_nodes s a of None \<Rightarrow> [] | Some d \<Rightarrow> takeWhile (\<lambda>c. c \<noteq> 0) (nd_name d))"

definition parent_of :: "fs_state \<Rightarrow> ptr \<Rightarrow> ptr" where
  "parent_of s a = (case fs_nodes s a of None \<Rightarrow> 0 | Some d \<Rightarrow> nd_parent d)"

text \<open>A node with a terminated name that can be a component of a path, below the given parent.\<close>

definition named_node :: "fs_state \<Rightarrow> ptr \<Rightarrow> ptr \<Rightarrow> bool" where
  "named_node s parent a \<longleftrightarrow> a \<noteq> 0 \<and> (\<exists>d. fs_nodes s a = Some d \<and> length (nd_name d) = 128 \<and> 0 \<in> set (nd_name d) \<and> nd_parent d = parent) \<and>
     plain_component (name_of s a)"

text \<open>A directory of the root file system with its children; only the device file system is mounted.\<close>

definition dir_ok :: "fs_state \<Rightarrow> ptr set \<Rightarrow> ptr \<Rightarrow> ptr list \<Rightarrow> bool" where
  "dir_ok s dirs a ks \<longleftrightarrow> a \<noteq> 0 \<and>
     (\<exists>d. fs_nodes s a = Some d \<and> has_type d FT_DIRECTORY \<and> nd_finddir d = Fn_rootfs \<and> nd_mkdir d = Fn_rootfs \<and>
        (is_mounted d \<longrightarrow> mount_point d = g_dev_root s) \<and> sib_chain (fs_nodes s) (first_child d) ks) \<and>
     set ks \<subseteq> dirs \<and> distinct (map (name_of s) ks) \<and> (\<forall>k \<in> set ks. named_node s a k)"

definition devices_ok :: "fs_state \<Rightarrow> bool" where
  "devices_ok s \<longleftrightarrow> g_device_list_lock s = 0 \<and> distinct (map (name_of s) (g_device_list s)) \<and>
     (\<forall>a \<in> set (g_device_list s). named_node s (g_dev_root s) a \<and>
        (\<exists>d. fs_nodes s a = Some d \<and> \<not> has_type d FT_DIRECTORY \<and> \<not> is_mounted d))"

definition is_mounted_at :: "fs_state \<Rightarrow> ptr \<Rightarrow> bool" where
  "is_mounted_at s a \<longleftrightarrow> (\<exists>d. fs_nodes s a = Some d \<and> is_mounted d)"

definition dev_root_ok :: "fs_state \<Rightarrow> bool" where
  "dev_root_ok s \<longleftrightarrow> g_dev_root s \<noteq> 0 \<and>
     (\<exists>d. fs_nodes s (g_dev_root s) = Some d \<and> nd_finddir d = Fn_devfs \<and> nd_mkdir d = Fn_null)"

definition tree_inv :: "fs_state \<Rightarrow> ptr set \<Rightarrow> (ptr \<Rightarrow> ptr list) \<Rightarrow> bool" where
  "tree_inv s dirs kids \<longleftrightarrow>
     g_fs_root s \<in> dirs \<and> name_of s (g_fs_root s) = [] \<and> parent_of s (g_fs_root s) = 0 \<and>
     (\<exists>d. fs_nodes s (g_fs_root s) = Some d \<and> 0 \<in> set (nd_name d)) \<and>
     (\<forall>a \<in> dirs. dir_ok s dirs a (kids a)) \<and> devices_ok s \<and>
     (\<forall>a \<in> dirs. is_mounted_at s a \<longrightarrow> dev_root_ok s) \<and>
     g_dev_root s \<notin> dirs \<and> set (g_device_list s) \<inter> dirs = {} \<and> g_dev_root s \<notin> set (g_device_list s)"

section \<open>The tree as a function\<close>

definition pick :: "fs_state \<Rightarrow> ptr list \<Rightarrow> u8 list \<Rightarrow> ptr" where
  "pick s as c = (case find (\<lambda>a. name_of s a = c) as of None \<Rightarrow> 0 | Some a \<Rightarrow> a)"

text \<open>The node called \<open>c\<close> in \<open>a\<close>, or \<open>0\<close>.\<close>

definition entry :: "fs_state \<Rightarrow> ptr set \<Rightarrow> (ptr \<Rightarrow> ptr list) \<Rightarrow> ptr \<Rightarrow> u8 list \<Rightarrow> ptr" where
  "entry s dirs kids a c =
     (if a \<in> dirs then (if is_mounted_at s a then pick s (g_device_list s) c else pick s (kids a) c) else 0)"

fun walk :: "(ptr \<Rightarrow> u8 list \<Rightarrow> ptr) \<Rightarrow> ptr \<Rightarrow> u8 list list \<Rightarrow> ptr" where
  "walk e a [] = a"
| "walk e a (c # cs) = (if e a c = 0 then 0 else walk e (e a c) cs)"

section \<open>Lookup in one directory\<close>

lemma takeWhile_text: "0 \<notin> set t \<Longrightarrow> takeWhile (\<lambda>c. c \<noteq> 0) (t @ 0 # rest) = (t :: u8 list)"
  by (induction t) auto

lemma name_of_cstr:
  assumes "named_node s p a" and "nd s a = Some d"
  shows "cstr (name_of s a) (nd_name d)"
proof -
  have d: "fs_nodes s a = Some d" "0 \<in> set (nd_name d)" using assms by (auto simp: named_node_def nd_def)
  obtain pre post where "nd_name d = pre @ 0 # post" "0 \<notin> set pre" using split_list_first [OF d(2)] by blast
  then show ?thesis using d(1) takeWhile_text by (simp add: cstr_iff name_of_def)
qed

lemma named_nd: "named_node s p a \<Longrightarrow> \<exists>d. nd s a = Some d"
  by (auto simp: named_node_def nd_def)

lemma strcmp_name:
  assumes "named_node s p a" and "nd s a = Some d" and "cstr c name"
  shows "strcmp name (nd_name d) = Some (if name_of s a = c then 0 else 1)"
  using strcmp_cstr [OF assms(3) name_of_cstr [OF assms(1,2)]] by (simp add: eq_commute)

lemma pick_Cons: "pick s (a # as) c = (if name_of s a = c then a else pick s as c)"
  by (simp add: pick_def)

lemma pick_Nil: "pick s [] c = 0"
  by (simp add: pick_def)

lemma find_sibling_ok:
  "sib_chain (fs_nodes s) a ks \<Longrightarrow> \<forall>k \<in> set ks. named_node s p k \<Longrightarrow> cstr c name \<Longrightarrow>
   find_sibling s a name = Some (pick s ks c)"
proof (induction ks arbitrary: a)
  case Nil
  then show ?case by (subst find_sibling.simps) (simp add: pick_Nil)
next
  case (Cons k ks)
  obtain d where d: "a = k" "k \<noteq> 0" "nd s k = Some d" "sib_chain (fs_nodes s) (next_sibling d) ks"
    using Cons.prems(1) by (auto simp: nd_def)
  have "strcmp name (nd_name d) = Some (if name_of s k = c then 0 else 1)"
    using strcmp_name [OF _ d(3) Cons.prems(3), of p] Cons.prems(2) by simp
  then show ?case using d Cons.IH [OF d(4)] Cons.prems(2,3)
    by (subst find_sibling.simps) (simp add: pick_Cons)
qed

lemma find_device_ok:
  "\<forall>k \<in> set ks. named_node s p k \<Longrightarrow> cstr c name \<Longrightarrow> find_device s ks name = Some (pick s ks c)"
proof (induction ks)
  case (Cons k ks)
  obtain d where d: "nd s k = Some d" using Cons.prems(1) named_nd by fastforce
  have "strcmp name (nd_name d) = Some (if name_of s k = c then 0 else 1)"
    using strcmp_name [OF _ d Cons.prems(2), of p] Cons.prems(1) by simp
  then show ?case using d Cons.IH Cons.prems by (simp add: pick_Cons)
qed (simp add: pick_Nil)

lemma lock_same: "g_device_list_lock s = 0 \<Longrightarrow> s\<lparr>g_device_list_lock := spinlock_unlock l\<rparr> = s"
  by (cases s) (simp add: spinlock_unlock_def)

lemma devfs_finddir_ok:
  assumes "devices_ok s" and "cstr c name"
  shows "devfs_finddir s node name = Some (s, pick s (g_device_list s) c)"
proof -
  have "\<forall>k \<in> set (g_device_list s). named_node s (g_dev_root s) k" "g_device_list_lock s = 0"
    using assms(1) by (auto simp: devices_ok_def)
  then show ?thesis using find_device_ok [OF _ assms(2)] lock_same by (simp add: devfs_finddir_def)
qed

lemma fs_finddir_ok:
  assumes inv: "tree_inv s dirs kids" and a: "a \<in> dirs \<or> a \<in> set (g_device_list s)" and c: "cstr c name"
  shows "fs_finddir D s a name = Some (s, entry s dirs kids a c)"
proof (cases "a \<in> dirs")
  case True
  then obtain d where d: "a \<noteq> 0" "fs_nodes s a = Some d" "has_type d FT_DIRECTORY" "nd_finddir d = Fn_rootfs"
      "is_mounted d \<longrightarrow> mount_point d = g_dev_root s" "sib_chain (fs_nodes s) (first_child d) (kids a)"
      "\<forall>k \<in> set (kids a). named_node s a k"
    using inv by (auto simp: tree_inv_def dir_ok_def)
  have dev: "devices_ok s" using inv by (simp add: tree_inv_def)
  have nda: "nd s a = Some d" using d by (simp add: nd_def)
  show ?thesis
  proof (cases "is_mounted d")
    case m: True
    then have "is_mounted_at s a" using d(2) by (simp add: is_mounted_at_def)
    moreover have "dev_root_ok s" using inv True calculation unfolding tree_inv_def by blast
    then obtain r where "nd s (g_dev_root s) = Some r" "nd_finddir r = Fn_devfs"
      by (auto simp: dev_root_ok_def nd_def)
    ultimately show ?thesis using m d(5) nda True devfs_finddir_ok [OF dev c]
      by (simp add: fs_finddir_def entry_def call_finddir_def)
  next
    case nm: False
    then have "\<not> is_mounted_at s a" using d(2) by (simp add: is_mounted_at_def)
    then show ?thesis using nm nda d(3,4) True find_sibling_ok [OF d(6,7) c]
      by (simp add: fs_finddir_def entry_def call_finddir_def rootfs_finddir_def)
  qed
next
  case False
  then have "a \<in> set (g_device_list s)" using a by simp
  then obtain d where "nd s a = Some d" "\<not> has_type d FT_DIRECTORY" "\<not> is_mounted d"
    using inv by (auto simp: tree_inv_def devices_ok_def named_node_def nd_def)
  then show ?thesis using False by (simp add: fs_finddir_def entry_def)
qed

lemma pick_in: "pick s as c \<noteq> 0 \<Longrightarrow> pick s as c \<in> set as \<and> name_of s (pick s as c) = c"
  by (induction as) (auto simp: pick_Nil pick_Cons split: if_splits)

lemma pick_0: "0 \<notin> set as \<Longrightarrow> pick s as c = 0 \<longleftrightarrow> c \<notin> name_of s ` set as"
  by (induction as) (auto simp: pick_Nil pick_Cons)

lemma pick_member:
  "distinct (map (name_of s) as) \<Longrightarrow> a \<in> set as \<Longrightarrow> pick s as (name_of s a) = a"
  by (induction as) (auto simp: pick_Cons)

lemma entry_closed:
  assumes "tree_inv s dirs kids" and "entry s dirs kids a c \<noteq> 0"
  shows "entry s dirs kids a c \<in> dirs \<or> entry s dirs kids a c \<in> set (g_device_list s)"
  using assms pick_in [of s "kids a" c] pick_in [of s "g_device_list s" c]
  by (auto simp: entry_def tree_inv_def dir_ok_def split: if_splits)
section \<open>Lookup along a path\<close>

fun join :: "u8 list list \<Rightarrow> u8 list" where
  "join [] = []"
| "join [c] = c"
| "join (c # cs) = c @ slash # join cs"

lemma dir_text_join: "cs \<noteq> [] \<Longrightarrow> dir_text cs = slash # join cs @ [slash]"
  by (induction cs rule: join.induct) (auto simp: dir_text_def)

lemma path_text_join: "path_text cs = slash # join cs"
  by (cases "cs = []") (simp_all add: path_text_def dir_text_join butlast_append)

lemma join_Cons: "cs \<noteq> [] \<Longrightarrow> join (c # cs) = c @ slash # join cs"
  by (cases cs) simp_all

lemma strncpy_loop_overrun:
  "length dest < i + k \<Longrightarrow> i \<le> length dest \<Longrightarrow> strncpy_loop dest src e i k = None"
proof (induction k arbitrary: dest e i)
  case (Suc k)
  have "strncpy_loop dest' src e' (Suc i) k = None" if "wr dest i c = Some dest'" for c dest' e'
    using Suc.IH [of dest' "Suc i" e'] Suc.prems that by (auto simp: wr_def split: if_splits)
  then show ?case by (auto split: bind_splits)
qed simp

lemma strcpy_loop_overrun:
  "cstr t src \<Longrightarrow> length dest < i + length t \<Longrightarrow> i \<le> length dest \<Longrightarrow> strcpy_loop dest i src = None"
proof (induction t arbitrary: src dest i)
  case (Cons c t)
  then obtain src' where src: "src = c # src'" "cstr t src'" by (auto simp: cstr_iff)
  show ?case
  proof (cases "i = length dest")
    case False
    then have "t \<noteq> []" using Cons.prems by auto
    then obtain c' r where "src' = c' # r" "c' \<noteq> 0" using src(2) by (cases t) (auto simp: cstr_iff)
    then show ?thesis using Cons.IH [OF src(2), of "dest[i := c]" "Suc i"] Cons.prems False src
      by (simp add: wr_def)
  qed (simp add: src wr_def)
qed simp

lemma strcpy_overrun:
  assumes "cstr t src" and "t \<noteq> []" and "length dest \<le> length t"
  shows "strcpy dest src = None"
proof (cases "length t = length dest")
  case True
  then show ?thesis using strcpy_loop_cstr [OF assms(1,2), of 0 dest] by (simp add: strcpy_def wr_def)
next
  case False
  then show ?thesis using strcpy_loop_overrun [OF assms(1), of dest 0] assms(3) by (simp add: strcpy_def)
qed

text \<open>What the loop finds when it looks for the next slash.\<close>

definition slash_index :: "u8 list \<Rightarrow> u8 list list \<Rightarrow> i32" where
  "slash_index c cs = (if cs = [] then - 1 else of_nat (length c))"

lemma next_slash:
  assumes "cstr (join (c # cs)) input" and "plain_component c"
  shows "str_first_index_of input slash = Some (slash_index c cs)"
proof (cases "cs = []")
  case True
  then show ?thesis using index_of_cstr [OF assms(1), of slash 0] assms(2)
    by (simp add: str_first_index_of_def slash_index_def plain_component_def)
next
  case False
  have "takeWhile (\<lambda>x. x \<noteq> slash) (c @ slash # join cs) = c"
    using assms(2) by (subst takeWhile_append2) (auto simp: plain_component_def)
  then show ?thesis using index_of_cstr [OF assms(1), of slash 0] False
    by (simp add: join_Cons str_first_index_of_def slash_index_def)
qed

lemma path_token_ok:
  assumes c: "cstr (join (c # cs)) input" and p: "plain_component c"
  shows "if length c < 64 then \<exists>t. path_token input (slash_index c cs) = Some t \<and> cstr c t
         else length c < 2 ^ 31 \<longrightarrow> path_token input (slash_index c cs) = None"
proof (cases "cs = []")
  case True
  have ne: "c \<noteq> []" using p by (simp add: plain_component_def)
  have z: "0 \<notin> set c" using p by (simp add: plain_component_def)
  have "path_token input (slash_index c cs) = map_option fst (strcpy (replicate 64 0) input)"
    using True by (simp add: path_token_def slash_index_def)
  then show ?thesis
    using strcpy_cstr [of c input "replicate 64 0"] strcpy_overrun [of c input "replicate 64 0"] c True ne z
    by (auto simp: cstr_iff)
next
  case False
  have ne: "0 < length c" using p by (simp add: plain_component_def)
  have c2: "cstr (c @ slash # join cs) input" using c False by (simp add: join_Cons)
  show ?thesis
  proof (cases "length c < 64")
    case True
    then have l31: "length c < 2 ^ 31" by simp
    have si: "0 < sint (slash_index c cs)" "unat (slash_index c cs) = length c"
      using False sint_of_nat [OF l31] unat_of_nat31 [OF l31] ne by (simp_all add: slash_index_def)
    have "strncpy (replicate 64 0) input (slash_index c cs) = Some (c @ replicate (64 - length c) 0)"
      using strncpy_prefix [OF c2, of "replicate 64 0"] True l31 False by (simp add: slash_index_def)
    moreover obtain k where "64 - length c = Suc k" using True by (metis Suc_diff_Suc)
    ultimately have "path_token input (slash_index c cs) = Some (c @ 0 # replicate k 0)"
      using si True by (simp add: path_token_def wr_def list_update_append)
    then show ?thesis using True p by (auto simp: cstr_iff plain_component_def)
  next
    case long: False
    show ?thesis
    proof (cases "length c < 2 ^ 31")
      case l31: True
      have si: "0 < sint (slash_index c cs)" "unat (slash_index c cs) = length c"
        using False sint_of_nat [OF l31] unat_of_nat31 [OF l31] ne by (simp_all add: slash_index_def)
      have "strncpy_loop (replicate 64 0) input False 0 (length c) = None" if "length c \<noteq> 64"
        using strncpy_loop_overrun [of "replicate 64 0" 0 "length c"] long that by simp
      moreover have "strncpy_loop (replicate 64 0) input False 0 (length c) = Some c" if "length c = 64"
        using strncpy_prefix [OF c2, of "replicate 64 0"] that l31 by (simp add: strncpy_def unat_of_nat31)
      ultimately show ?thesis using si long
        by (cases "length c = 64") (auto simp: path_token_def strncpy_def wr_def)
    qed (use long in simp)
  qed
qed

lemma get_node_loop_step:
  assumes "cstr (join (c # cs)) (drop (n + 1) path)" and "plain_component c" and "length c < 2 ^ 31"
  shows "get_node_loop D s a path n = do {
      buffer \<leftarrow> path_token (drop (n + 1) path) (slash_index c cs);
      (s', a') \<leftarrow> fs_finddir D s a buffer;
      if a' = 0 then Some (s', 0)
      else if cs \<noteq> [] then get_node_loop D s' a' (drop (n + 1) path) (length c)
      else Some (s', a')
    }"
proof -
  have ne: "0 < length c" using assms(2) by (simp add: plain_component_def)
  have "slash_index c cs \<noteq> 0" "sint (slash_index c cs) > 0 \<longleftrightarrow> cs \<noteq> []" "cs \<noteq> [] \<longrightarrow> unat (slash_index c cs) = length c"
    using sint_of_nat [OF assms(3)] unat_of_nat31 [OF assms(3)] ne by (auto simp: slash_index_def)
  then show ?thesis using next_slash [OF assms(1,2)]
    by (cases "cs = []"; subst get_node_loop.simps) (simp_all add: Let_def split_def cong: if_cong)
qed

lemma get_node_loop_ok:
  assumes "tree_inv s dirs kids" and "a \<in> dirs \<or> a \<in> set (g_device_list s)" and "cs \<noteq> []"
    and "\<forall>c \<in> set cs. plain_component c \<and> length c < 64" and "cstr (join cs) (drop (n + 1) path)"
  shows "get_node_loop D s a path n = Some (s, walk (entry s dirs kids) a cs)"
  using assms(2-5)
proof (induction cs arbitrary: a path n)
  case (Cons c cs)
  have c: "plain_component c" "length c < 64" "length c < 2 ^ 31" using Cons.prems(3) by auto
  obtain t where t: "path_token (drop (n + 1) path) (slash_index c cs) = Some t" "cstr c t"
    using path_token_ok [OF Cons.prems(4) c(1)] c(2) by auto
  have f: "fs_finddir D s a t = Some (s, entry s dirs kids a c)"
    by (rule fs_finddir_ok [OF assms(1) Cons.prems(1) t(2)])
  show ?case
  proof (cases "entry s dirs kids a c = 0 \<or> cs = []")
    case True
    then show ?thesis using get_node_loop_step [OF Cons.prems(4) c(1,3)] t(1) f by auto
  next
    case False
    have "cstr (join cs) (drop (length (c @ [slash])) (drop (n + 1) path))"
      by (rule drop_cstr) (use Cons.prems(4) False in \<open>simp add: join_Cons\<close>)
    then have d: "cstr (join cs) (drop (length c + 1) (drop (n + 1) path))" by simp
    have h: "entry s dirs kids a c \<noteq> 0" "cs \<noteq> []" "\<forall>c \<in> set cs. plain_component c \<and> length c < 64"
      using False Cons.prems(3) by simp_all
    have "get_node_loop D s (entry s dirs kids a c) (drop (n + 1) path) (length c) =
        Some (s, walk (entry s dirs kids) (entry s dirs kids a c) cs)"
      by (rule Cons.IH [OF entry_closed [OF assms(1) h(1)] h(2,3) d])
    then show ?thesis using get_node_loop_step [OF Cons.prems(4) c(1,3)] t(1) f False by simp
  qed
qed simp
text \<open>A whole path.\<close>

definition lookup_text :: "u8 list \<Rightarrow> (u8 list list \<Rightarrow> ptr) \<Rightarrow> ptr" where
  "lookup_text p f = (case normalize 256 [] (components p) of None \<Rightarrow> 0 | Some cs \<Rightarrow> f cs)"

lemma components_of_path:
  assumes "cstr (slash # p) path"
  shows "\<forall>c \<in> set (components (slash # p)). plain_component c"
  by (rule components_plain) (use assms in \<open>simp add: cstr_iff\<close>)

lemma normalize_subset:
  "normalize cap st cs = Some st' \<Longrightarrow> set st' \<subseteq> set st \<union> set cs"
  by (induction cap st cs rule: normalize.induct) (auto split: if_splits dest: in_set_butlastD)

lemma fs_get_node_resolved:
  assumes "cstr (slash # p) path" and "length p < 2 ^ 31 - 1"
  shows "\<exists>b. fs_get_node D s path =
    (case normalize 256 [] (components (slash # p)) of
       None \<Rightarrow> Some (s, 0)
     | Some cs \<Rightarrow> if cs = [] then Some (s, g_fs_root s) else get_node_loop D s (g_fs_root s) b 0) \<and>
    (\<forall>cs. normalize 256 [] (components (slash # p)) = Some cs \<longrightarrow> cstr (slash # join cs) b \<and> length b = 256)"
proof -
  have two: "2 \<le> sint (256 :: i32)" "sint (256 :: i32) \<le> int (length (replicate 256 (0 :: u8)))" by simp_all
  obtain b f where r: "fs_resolve_path path (replicate 256 0) 256 = Some (b, f)" "length b = 256"
      "case normalize (sint (256 :: i32)) [] (components (slash # p)) of None \<Rightarrow> \<not> f | Some st \<Rightarrow> f \<and> cstr (path_text st) b"
    using fs_resolve_path_ok [OF assms two] by (auto simp: ok_iff)
  have c0: "rd path 0 = Some slash" using assms(1) by (auto simp: cstr_iff rd_def)
  have s256: "sint (256 :: i32) = 256" by simp
  show ?thesis
  proof (cases "normalize 256 [] (components (slash # p))")
    case None
    then show ?thesis using r c0 unfolding s256 by (simp add: fs_get_node_def)
  next
    case (Some cs)
    then have f: "f" and t: "cstr (slash # join cs) b" using r(3) unfolding s256 by (simp_all add: path_text_join)
    let ?n = "length (slash # join cs)"
    have l: "?n < 2 ^ 31" using cstr_len [OF t] r(2) by simp
    have len: "strlen (Some b) = Some (of_nat ?n)" using strlen_cstr [OF t, of 0] by (simp only: strlen_def option.case) simp
    have sn: "sint (of_nat ?n :: i32) = int ?n" by (rule sint_of_nat [OF l])
    have one: "(of_nat ?n :: i32) = 1 \<longleftrightarrow> cs = []"
    proof -
      have "unat (of_nat ?n :: i32) = ?n" by (rule unat_of_nat31 [OF l])
      then have "(of_nat ?n :: i32) = 1 \<longleftrightarrow> ?n = 1" by (metis unat_1 word_unat_eq_iff)
      also have "\<dots> \<longleftrightarrow> join cs = []" by simp
      also have "\<dots> \<longleftrightarrow> cs = []"
      proof
        assume j: "join cs = []"
        have "\<forall>c \<in> set cs. plain_component c"
          using normalize_subset [OF Some] components_of_path [OF assms(1)] by auto
        then show "cs = []" using j by (cases cs rule: join.cases) (auto simp: plain_component_def)
      qed simp
      finally show ?thesis .
    qed
    have "fs_get_node D s path = (if cs = [] then Some (s, g_fs_root s) else get_node_loop D s (g_fs_root s) b 0)"
      unfolding fs_get_node_def c0 bind.bind_lunit r(1) using f len sn one by (simp del: of_nat_Suc list.size)
    then show ?thesis using Some t r(2) by auto
  qed
qed

lemma fs_get_node_ok:
  assumes inv: "tree_inv s dirs kids" and p: "cstr (slash # p) path" "length p < 2 ^ 31 - 1"
    and short: "\<forall>c \<in> set (components (slash # p)). length c < 64"
  shows "fs_get_node D s path = Some (s, lookup_text (slash # p) (walk (entry s dirs kids) (g_fs_root s)))"
proof -
  obtain b where b: "fs_get_node D s path =
      (case normalize 256 [] (components (slash # p)) of
         None \<Rightarrow> Some (s, 0)
       | Some cs \<Rightarrow> if cs = [] then Some (s, g_fs_root s) else get_node_loop D s (g_fs_root s) b 0)"
      "\<forall>cs. normalize 256 [] (components (slash # p)) = Some cs \<longrightarrow> cstr (slash # join cs) b \<and> length b = 256"
    using fs_get_node_resolved [OF p] by blast
  show ?thesis
  proof (cases "normalize 256 [] (components (slash # p))")
    case None
    then show ?thesis using b(1) by (simp add: lookup_text_def)
  next
    case (Some cs)
    show ?thesis
    proof (cases "cs = []")
      case True
      then show ?thesis using b(1) Some by (simp add: lookup_text_def)
    next
      case False
      have "cstr (slash # join cs) b" using b(2) Some by simp
      from drop_cstr [of "[slash]" "join cs" b] this have d: "cstr (join cs) (drop (0 + 1) b)" by simp
      have pl: "\<forall>c \<in> set cs. plain_component c \<and> length c < 64"
        using normalize_subset [OF Some] components_of_path [OF p(1)] short by auto
      have root: "g_fs_root s \<in> dirs \<or> g_fs_root s \<in> set (g_device_list s)" using inv by (simp add: tree_inv_def)
      show ?thesis using b(1) Some False get_node_loop_ok [OF inv root False pl d]
        by (simp add: lookup_text_def)
    qed
  qed
qed
section \<open>Creating a directory\<close>

text \<open>The nodes agree up to the pointers that link children together.\<close>

definition links_off :: "filesystem_node \<Rightarrow> filesystem_node" where
  "links_off d = d\<lparr>first_child := 0, next_sibling := 0\<rparr>"

definition relinked :: "fs_state \<Rightarrow> fs_state \<Rightarrow> ptr \<Rightarrow> bool" where
  "relinked s s' new \<longleftrightarrow> s' = s\<lparr>fs_nodes := fs_nodes s'\<rparr> \<and>
     (\<forall>x. x \<noteq> new \<longrightarrow> map_option links_off (fs_nodes s' x) = map_option links_off (fs_nodes s x))"

lemma links_off_eq:
  assumes "links_off d' = links_off d"
  shows "nd_name d' = nd_name d" "nd_parent d' = nd_parent d" "node_type d' = node_type d"
    "nd_finddir d' = nd_finddir d" "nd_mkdir d' = nd_mkdir d" "mount_point d' = mount_point d"
    "is_mounted d' = is_mounted d" "has_type d' f = has_type d f"
proof -
  have "nd_name (links_off d') = nd_name (links_off d)" "nd_parent (links_off d') = nd_parent (links_off d)"
    "node_type (links_off d') = node_type (links_off d)" "nd_finddir (links_off d') = nd_finddir (links_off d)"
    "nd_mkdir (links_off d') = nd_mkdir (links_off d)" "mount_point (links_off d') = mount_point (links_off d)"
    using assms by simp_all
  then show "nd_name d' = nd_name d" "nd_parent d' = nd_parent d" "node_type d' = node_type d"
    "nd_finddir d' = nd_finddir d" "nd_mkdir d' = nd_mkdir d" "mount_point d' = mount_point d"
    "is_mounted d' = is_mounted d" "has_type d' f = has_type d f"
    by (simp_all add: links_off_def is_mounted_def has_type_def)
qed

lemma relinked_node:
  assumes "relinked s s' new" and "x \<noteq> new" and "fs_nodes s x = Some d"
  shows "\<exists>d'. fs_nodes s' x = Some d' \<and> links_off d' = links_off d"
proof -
  have "map_option links_off (fs_nodes s' x) = Some (links_off d)" using assms by (simp add: relinked_def)
  then show ?thesis by auto
qed

lemma relinked_none:
  assumes "relinked s s' new" and "x \<noteq> new" and "fs_nodes s x = None"
  shows "fs_nodes s' x = None"
proof -
  have "map_option links_off (fs_nodes s' x) = None" using assms by (simp add: relinked_def)
  then show ?thesis by simp
qed

lemma relinked_simps:
  assumes "relinked s s' new"
  shows "g_fs_root s' = g_fs_root s" "g_dev_root s' = g_dev_root s" "g_device_list s' = g_device_list s"
    "g_device_list_lock s' = g_device_list_lock s"
proof -
  have "s' = s\<lparr>fs_nodes := fs_nodes s'\<rparr>" using assms by (simp add: relinked_def)
  then have "g_fs_root s' = g_fs_root (s\<lparr>fs_nodes := fs_nodes s'\<rparr>)" "g_dev_root s' = g_dev_root (s\<lparr>fs_nodes := fs_nodes s'\<rparr>)"
    "g_device_list s' = g_device_list (s\<lparr>fs_nodes := fs_nodes s'\<rparr>)"
    "g_device_list_lock s' = g_device_list_lock (s\<lparr>fs_nodes := fs_nodes s'\<rparr>)" by metis+
  then show "g_fs_root s' = g_fs_root s" "g_dev_root s' = g_dev_root s" "g_device_list s' = g_device_list s"
    "g_device_list_lock s' = g_device_list_lock s" by simp_all
qed

lemma relinked_fields:
  assumes r: "relinked s s' new" and x: "x \<noteq> new"
  shows "name_of s' x = name_of s x" "parent_of s' x = parent_of s x" "is_mounted_at s' x = is_mounted_at s x"
    "named_node s' p x = named_node s p x"
proof -
  show n: "name_of s' x = name_of s x" and "parent_of s' x = parent_of s x" and "is_mounted_at s' x = is_mounted_at s x"
  proof -
    have "name_of s' x = name_of s x \<and> parent_of s' x = parent_of s x \<and> is_mounted_at s' x = is_mounted_at s x"
    proof (cases "fs_nodes s x")
      case None
      then show ?thesis using relinked_none [OF r x None] by (simp add: name_of_def parent_of_def is_mounted_at_def)
    next
      case (Some d)
      obtain d' where d': "fs_nodes s' x = Some d'" "links_off d' = links_off d"
        using relinked_node [OF r x Some] by blast
      show ?thesis
        unfolding name_of_def parent_of_def is_mounted_at_def d'(1) Some using links_off_eq [OF d'(2)] by simp
    qed
    then show "name_of s' x = name_of s x" "parent_of s' x = parent_of s x" "is_mounted_at s' x = is_mounted_at s x"
      by simp_all
  qed
  show "named_node s' p x = named_node s p x"
  proof (cases "fs_nodes s x")
    case None
    then show ?thesis using relinked_none [OF r x] by (simp add: named_node_def)
  next
    case (Some d)
    obtain d' where d': "fs_nodes s' x = Some d'" "links_off d' = links_off d"
      using relinked_node [OF r x Some] by blast
    show ?thesis unfolding named_node_def n d'(1) Some using links_off_eq(1,2) [OF d'(2)] by simp
  qed
qed

lemma tree_insert:
  assumes inv: "tree_inv s dirs kids" and a: "a \<in> dirs" "new \<noteq> a" "new \<noteq> 0" and fresh: "fs_nodes s new = None"
    and dev: "new \<noteq> g_dev_root s" and c: "plain_component c" "c \<notin> name_of s ` set (kids a)"
    and r: "relinked s s' new" and dn: "fs_nodes s' new = Some (rootfs_directory\<lparr>nd_name := c @ 0 # rest, nd_parent := a\<rparr>)"
    and len: "length (c @ 0 # rest) = 128"
    and ch: "\<forall>d. fs_nodes s' a = Some d \<longrightarrow> sib_chain (fs_nodes s') (first_child d) (kids a @ [new])"
    and others: "\<forall>b \<in> dirs. b \<noteq> a \<longrightarrow> (\<forall>d. fs_nodes s' b = Some d \<longrightarrow> sib_chain (fs_nodes s') (first_child d) (kids b))"
  shows "tree_inv s' (insert new dirs) (kids(a := kids a @ [new], new := []))"
proof -
  let ?kids = "kids(a := kids a @ [new], new := [])"
  note F = relinked_fields [OF r] and G = relinked_simps [OF r]
  have z: "0 \<notin> set c" using c(1) by (simp add: plain_component_def)
  have nn: "name_of s' new = c" using dn takeWhile_text [OF z] by (simp add: name_of_def)
  have named: "named_node s' a new" using dn nn a(3) c(1) len by (simp add: named_node_def)
  have dirs_new: "b \<noteq> new" if "b \<in> dirs" for b using inv that fresh by (auto simp: tree_inv_def dir_ok_def)
  have kid_new: "k \<noteq> new" if "b \<in> dirs" "k \<in> set (kids b)" for b k
    using inv that dirs_new by (auto simp: tree_inv_def dir_ok_def)
  have names: "map (name_of s') (kids b) = map (name_of s) (kids b)" if "b \<in> dirs" for b
    using kid_new [OF that] F(1) by simp
  have dev_new: "k \<noteq> new" if "k \<in> set (g_device_list s)" for k
    using inv that fresh by (auto simp: tree_inv_def devices_ok_def named_node_def)
  have old: "dir_ok s' (insert new dirs) b (?kids b)" if b: "b \<in> dirs" for b
  proof -
    have o: "dir_ok s dirs b (kids b)" using inv b by (simp add: tree_inv_def)
    then obtain d where d: "fs_nodes s b = Some d" "has_type d FT_DIRECTORY" "nd_finddir d = Fn_rootfs"
        "nd_mkdir d = Fn_rootfs" "is_mounted d \<longrightarrow> mount_point d = g_dev_root s"
      by (auto simp: dir_ok_def)
    obtain d' where d': "fs_nodes s' b = Some d'" "links_off d' = links_off d"
      using relinked_node [OF r dirs_new [OF b] d(1)] by blast
    note L = links_off_eq [OF d'(2)]
    have s: "sib_chain (fs_nodes s') (first_child d') (?kids b)"
      using ch others b d'(1) dirs_new [OF b] by (cases "b = a") auto
    have k: "set (?kids b) \<subseteq> insert new dirs" "\<forall>k \<in> set (?kids b). named_node s' b k"
      using o named kid_new [OF b] F(4) dirs_new [OF b] by (cases "b = a"; auto simp: dir_ok_def)+
    have dist: "distinct (map (name_of s') (?kids b))"
    proof (cases "b = a")
      case True
      have "c \<notin> set (map (name_of s') (kids a))" unfolding names [OF a(1)] using c(2) by simp
      moreover have "distinct (map (name_of s') (kids a))" unfolding names [OF a(1)] using o True by (simp add: dir_ok_def)
      ultimately show ?thesis using True nn a(2) by simp
    next
      case False
      have "distinct (map (name_of s') (kids b))" unfolding names [OF b] using o by (simp add: dir_ok_def)
      then show ?thesis using False dirs_new [OF b] by simp
    qed
    show ?thesis
      unfolding dir_ok_def using o d d' L s k dist G(2) by (auto simp: dir_ok_def)
  qed
  have new: "dir_ok s' (insert new dirs) new (?kids new)"
    using dn a(3) by (simp add: dir_ok_def rootfs_directory_def zero_node_def has_type_def is_mounted_def)
  have devs: "devices_ok s'"
  proof -
    have o: "devices_ok s" using inv by (simp add: tree_inv_def)
    have m: "map (name_of s') (g_device_list s) = map (name_of s) (g_device_list s)" using dev_new F(1) by simp
    have "\<exists>d. fs_nodes s' k = Some d \<and> \<not> has_type d FT_DIRECTORY \<and> \<not> is_mounted d" if k: "k \<in> set (g_device_list s)" for k
    proof -
      obtain d where d: "fs_nodes s k = Some d" "\<not> has_type d FT_DIRECTORY" "\<not> is_mounted d"
        using o k by (auto simp: devices_ok_def)
      then show ?thesis using relinked_node [OF r dev_new [OF k] d(1)] links_off_eq by metis
    qed
    moreover have "distinct (map (name_of s') (g_device_list s))" unfolding m using o by (simp add: devices_ok_def)
    ultimately show ?thesis using o G F(4) dev_new by (simp add: devices_ok_def)
  qed
  have nomount: "\<not> is_mounted_at s' new"
    using dn by (simp add: is_mounted_at_def is_mounted_def rootfs_directory_def zero_node_def)
  have droot: "dev_root_ok s'" if "b \<in> insert new dirs" "is_mounted_at s' b" for b
  proof -
    have "b \<in> dirs" "is_mounted_at s b" using that nomount F(3) by (auto dest: dirs_new)
    then have "dev_root_ok s" using inv unfolding tree_inv_def by blast
    then obtain d where "g_dev_root s \<noteq> 0" "fs_nodes s (g_dev_root s) = Some d" "nd_finddir d = Fn_devfs" "nd_mkdir d = Fn_null"
      by (auto simp: dev_root_ok_def)
    moreover from relinked_node [OF r dev [symmetric] calculation(2)]
    obtain d' where "fs_nodes s' (g_dev_root s) = Some d'" "links_off d' = links_off d" by blast
    ultimately show ?thesis using G(2) links_off_eq [of d' d] by (simp add: dev_root_ok_def)
  qed
  have root: "g_fs_root s \<in> dirs" using inv by (simp add: tree_inv_def)
  have rootnode: "\<exists>d. fs_nodes s' (g_fs_root s) = Some d \<and> 0 \<in> set (nd_name d)"
  proof -
    obtain d where d: "fs_nodes s (g_fs_root s) = Some d" "0 \<in> set (nd_name d)" using inv by (auto simp: tree_inv_def)
    from relinked_node [OF r dirs_new [OF root] d(1)]
    obtain d' where "fs_nodes s' (g_fs_root s) = Some d'" "links_off d' = links_off d" by blast
    then show ?thesis using d(2) links_off_eq(1) [of d' d] by simp
  qed
  have "new \<notin> set (g_device_list s)" using dev_new by blast
  moreover have "\<forall>b \<in> insert new dirs. dir_ok s' (insert new dirs) b (?kids b)" using old new by blast
  ultimately show ?thesis
    unfolding tree_inv_def G
    using inv root rootnode devs droot F(1,2) [OF dirs_new [OF root]] dev by (simp add: tree_inv_def)
qed
lemma last_sibling_ok:
  "sib_chain (fs_nodes s) a ks \<Longrightarrow> ks \<noteq> [] \<Longrightarrow> last_sibling s a = Some (last ks)"
proof (induction ks arbitrary: a)
  case (Cons k ks)
  obtain d where d: "a = k" "nd s k = Some d" "sib_chain (fs_nodes s) (next_sibling d) ks"
    using Cons.prems(1) by (auto simp: nd_def)
  show ?case
  proof (cases ks)
    case Nil
    then show ?thesis using d by (subst last_sibling.simps) simp
  next
    case (Cons k' ks')
    then show ?thesis using d Cons.IH by (subst last_sibling.simps) auto
  qed
qed simp

text \<open>A chain only depends on the sibling pointers of its members.\<close>

lemma sib_chain_cong:
  assumes "\<forall>k \<in> set ks. map_option next_sibling (h' k) = map_option next_sibling (h k)"
  shows "sib_chain h' a ks = sib_chain h a ks"
  using assms
proof (induction ks arbitrary: a)
  case (Cons k ks)
  then show ?case by (cases "h k"; cases "h' k") auto
qed simp

lemma sib_chain_snoc:
  assumes "sib_chain h a ks" and "ks \<noteq> []" and "distinct ks" and "new \<notin> set ks" and "new \<noteq> 0"
    and "h' new = Some dn" and "next_sibling dn = 0" and "h (last ks) = Some dl"
    and "h' (last ks) = Some (dl\<lparr>next_sibling := new\<rparr>)"
    and "\<forall>k \<in> set (butlast ks). h' k = h k"
  shows "sib_chain h' a (ks @ [new])"
  using assms
proof (induction ks arbitrary: a)
  case (Cons k ks)
  show ?case
  proof (cases "ks = []")
    case True
    then show ?thesis using Cons.prems by simp
  next
    case False
    obtain d where d: "h k = Some d" "sib_chain h (next_sibling d) ks" "a = k" "k \<noteq> 0" using Cons.prems(1) by auto
    have "sib_chain h' (next_sibling d) (ks @ [new])"
      by (rule Cons.IH [OF d(2) False]) (use Cons.prems False in auto)
    then show ?thesis using d Cons.prems(10) False by simp
  qed
next
  case Nil
  then show ?case using Nil.prems(2) by blast
qed

lemma distinct_kids: "dir_ok s dirs a ks \<Longrightarrow> distinct ks"
  by (simp add: dir_ok_def distinct_map)

lemma rootfs_mkdir_ok:
  assumes inv: "tree_inv s dirs kids" and a: "a \<in> dirs" "new \<noteq> 0" and fresh: "fs_nodes s new = None"
    and dev: "new \<noteq> g_dev_root s" and c: "plain_component c" "length c < 128" "cstr c name"
    and absent: "c \<notin> name_of s ` set (kids a)"
  shows "ok (rootfs_mkdir s a name flags new) (\<lambda>(s', r). r \<and> relinked s s' new \<and>
    (\<exists>rest. fs_nodes s' new = Some (rootfs_directory\<lparr>nd_name := c @ 0 # rest, nd_parent := a\<rparr>)) \<and>
    tree_inv s' (insert new dirs) (kids(a := kids a @ [new], new := [])))"
proof -
  have D: "dir_ok s dirs b (kids b)" if "b \<in> dirs" for b using inv that by (simp add: tree_inv_def)
  obtain d where d: "a \<noteq> 0" "fs_nodes s a = Some d" "sib_chain (fs_nodes s) (first_child d) (kids a)"
      "\<forall>k \<in> set (kids a). named_node s a k" using D [OF a(1)] by (auto simp: dir_ok_def)
  have na: "new \<noteq> a" using d(2) fresh by auto
  have kz: "0 \<notin> set (kids a)" using d(4) by (auto simp: named_node_def)
  have none: "find_sibling s (first_child d) name = Some 0"
    using find_sibling_ok [OF d(3,4) c(3)] pick_0 [OF kz, of s c] absent by simp
  have cn: "c \<noteq> []" using c(1) by (simp add: plain_component_def)
  let ?dn = "rootfs_directory\<lparr>nd_name := c @ 0 # drop (Suc (length c)) (nd_name zero_node), nd_parent := a\<rparr>"
  have cp: "strcpy (nd_name zero_node) name = Some (c @ 0 # drop (Suc (length c)) (nd_name zero_node), length c)"
    by (rule strcpy_cstr [OF c(3) cn]) (use c(2) in \<open>simp add: zero_node_def\<close>)
  let ?s1 = "put_nd s new ?dn"
  have n1: "nd s a = Some d" "nd ?s1 a = Some d" using d(1,2) na by (simp_all add: nd_def put_nd_def)
  have kid_new: "new \<notin> set (kids b)" if "b \<in> dirs" for b
    using D [OF that] fresh by (auto simp: dir_ok_def named_node_def)
  have dn0: "first_child ?dn = 0" "next_sibling ?dn = 0" by (simp_all add: rootfs_directory_def zero_node_def)
  have ln: "length (c @ 0 # drop (Suc (length c)) (nd_name zero_node)) = 128" using c(2) by (simp add: zero_node_def)
  have fin: "tree_inv s' (insert new dirs) (kids(a := kids a @ [new], new := []))"
    if r: "relinked s s' new" and dn: "fs_nodes s' new = Some ?dn"
      and ch: "\<forall>d. fs_nodes s' a = Some d \<longrightarrow> sib_chain (fs_nodes s') (first_child d) (kids a @ [new])"
      and others: "\<forall>b \<in> dirs. b \<noteq> a \<longrightarrow> (\<forall>d. fs_nodes s' b = Some d \<longrightarrow> sib_chain (fs_nodes s') (first_child d) (kids b))" for s'
    by (rule tree_insert [OF inv a(1) na a(2) fresh dev c(1) absent r dn ln ch others])
  show ?thesis
  proof (cases "kids a = []")
    case True
    then have f0: "first_child d = 0" using d(3) by simp
    let ?s' = "put_nd ?s1 a (d\<lparr>first_child := new\<rparr>)"
    have run: "rootfs_mkdir s a name flags new = Some (?s', True)"
      using n1 none cp f0 by (simp add: rootfs_mkdir_def)
    have r: "relinked s ?s' new" using d(2) na by (auto simp: relinked_def put_nd_def links_off_def)
    have dn: "fs_nodes ?s' new = Some ?dn" using na by (simp add: put_nd_def)
    have ch: "\<forall>d. fs_nodes ?s' a = Some d \<longrightarrow> sib_chain (fs_nodes ?s') (first_child d) (kids a @ [new])"
      using True dn a(2) dn0 by (auto simp: put_nd_def)
    have others: "sib_chain (fs_nodes ?s') (first_child e) (kids b)"
      if "b \<in> dirs" "b \<noteq> a" "fs_nodes ?s' b = Some e" for b e
    proof -
      have bn: "b \<noteq> new" using D [OF that(1)] fresh by (auto simp: dir_ok_def)
      then have "fs_nodes s b = Some e" using that(2,3) by (simp add: put_nd_def)
      then have o: "sib_chain (fs_nodes s) (first_child e) (kids b)" using D [OF that(1)] by (auto simp: dir_ok_def)
      have "\<forall>k \<in> set (kids b). map_option next_sibling (fs_nodes ?s' k) = map_option next_sibling (fs_nodes s k)"
        using kid_new [OF that(1)] d(2) by (auto simp: put_nd_def)
      then show ?thesis using o sib_chain_cong by blast
    qed
    show ?thesis using run r dn fin [OF r dn ch] others by auto
  next
    case False
    have f0: "first_child d \<noteq> 0" using d(3) False kz by (cases "kids a") auto
    let ?l = "last (kids a)"
    have lk: "?l \<in> set (kids a)" using False by simp
    then have l: "named_node s a ?l" using d(4) by simp
    then obtain dl where dl: "fs_nodes s ?l = Some dl" "?l \<noteq> 0" "nd_parent dl = a" by (auto simp: named_node_def)
    have lnew: "?l \<noteq> new" using lk kid_new [OF a(1)] by auto
    have c1: "sib_chain (fs_nodes ?s1) (first_child d) (kids a)"
      using d(3) sib_chain_cong [of "kids a" "fs_nodes ?s1" "fs_nodes s"] kid_new [OF a(1)] by (auto simp: put_nd_def)
    have ls: "last_sibling ?s1 (first_child d) = Some ?l" by (rule last_sibling_ok [OF c1 False])
    have nl: "nd ?s1 ?l = Some dl" using dl lnew by (simp add: nd_def put_nd_def)
    let ?s' = "put_nd ?s1 ?l (dl\<lparr>next_sibling := new\<rparr>)"
    have run: "rootfs_mkdir s a name flags new = Some (?s', True)"
      using n1 none cp f0 ls nl by (simp add: rootfs_mkdir_def)
    have r: "relinked s ?s' new" using dl(1) lnew by (auto simp: relinked_def put_nd_def links_off_def)
    have dn: "fs_nodes ?s' new = Some ?dn" using lnew by (simp add: put_nd_def)
    have al: "a \<noteq> ?l \<or> dl = d" using d(2) dl(1) by auto
    have ch: "\<forall>e. fs_nodes ?s' a = Some e \<longrightarrow> sib_chain (fs_nodes ?s') (first_child e) (kids a @ [new])"
    proof (intro allI impI)
      fix e assume e: "fs_nodes ?s' a = Some e"
      then have fc: "first_child e = first_child d" using d(2) na dl(1) by (auto simp: put_nd_def split: if_splits)
      have "?l \<notin> set (butlast (kids a))"
        using distinct_kids [OF D [OF a(1)]] append_butlast_last_id [OF False] by (metis distinct_append disjoint_insert(2) list.simps(15) not_distinct_conv_prefix)
      then have bl: "\<forall>k \<in> set (butlast (kids a)). fs_nodes ?s' k = fs_nodes s k"
        using kid_new [OF a(1)] by (auto simp: put_nd_def dest: in_set_butlastD)
      show "sib_chain (fs_nodes ?s') (first_child e) (kids a @ [new])"
        unfolding fc
        by (rule sib_chain_snoc [where h = "fs_nodes s" and dn = ?dn and dl = dl,
              OF d(3) False distinct_kids [OF D [OF a(1)]] kid_new [OF a(1)] a(2) dn dn0(2) dl(1) _ bl])
          (simp add: put_nd_def)
    qed
    have others: "sib_chain (fs_nodes ?s') (first_child e) (kids b)"
      if b: "b \<in> dirs" "b \<noteq> a" "fs_nodes ?s' b = Some e" for b e
    proof -
      have bn: "b \<noteq> new" using D [OF that(1)] fresh by (auto simp: dir_ok_def)
      then obtain e' where e': "fs_nodes s b = Some e'" "first_child e' = first_child e"
        using b(2,3) dl(1) by (auto simp: put_nd_def split: if_splits)
      then have o: "sib_chain (fs_nodes s) (first_child e) (kids b)" using D [OF that(1)] by (auto simp: dir_ok_def)
      have "k \<noteq> ?l" if k: "k \<in> set (kids b)" for k
        using D [OF \<open>b \<in> dirs\<close>] k dl(1,3) \<open>b \<noteq> a\<close> by (auto simp: dir_ok_def named_node_def)
      then have "\<forall>k \<in> set (kids b). map_option next_sibling (fs_nodes ?s' k) = map_option next_sibling (fs_nodes s k)"
        using kid_new [OF that(1)] by (auto simp: put_nd_def)
      then show ?thesis using o sib_chain_cong by blast
    qed
    show ?thesis using run r dn fin [OF r dn ch] others by auto
  qed
qed
section \<open>Paths and nodes\<close>

lemma pick_append: "pick s (as @ [b]) y = (if y \<in> name_of s ` set as then pick s as y else if y = name_of s b then b else 0)"
  by (induction as) (auto simp: pick_Nil pick_Cons)

lemma pick_cong: "\<forall>a \<in> set as. name_of s' a = name_of s a \<Longrightarrow> pick s' as y = pick s as y"
  by (induction as) (auto simp: pick_Nil pick_Cons)

lemma pick_absent: "y \<notin> name_of s ` set as \<Longrightarrow> pick s as y = 0"
  by (induction as) (auto simp: pick_Nil pick_Cons)

text \<open>The facts about one directory that the proofs below use.\<close>

lemma tree_dir:
  assumes "tree_inv s dirs kids" and "a \<in> dirs"
  shows "a \<noteq> 0" "dir_ok s dirs a (kids a)" "set (kids a) \<subseteq> dirs" "distinct (map (name_of s) (kids a))"
    "\<forall>k \<in> set (kids a). named_node s a k" "0 \<notin> set (kids a)"
  using assms by (auto simp: tree_inv_def dir_ok_def named_node_def)

lemma tree_0: "tree_inv s dirs kids \<Longrightarrow> 0 \<notin> dirs"
  by (auto simp: tree_inv_def dir_ok_def)

lemma entry_0: "tree_inv s dirs kids \<Longrightarrow> entry s dirs kids 0 y = 0"
  using tree_0 by (simp add: entry_def)

lemma walk_0: "\<forall>y. e 0 y = 0 \<Longrightarrow> walk e 0 cs = 0"
  by (cases cs) auto

lemma walk_snoc: "\<forall>y. e 0 y = 0 \<Longrightarrow> walk e a (cs @ [y]) = e (walk e a cs) y"
  by (induction cs arbitrary: a) auto

lemma entry_parent:
  assumes inv: "tree_inv s dirs kids" and x: "entry s dirs kids b c = x" "x \<in> dirs"
  shows "b \<in> dirs" "parent_of s x = b" "name_of s x = c" "x \<in> set (kids b)"
proof -
  have x0: "x \<noteq> 0" using tree_0 [OF inv] x(2) by auto
  show b: "b \<in> dirs" using x(1) x0 by (auto simp: entry_def split: if_splits)
  have "\<not> is_mounted_at s b"
  proof
    assume "is_mounted_at s b"
    then have p: "pick s (g_device_list s) c = x" using x(1) b by (simp add: entry_def)
    have "pick s (g_device_list s) c \<noteq> 0" using p x0 by simp
    from pick_in [OF this] show False using inv x(2) unfolding p by (auto simp: tree_inv_def)
  qed
  then have p: "pick s (kids b) c = x" using x(1) b by (simp add: entry_def)
  have "pick s (kids b) c \<noteq> 0" using p x0 by simp
  from pick_in [OF this] have k: "x \<in> set (kids b)" "name_of s x = c" by (simp_all add: p)
  then show "name_of s x = c" "x \<in> set (kids b)" by simp_all
  show "parent_of s x = b" using tree_dir(5) [OF inv b] k(1) by (auto simp: named_node_def parent_of_def)
qed

lemma path_unique:
  assumes inv: "tree_inv s dirs kids"
  shows "walk (entry s dirs kids) (g_fs_root s) p = x \<Longrightarrow> walk (entry s dirs kids) (g_fs_root s) q = x \<Longrightarrow> x \<in> dirs \<Longrightarrow> p = q"
proof (induction p arbitrary: q x rule: rev_induct)
  have e0: "\<forall>y. entry s dirs kids 0 y = 0" using entry_0 [OF inv] by simp
  note W = walk_snoc [where e = "entry s dirs kids", OF e0]
  have r0: "parent_of s (g_fs_root s) = 0" using inv by (simp add: tree_inv_def)
  have up: "parent_of s x \<noteq> 0" if "walk (entry s dirs kids) (g_fs_root s) (q @ [y]) = x" "x \<in> dirs" for q y x
    using entry_parent(1,2) [OF inv that(1) [unfolded W] that(2)] tree_dir(1) [OF inv] by auto
  {
    case Nil
    then have x: "x = g_fs_root s" by simp
    show ?case
    proof (cases q rule: rev_cases)
      case (snoc q' y)
      then show ?thesis using up [OF Nil.prems(2) [unfolded snoc] Nil.prems(3)] r0 x by simp
    qed simp
  next
    case (snoc c p)
    show ?case
    proof (cases q rule: rev_cases)
      case Nil
      then show ?thesis using snoc.prems up [OF snoc.prems(1,3)] r0 by auto
    next
      case (snoc q' y)
      note P = entry_parent [OF inv snoc.prems(1) [unfolded W] snoc.prems(3)]
      note Q = entry_parent [OF inv snoc.prems(2) [unfolded snoc W] snoc.prems(3)]
      have "p = q'" by (rule snoc.IH [OF P(2) [symmetric] Q(2) [symmetric]]) (use P(1,2) in simp)
      then show ?thesis using P(3) Q(3) snoc by simp
    qed
  }
qed

lemma entry_insert:
  assumes inv: "tree_inv s dirs kids" and a: "a \<in> dirs" "\<not> is_mounted_at s a" "new \<notin> dirs" and r: "relinked s s' new"
    and nn: "name_of s' new = c" "\<not> is_mounted_at s' new" and absent: "c \<notin> name_of s ` set (kids a)"
    and ndev: "new \<notin> set (g_device_list s)"
  shows "entry s' (insert new dirs) (kids(a := kids a @ [new], new := [])) x y =
    (if x = a \<and> y = c then new else entry s dirs kids x y)"
proof -
  note F = relinked_fields [OF r] and G = relinked_simps [OF r]
  have an: "a \<noteq> new" using a by auto
  have dev: "pick s' (g_device_list s) y = pick s (g_device_list s) y" for y
    by (rule pick_cong) (use F(1) ndev in metis)
  have kids: "pick s' (kids b) y = pick s (kids b) y" "name_of s' ` set (kids b) = name_of s ` set (kids b)" if "b \<in> dirs" for b y
  proof -
    have kn: "k \<noteq> new" if "k \<in> set (kids b)" for k using tree_dir(3) [OF inv \<open>b \<in> dirs\<close>] a(3) that by auto
    have "\<forall>k \<in> set (kids b). name_of s' k = name_of s k"
      by (intro ballI F(1) kn)
    then show "pick s' (kids b) y = pick s (kids b) y" "name_of s' ` set (kids b) = name_of s ` set (kids b)"
      using pick_cong [of "kids b" s' s] by simp_all
  qed
  show ?thesis
  proof (cases "x = a")
    case True
    have "\<not> is_mounted_at s' a" using F(3) [OF an] a(2) by simp
    then show ?thesis using True an a(1,2) nn(1) kids [OF a(1)] absent pick_absent [of y s "kids a"]
      by (auto simp: entry_def pick_append)
  next
    case False
    show ?thesis
    proof (cases "x = new")
      case True
      then show ?thesis using nn(2) False a(3) by (simp add: entry_def pick_Nil)
    next
      case xn: False
      then show ?thesis using False F(3) [OF xn] dev kids G(3) by (simp add: entry_def)
    qed
  qed
qed

lemma walk_insert:
  assumes inv: "tree_inv s dirs kids" and p: "walk (entry s dirs kids) (g_fs_root s) p = a" "a \<in> dirs" and new: "new \<notin> dirs"
    and absent: "entry s dirs kids a c = 0" and e0: "\<forall>y. e 0 y = 0" and newdev: "new \<notin> set (g_device_list s)"
    and e: "\<And>x y. e x y = (if x = a \<and> y = c then new else entry s dirs kids x y)"
  shows "walk e (g_fs_root s) cs = (if cs = p @ [c] then new else walk (entry s dirs kids) (g_fs_root s) cs)"
proof (induction cs rule: rev_induct)
  case Nil
  show ?case by simp
next
  have z: "\<forall>y. entry s dirs kids 0 y = 0" using entry_0 [OF inv] by simp
  case (snoc y cs)
  have step: "walk e (g_fs_root s) (cs @ [y]) = e (walk e (g_fs_root s) cs) y" by (rule walk_snoc [where e = e, OF e0])
  have step0: "walk (entry s dirs kids) (g_fs_root s) (cs @ [y]) = entry s dirs kids (walk (entry s dirs kids) (g_fs_root s) cs) y"
    by (rule walk_snoc [where e = "entry s dirs kids", OF z])
  show ?case
  proof (cases "cs = p @ [c]")
    case True
    have "e new y = 0" using e new p(2) by (auto simp: entry_def)
    moreover have "walk (entry s dirs kids) (g_fs_root s) cs = 0" using True walk_snoc [where e = "entry s dirs kids", OF z] p(1) absent by simp
    ultimately show ?thesis using step step0 snoc.IH True z by simp
  next
    case False
    have xa: "walk (entry s dirs kids) (g_fs_root s) cs = a \<longleftrightarrow> cs = p"
      using path_unique [OF inv _ p(1) p(2), of cs] p(1) by blast
    have w: "walk e (g_fs_root s) cs = walk (entry s dirs kids) (g_fs_root s) cs" using snoc.IH False by simp
    have "walk e (g_fs_root s) (cs @ [y]) = (if cs = p \<and> y = c then new else walk (entry s dirs kids) (g_fs_root s) (cs @ [y]))"
      unfolding step step0 w e [of "walk (entry s dirs kids) (g_fs_root s) cs" y] xa by (rule refl)
    then show ?thesis by simp
  qed
qed
section \<open>The path of a node\<close>

definition up_text :: "u8 list list \<Rightarrow> u8 list" where
  "up_text p = concat (map (\<lambda>c. slash # c) p)"

lemma up_text_path: "p \<noteq> [] \<Longrightarrow> path_text p = up_text p"
proof (induction p rule: join.induct)
  case (3 c d cs)
  then show ?case by (simp add: path_text_join up_text_def)
qed (simp_all add: path_text_join up_text_def)

lemma node_path_step:
  assumes "x \<noteq> 0" and "nd s x = Some d" and "strlen (Some (nd_name d)) = Some l" and "nd_parent d \<noteq> 0"
    and "2 \<le> i - sint l" and "strcpy_nonnull (drop (nat (i - sint l)) target) (nd_name d) = Some (t, j)"
    and "wr (take (nat (i - sint l)) target @ t) (nat (i - sint l - 1)) slash = Some t'"
  shows "node_path_loop s x target i = node_path_loop s (nd_parent d) t' (i - sint l - 1)"
  using assms by (subst node_path_loop.simps) (simp add: Let_def)

lemma node_path_loop_ok:
  assumes inv: "tree_inv s dirs kids"
  shows "walk (entry s dirs kids) (g_fs_root s) p = x \<Longrightarrow> x \<in> dirs \<Longrightarrow> i \<le> length target \<Longrightarrow> i < 2 ^ 31 \<Longrightarrow>
    length target < 2 ^ 31 \<Longrightarrow>
    node_path_loop s x target (int i) =
      Some (if i < length (up_text p) + 2 then None
            else Some (take (i - length (up_text p)) target @ up_text p @ drop i target, int (i - length (up_text p))))"
proof (induction p arbitrary: x i target rule: rev_induct)
  have e0: "\<forall>y. entry s dirs kids 0 y = 0" using entry_0 [OF inv] by simp
  {
    case Nil
    then have x: "x = g_fs_root s" by simp
    have x0: "x \<noteq> 0" using tree_0 [OF inv] Nil.prems(2) by auto
    obtain d where d: "nd s x = Some d" "0 \<in> set (nd_name d)" "nd_parent d = 0" "takeWhile (\<lambda>c. c \<noteq> 0) (nd_name d) = []"
      using inv x x0 by (auto simp: tree_inv_def nd_def name_of_def parent_of_def)
    then obtain r where "nd_name d = 0 # r" by (cases "nd_name d") (auto split: if_splits)
    then have l: "strlen (Some (nd_name d)) = Some 0" by (simp add: strlen_def)
    have stop: "node_path_loop s 0 t j = Some (Some (t, j))" for t j by (subst node_path_loop.simps) simp
    show ?case using x0 d(1,3) l stop by (subst node_path_loop.simps) (auto simp: up_text_def)
  next
    case (snoc c p)
    let ?b = "walk (entry s dirs kids) (g_fs_root s) p"
    have w: "entry s dirs kids ?b c = x" using snoc.prems(1) walk_snoc [where e = "entry s dirs kids", OF e0] by simp
    note P = entry_parent [OF inv w snoc.prems(2)]
    have nn: "named_node s ?b x" using tree_dir(5) [OF inv P(1)] P(4) by simp
    obtain d where d: "nd s x = Some d" using named_nd [OF nn] by blast
    have x0: "x \<noteq> 0" and b0: "?b \<noteq> 0" using nn tree_dir(1) [OF inv P(1)] by (auto simp: named_node_def)
    have cn: "cstr c (nd_name d)" using name_of_cstr [OF nn d] P(3) by simp
    have c: "c \<noteq> []" using nn P(3) by (auto simp: named_node_def plain_component_def)
    have par: "nd_parent d = ?b" using nn d x0 by (auto simp: named_node_def nd_def)
    have "length (nd_name d) = 128" using nn d x0 by (auto simp: named_node_def nd_def)
    then have "length c < 128" using cstr_len [OF cn] by simp
    then have l: "strlen (Some (nd_name d)) = Some (of_nat (length c))" "sint (of_nat (length c) :: i32) = int (length c)"
      using strlen_cstr [OF cn, of 0] sint_of_nat by (simp_all add: strlen_def)
    show ?case
    proof (cases "length c + 2 \<le> i")
      case False
      then have "int i - int (length c) < 2" by simp
      then show ?thesis using False x0 d l by (subst node_path_loop.simps) (auto simp: up_text_def)
    next
      case True
      let ?i = "i - length c"
      have ii: "int i - int (length c) = int ?i" "nat (int ?i) = ?i" "nat (int ?i - 1) = ?i - 1" "int ?i - 1 = int (?i - 1)"
        using True by auto
      have cp: "strcpy_nonnull (drop ?i target) (nd_name d) = Some (c @ drop i target, length c)"
        using strcpy_loop_cstr [OF cn c, of 0 "drop ?i target"] True snoc.prems(3) by (simp add: strcpy_nonnull_def)
      let ?t = "take (?i - 1) target @ slash # c @ drop i target"
      have wr: "wr (take ?i target @ c @ drop i target) (?i - 1) slash = Some ?t"
      proof -
        obtain k where k: "?i = Suc k" using True by (metis Suc_diff_Suc add_2_eq_Suc' diff_is_0_eq not0_implies_Suc not_less_eq_eq le_add_diff_inverse add_leD1 diff_diff_left not_numeral_le_zero le_SucI)
        have "take ?i target = take k target @ [target ! k]" using k snoc.prems(3) True by (simp add: take_Suc_conv_app_nth)
        then show ?thesis using k snoc.prems(3) True by (simp add: wr_def list_update_append)
      qed
      have step: "node_path_loop s x target (int i) = node_path_loop s ?b ?t (int (?i - 1))"
      proof -
        have "nd_parent d \<noteq> 0" "2 \<le> int i - sint (of_nat (length c) :: i32)" using par b0 l(2) True by simp_all
        from node_path_step [OF x0 d l(1) this, unfolded l(2) ii nat_int, OF cp wr]
        show ?thesis unfolding par .
      qed
      have len: "?i - 1 \<le> length ?t" "length ?t = length target" "?i - 1 < 2 ^ 31" "length ?t < 2 ^ 31"
        using snoc.prems(3,4,5) True by auto
      have u: "up_text (p @ [c]) = up_text p @ slash # c" by (simp add: up_text_def)
      have dr: "drop (?i - 1) ?t = slash # c @ drop i target" using snoc.prems(3) True by simp
      show ?thesis
        unfolding step snoc.IH [OF refl P(1) len(1,3,4)] u dr using True snoc.prems(3) by (auto simp: add.commute)
    qed
  }
qed
lemma walk_plain:
  assumes inv: "tree_inv s dirs kids"
  shows "walk (entry s dirs kids) (g_fs_root s) p = x \<Longrightarrow> x \<in> dirs \<Longrightarrow> \<forall>c \<in> set p. plain_component c"
proof (induction p arbitrary: x rule: rev_induct)
  case (snoc c p)
  have e0: "\<forall>y. entry s dirs kids 0 y = 0" using entry_0 [OF inv] by simp
  have w: "entry s dirs kids (walk (entry s dirs kids) (g_fs_root s) p) c = x"
    using snoc.prems(1) walk_snoc [where e = "entry s dirs kids", OF e0] by simp
  note P = entry_parent [OF inv w snoc.prems(2)]
  have "plain_component c" using tree_dir(5) [OF inv P(1)] P(3,4) by (auto simp: named_node_def)
  then show ?case using snoc.IH [OF refl P(1)] by simp
qed simp

lemma normalize_fit:
  "\<forall>c \<in> set cs. \<not> self_mark c \<Longrightarrow> int (length (dir_text st) + length (up_text cs) + 2) \<le> cap + 1 \<Longrightarrow>
   normalize cap st cs = Some (st @ cs)"
proof (induction cs arbitrary: st)
  case (Cons c cs)
  have "\<not> parent_mark c" using Cons.prems(1) by (cases c) (auto simp: parent_mark_def self_mark_def)
  then show ?case using Cons.IH [of "st @ [c]"] Cons.prems by (simp add: up_text_def)
qed simp

lemma fs_get_node_path_ok:
  assumes inv: "tree_inv s dirs kids" and w: "walk (entry s dirs kids) (g_fs_root s) p = x" "x \<in> dirs" and p: "p \<noteq> []"
  shows "fs_get_node_path s x buffer sz =
    (if 125 < length (path_text p) \<or> unat sz < length (path_text p) then Some (buffer, - 1)
     else if length (path_text p) < length buffer
     then Some (path_text p @ 0 # drop (Suc (length (path_text p))) buffer, of_nat (length (path_text p)))
     else None)"
proof -
  let ?t = "path_text p"
  have xr: "x \<noteq> g_fs_root s" using path_unique [OF inv _ w, of "[]"] p by auto
  have u: "up_text p = ?t" using up_text_path [OF p] by simp
  have tn: "?t \<noteq> []" by (simp add: path_text_join)
  have loop: "node_path_loop s x (replicate 128 0) 127 =
      Some (if 127 < length ?t + 2 then None
            else Some (take (127 - length ?t) (replicate 128 0) @ ?t @ drop 127 (replicate 128 0), int (127 - length ?t)))"
    using node_path_loop_ok [OF inv w, of 127 "replicate 128 0"] u by simp
  show ?thesis
  proof (cases "127 < length ?t + 2")
    case True
    then show ?thesis using xr loop by (simp add: fs_get_node_path_def)
  next
    case False
    have len: "127 - int (127 - length ?t) = int (length ?t)" using False by simp
    have un: "unat (of_nat (length ?t) :: u32) = length ?t" by (rule unat_of_nat31) (use False in simp)
    have less: "sz < of_nat (length ?t) \<longleftrightarrow> unat sz < length ?t" by (simp add: word_less_nat_alt un)
    let ?target = "take (127 - length ?t) (replicate 128 0) @ ?t @ drop 127 (replicate 128 0)"
    have d: "drop (nat (int (127 - length ?t))) ?target = ?t @ [0 :: u8]"
      using False by (simp add: min_def)
    have z: "0 \<notin> set ?t" using dir_text_0 [OF walk_plain [OF inv w]] p by (auto simp: path_text_def dest: in_set_butlastD)
    have cs: "cstr ?t (?t @ [0])" using z by (simp add: cstr_iff)
    have cp: "strcpy buffer (?t @ [0]) = (if length ?t < length buffer
        then Some (?t @ 0 # drop (Suc (length ?t)) buffer, length ?t) else None)"
      using strcpy_cstr [OF cs tn] strcpy_overrun [OF cs tn] by simp
    have "fs_get_node_path s x buffer sz =
        (if sz < of_int (127 - int (127 - length ?t)) then Some (buffer, - 1)
         else do { (b, j) \<leftarrow> strcpy buffer (drop (nat (int (127 - length ?t))) ?target);
                   Some (b, of_int (127 - int (127 - length ?t))) })"
      unfolding fs_get_node_path_def loop using xr False by (simp add: Let_def)
    then show ?thesis unfolding d len of_int_of_nat_eq less cp using False by simp
  qed
qed

section \<open>Creating a directory through \<^verbatim>\<open>fs_mkdir\<close>\<close>

lemma fs_mkdir_dir:
  assumes inv: "tree_inv s dirs kids" and a: "a \<in> dirs" "\<not> is_mounted_at s a"
  shows "fs_mkdir D s a name flags new = rootfs_mkdir s a name flags new"
proof -
  obtain d where "fs_nodes s a = Some d" "has_type d FT_DIRECTORY" "nd_mkdir d = Fn_rootfs" "a \<noteq> 0"
    using tree_dir(2) [OF inv a(1)] by (auto simp: dir_ok_def)
  moreover have "\<not> is_mounted d" using a(2) calculation(1) by (simp add: is_mounted_at_def)
  ultimately show ?thesis by (simp add: fs_mkdir_def nd_def call_mkdir_def)
qed

lemma fs_mkdir_new:
  assumes inv: "tree_inv s dirs kids" and a: "a \<in> dirs" "\<not> is_mounted_at s a" and new: "new \<noteq> 0" "fs_nodes s new = None"
    "new \<noteq> g_dev_root s" and c: "plain_component c" "length c < 128" "cstr c name" and absent: "entry s dirs kids a c = 0"
  shows "\<exists>s'. fs_mkdir D s a name flags new = Some (s', True) \<and> relinked s s' new \<and> \<not> is_mounted_at s' new \<and>
    tree_inv s' (insert new dirs) (kids(a := kids a @ [new], new := [])) \<and>
    (\<forall>x y. entry s' (insert new dirs) (kids(a := kids a @ [new], new := [])) x y =
       (if x = a \<and> y = c then new else entry s dirs kids x y)) \<and> fs_nodes s' new \<noteq> None"
proof -
  have ab: "c \<notin> name_of s ` set (kids a)"
    using absent a pick_0 [OF tree_dir(6) [OF inv a(1)], of s c] by (simp add: entry_def)
  obtain s' rest where s': "rootfs_mkdir s a name flags new = Some (s', True)" "relinked s s' new"
      "fs_nodes s' new = Some (rootfs_directory\<lparr>nd_name := c @ 0 # rest, nd_parent := a\<rparr>)"
      "tree_inv s' (insert new dirs) (kids(a := kids a @ [new], new := []))"
    using rootfs_mkdir_ok [OF inv a(1) new(1,2,3) c ab, of flags] by (auto simp: ok_iff)
  have z: "0 \<notin> set c" using c(1) by (simp add: plain_component_def)
  have nn: "name_of s' new = c" using s'(3) takeWhile_text [OF z] by (simp add: name_of_def)
  have um: "\<not> is_mounted_at s' new"
    using s'(3) by (simp add: is_mounted_at_def is_mounted_def rootfs_directory_def zero_node_def)
  have nd: "new \<notin> dirs" using inv new(2) by (auto simp: tree_inv_def dir_ok_def)
  have ndev: "new \<notin> set (g_device_list s)" using inv new(2) by (auto simp: tree_inv_def devices_ok_def named_node_def)
  have "entry s' (insert new dirs) (kids(a := kids a @ [new], new := [])) x y =
      (if x = a \<and> y = c then new else entry s dirs kids x y)" for x y
    by (rule entry_insert [OF inv a nd s'(2) nn um ab ndev])
  then show ?thesis using s' um fs_mkdir_dir [OF inv a] by auto
qed

section \<open>Starting up\<close>

text \<open>Before \<^verbatim>\<open>fs_initialize\<close> the statics of the file systems are zero.\<close>

lemma fs_boot:
  assumes z: "g_dev_root s = 0" "g_device_list s = []" "g_device_list_lock s = 0"
    and a: "distinct [0, root, a1, a2]" "fs_nodes s a1 = None" "fs_nodes s a2 = None"
  shows "\<exists>s' kids. fs_initialize D s root a1 a2 = Some s' \<and> tree_inv s' {root, a1, a2} kids \<and> g_fs_root s' = root \<and>
    g_dev_root s' = 0 \<and> g_device_list s' = [] \<and> (\<forall>b \<in> {root, a1, a2}. \<not> is_mounted_at s' b) \<and>
    (\<forall>b. b \<noteq> root \<and> b \<noteq> a1 \<and> b \<noteq> a2 \<longrightarrow> (fs_nodes s' b = None) = (fs_nodes s b = None)) \<and>
    (\<forall>x y. entry s' {root, a1, a2} kids x y =
       (if x = root \<and> y = [100, 101, 118] then a1 else if x = root \<and> y = [105, 110, 105, 116, 114, 100] then a2 else 0))"
proof -
  let ?zero = "\<lparr>fsys_name = replicate 32 0, fsys_check_mount = 0, fsys_mount = 0\<rparr>"
  let ?s = "(put_nd (s\<lparr>g_registered_filesystems := replicate FILESYSTEM_CAPACITY ?zero\<rparr>) root rootfs_directory)\<lparr>g_fs_root := root\<rparr>"
  have node: "fs_nodes ?s root = Some rootfs_directory" by (simp add: put_nd_def)
  have d: "has_type rootfs_directory FT_DIRECTORY" "nd_finddir rootfs_directory = Fn_rootfs" "nd_mkdir rootfs_directory = Fn_rootfs"
      "\<not> is_mounted rootfs_directory" "first_child rootfs_directory = 0" "nd_name rootfs_directory = replicate 128 0"
      "nd_parent rootfs_directory = 0"
    by (simp_all add: rootfs_directory_def zero_node_def has_type_def is_mounted_def)
  have nm: "name_of ?s root = []" using node d(6) by (simp add: name_of_def)
  have fld: "g_fs_root ?s = root" "g_dev_root ?s = 0" "g_device_list ?s = []" "g_device_list_lock ?s = 0"
    using z by (simp_all add: put_nd_def)
  have um: "\<not> is_mounted_at ?s root" using node d(4) by (simp add: is_mounted_at_def)
  have inv: "tree_inv ?s {root} (\<lambda>_. [])"
    using node d nm fld um a(1) by (simp add: tree_inv_def dir_ok_def devices_ok_def parent_of_def)
  have ent: "entry ?s {root} (\<lambda>_. []) x y = 0" for x y using um by (simp add: entry_def pick_Nil)
  have c1: "plain_component [100, 101, 118]" "length [100, 101, 118 :: u8] < 128" "cstr [100, 101, 118] dev_text"
    by (simp_all add: plain_component_def dev_text_def cstr_def)
  have c2: "plain_component [105, 110, 105, 116, 114, 100]" "length [105, 110, 105, 116, 114, 100 :: u8] < 128"
      "cstr [105, 110, 105, 116, 114, 100] initrd_text"
    by (simp_all add: plain_component_def initrd_text_def cstr_def)
  have f1: "fs_nodes ?s a1 = None" "a1 \<noteq> 0" "a1 \<noteq> g_dev_root ?s" using a fld by (auto simp: put_nd_def)
  obtain s1 where s1: "fs_mkdir D ?s root dev_text 0 a1 = Some (s1, True)" "relinked ?s s1 a1" "\<not> is_mounted_at s1 a1"
      "tree_inv s1 {a1, root} ((\<lambda>_. [])(root := [a1], a1 := []))"
      "\<forall>x y. entry s1 {a1, root} ((\<lambda>_. [])(root := [a1], a1 := [])) x y = (if x = root \<and> y = [100, 101, 118] then a1 else 0)"
      "fs_nodes s1 a1 \<noteq> None"
    using fs_mkdir_new [OF inv _ um f1(2,1,3) c1 ent, of D 0] unfolding ent by auto
  note G1 = relinked_simps [OF s1(2), unfolded fld]
  have um1: "\<not> is_mounted_at s1 root" using relinked_fields(3) [OF s1(2)] um a(1) by simp
  have f2: "fs_nodes s1 a2 = None" "a2 \<noteq> 0" "a2 \<noteq> g_dev_root s1"
    using a G1 relinked_none [OF s1(2), of a2] by (auto simp: put_nd_def)
  let ?k1 = "(\<lambda>_. [])(root := [a1], a1 := [])"
  have ab: "entry s1 {a1, root} ?k1 root [105, 110, 105, 116, 114, 100] = 0" unfolding s1(5) [rule_format] by simp
  obtain s2 kids where s2: "fs_mkdir D s1 root initrd_text 0 a2 = Some (s2, True)" "relinked s1 s2 a2" "\<not> is_mounted_at s2 a2"
      "tree_inv s2 {a2, a1, root} kids"
      "\<forall>x y. entry s2 {a2, a1, root} kids x y =
        (if x = root \<and> y = [105, 110, 105, 116, 114, 100] then a2 else entry s1 {a1, root} ?k1 x y)"
      "fs_nodes s2 a2 \<noteq> None"
    using fs_mkdir_new [OF s1(4) _ um1 f2(2,1,3) c2 ab, of D 0] by auto
  note G2 = relinked_simps [OF s2(2), unfolded G1]
  have run: "fs_initialize D s root a1 a2 = Some s2"
    using s1(1) s2(1) by (simp add: fs_initialize_def rootfs_initialize_def Let_def)
  have um2: "\<forall>b \<in> {root, a1, a2}. \<not> is_mounted_at s2 b"
    using relinked_fields(3) [OF s2(2)] um1 s1(3) s2(3) a(1) by auto
  have set: "{a2, a1, root} = {root, a1, a2}" by auto
  have same: "(fs_nodes s2 b = None) = (fs_nodes s b = None)" if b: "b \<noteq> root" "b \<noteq> a1" "b \<noteq> a2" for b
  proof -
    have "map_option links_off (fs_nodes s2 b) = map_option links_off (fs_nodes ?s b)"
      using s1(2) s2(2) b unfolding relinked_def by metis
    then have "(fs_nodes s2 b = None) = (fs_nodes ?s b = None)" by (metis map_option_is_None)
    then show ?thesis using b by (simp add: put_nd_def)
  qed
  show ?thesis
  proof (intro exI [of _ s2] exI [of _ kids] conjI)
    show "\<forall>x y. entry s2 {root, a1, a2} kids x y =
       (if x = root \<and> y = [100, 101, 118] then a1 else if x = root \<and> y = [105, 110, 105, 116, 114, 100] then a2 else 0)"
      using s2(5) s1(5) unfolding set by simp
  qed (use run s2(4) set G2 um2 same in auto)
qed
definition same_dir :: "filesystem_node \<Rightarrow> filesystem_node \<Rightarrow> bool" where
  "same_dir d d' \<longleftrightarrow> nd_name d' = nd_name d \<and> nd_parent d' = nd_parent d \<and> first_child d' = first_child d \<and>
     next_sibling d' = next_sibling d \<and> nd_finddir d' = nd_finddir d \<and> nd_mkdir d' = nd_mkdir d \<and>
     (has_type d FT_DIRECTORY \<longrightarrow> has_type d' FT_DIRECTORY)"

lemma tree_remount:
  assumes inv: "tree_inv s dirs kids" and g: "g_fs_root s' = g_fs_root s" "g_device_list_lock s' = 0" "g_device_list s' = []"
    and n: "\<forall>b \<in> dirs. \<forall>d. fs_nodes s b = Some d \<longrightarrow> (\<exists>d'. fs_nodes s' b = Some d' \<and> same_dir d d' \<and>
              (is_mounted d' \<longrightarrow> mount_point d' = g_dev_root s' \<and> dev_root_ok s'))"
    and r: "g_dev_root s' \<notin> dirs"
  shows "tree_inv s' dirs kids" "\<forall>b \<in> dirs. name_of s' b = name_of s b"
proof -
  have ex: "\<exists>d d'. fs_nodes s b = Some d \<and> fs_nodes s' b = Some d' \<and> same_dir d d' \<and>
      (is_mounted d' \<longrightarrow> mount_point d' = g_dev_root s' \<and> dev_root_ok s')" if b: "b \<in> dirs" for b
  proof -
    obtain d where "fs_nodes s b = Some d" using tree_dir(2) [OF inv b] by (auto simp: dir_ok_def)
    then show ?thesis using n b by blast
  qed
  have nm: "name_of s' b = name_of s b \<and> parent_of s' b = parent_of s b \<and> named_node s' q b = named_node s q b" if b: "b \<in> dirs" for b q
  proof -
    obtain d d' where d: "fs_nodes s b = Some d" "fs_nodes s' b = Some d'" "same_dir d d'" using ex [OF b] by blast
    then have "name_of s' b = name_of s b" by (simp add: name_of_def same_dir_def)
    then show ?thesis using d by (simp add: parent_of_def named_node_def same_dir_def)
  qed
  then show "\<forall>b \<in> dirs. name_of s' b = name_of s b" by simp
  have dirs: "dir_ok s' dirs b (kids b)" if b: "b \<in> dirs" for b
  proof -
    obtain d d' where d: "fs_nodes s b = Some d" "fs_nodes s' b = Some d'" "same_dir d d'"
        "is_mounted d' \<longrightarrow> mount_point d' = g_dev_root s'" using ex [OF b] by blast
    have o: "dir_ok s dirs b (kids b)" by (rule tree_dir(2) [OF inv b])
    have ks: "set (kids b) \<subseteq> dirs" by (rule tree_dir(3) [OF inv b])
    have "\<forall>k \<in> set (kids b). map_option next_sibling (fs_nodes s' k) = map_option next_sibling (fs_nodes s k)"
    proof
      fix k assume "k \<in> set (kids b)"
      then have "k \<in> dirs" using ks by blast
      then obtain e e' where "fs_nodes s k = Some e" "fs_nodes s' k = Some e'" "same_dir e e'" using ex by blast
      then show "map_option next_sibling (fs_nodes s' k) = map_option next_sibling (fs_nodes s k)" by (simp add: same_dir_def)
    qed
    then have ch: "sib_chain (fs_nodes s') (first_child d') (kids b)"
      using o d sib_chain_cong [of "kids b" "fs_nodes s'" "fs_nodes s"] by (auto simp: dir_ok_def same_dir_def)
    have mp: "map (name_of s') (kids b) = map (name_of s) (kids b)" using nm ks by auto
    have "distinct (map (name_of s') (kids b))" unfolding mp by (rule tree_dir(4) [OF inv b])
    moreover have "\<forall>k \<in> set (kids b). named_node s' b k" using tree_dir(5) [OF inv b] nm ks by blast
    ultimately show ?thesis using o d ch ks by (auto simp: dir_ok_def same_dir_def)
  qed
  have root: "g_fs_root s \<in> dirs" using inv by (simp add: tree_inv_def)
  obtain d d' where d: "fs_nodes s (g_fs_root s) = Some d" "fs_nodes s' (g_fs_root s) = Some d'" "same_dir d d'"
    using ex [OF root] by blast
  have rn: "\<exists>d. fs_nodes s' (g_fs_root s) = Some d \<and> 0 \<in> set (nd_name d)"
    using inv d by (auto simp: tree_inv_def same_dir_def)
  have mt: "dev_root_ok s'" if "b \<in> dirs" "is_mounted_at s' b" for b
    using ex [OF that(1)] that(2) by (auto simp: is_mounted_at_def)
  have "name_of s' (g_fs_root s) = []" "parent_of s' (g_fs_root s) = 0" using nm [OF root] inv by (simp_all add: tree_inv_def)
  then show "tree_inv s' dirs kids"
    unfolding tree_inv_def g using root rn dirs mt r g by (auto simp: devices_ok_def)
qed

lemma devfs_boot:
  assumes inv: "tree_inv s dirs kids" and um: "\<forall>b \<in> dirs. \<not> is_mounted_at s b" and dl: "g_device_list s = []"
    and dev: "entry s dirs kids (g_fs_root s) [100, 101, 118] = a" "a \<noteq> 0" and new: "new \<noteq> 0" "fs_nodes s new = None"
  shows "\<exists>s'. devfs_initialize D s new = Some s' \<and> tree_inv s' dirs kids \<and> g_fs_root s' = g_fs_root s \<and>
    g_dev_root s' = new \<and> g_device_list s' = [] \<and> a \<in> dirs \<and> (\<forall>b \<in> dirs. is_mounted_at s' b = (b = a)) \<and>
    (\<forall>x y. entry s' dirs kids x y = (if x = a then 0 else entry s dirs kids x y)) \<and>
    (\<forall>b. b \<noteq> new \<and> b \<noteq> a \<longrightarrow> fs_nodes s' b = fs_nodes s b)"
proof -
  have root: "g_fs_root s \<in> dirs" using inv by (simp add: tree_inv_def)
  have lock: "g_device_list_lock s = 0" using inv by (simp add: tree_inv_def devices_ok_def)
  have nnew: "new \<notin> dirs" using tree_dir(2) [OF inv, of new] new(2) by (auto simp: dir_ok_def)
  have a: "a \<in> dirs" using entry_closed [OF inv, of "g_fs_root s" "[100, 101, 118]"] dev dl by simp
  then have an: "a \<noteq> new" using nnew by auto
  let ?s1 = "(put_nd s new (zero_node\<lparr>node_type := FT_DIRECTORY\<rparr>))\<lparr>g_dev_root := new\<rparr>"
  have i1: "tree_inv ?s1 dirs kids" and n1: "\<forall>b \<in> dirs. name_of ?s1 b = name_of s b"
    using tree_remount [OF inv, of ?s1] lock dl nnew um
    by (auto simp: put_nd_def same_dir_def is_mounted_at_def)
  have um1: "\<not> is_mounted_at ?s1 b" if "b \<in> dirs" for b
    using that um nnew by (auto simp: is_mounted_at_def put_nd_def)
  have e1: "entry ?s1 dirs kids x y = entry s dirs kids x y" for x y
  proof (cases "x \<in> dirs")
    case True
    have "pick ?s1 (kids x) y = pick s (kids x) y" by (rule pick_cong) (use n1 tree_dir(3) [OF inv True] in blast)
    then show ?thesis using um um1 [OF True] True by (simp add: entry_def)
  qed (simp add: entry_def)
  have cd: "cstr [100, 101, 118] dev_text" by (simp add: cstr_def dev_text_def)
  have gr: "g_fs_root ?s1 = g_fs_root s" by (simp add: put_nd_def)
  have f: "fs_finddir D ?s1 (g_fs_root ?s1) dev_text = Some (?s1, a)"
    using fs_finddir_ok [OF i1 _ cd, of "g_fs_root ?s1" D] e1 dev(1) root gr by simp
  have dir: "\<exists>d. fs_nodes s a = Some d \<and> has_type d FT_DIRECTORY" using tree_dir(2) [OF inv a] by (auto simp: dir_ok_def)
  then obtain d where d: "fs_nodes s a = Some d" "has_type d FT_DIRECTORY" by blast
  have na: "nd ?s1 a = Some d" using d an dev(2) by (simp add: nd_def put_nd_def)
  let ?da = "d\<lparr>node_type := node_type d OR FT_MOUNT_POINT, mount_point := new\<rparr>"
  let ?s3 = "put_nd ?s1 a ?da"
  have nn: "nd ?s3 new = Some (zero_node\<lparr>node_type := FT_DIRECTORY\<rparr>)" using new(1) an by (simp add: nd_def put_nd_def)
  have "a \<in> set (kids (g_fs_root s))" "name_of s a = [100, 101, 118]"
    using entry_parent(3,4) [OF inv dev(1) a] by simp_all
  then have nmd: "named_node s (g_fs_root s) a" using tree_dir(5) [OF inv root] by simp
  have cdn: "cstr [100, 101, 118] (nd_name d)"
    using name_of_cstr [OF nmd, of d] d(1) dev(2) \<open>name_of s a = _\<close> by (simp add: nd_def)
  obtain nm where cp: "strcpy (nd_name (zero_node\<lparr>node_type := FT_DIRECTORY\<rparr>)) (nd_name d) = Some (nm, 3)"
    using strcpy_cstr [OF cdn, of "nd_name (zero_node\<lparr>node_type := FT_DIRECTORY\<rparr>)"] by (simp add: zero_node_def)
  let ?r = "(zero_node\<lparr>node_type := FT_DIRECTORY\<rparr>)\<lparr>nd_parent := nd_parent d, nd_name := nm, nd_open := Fn_devfs,
           nd_finddir := Fn_devfs, nd_readdir := Fn_devfs\<rparr>"
  define s' where "s' = (put_nd ?s3 new ?r)\<lparr>g_device_list := [], g_device_list_lock := spinlock_init\<rparr>"
  have run: "devfs_initialize D s new = Some s'"
    unfolding devfs_initialize_def Let_def f bind.bind_lunit prod.case using dev(2) na nn cp by (simp add: s'_def)
  have fld: "g_fs_root s' = g_fs_root s" "g_dev_root s' = new" "g_device_list s' = []" "g_device_list_lock s' = 0"
    by (simp_all add: s'_def put_nd_def spinlock_init_def)
  have nodes: "fs_nodes s' = (fs_nodes s)(new \<mapsto> ?r, a \<mapsto> ?da)" using an by (auto simp: s'_def put_nd_def)
  have mounted: "is_mounted ?da"
    using new(1) by (simp add: is_mounted_def has_type_def FT_MOUNT_POINT_def bit_eq_iff bit_and_iff bit_or_iff)
  have keep: "has_type ?da FT_DIRECTORY"
    using d(2) by (auto simp: has_type_def bit_eq_iff bit_and_iff bit_or_iff)
  have drok: "dev_root_ok s'" using new(1) an unfolding dev_root_ok_def fld(2) nodes by (simp add: zero_node_def)
  have m': "is_mounted_at s' b = (b = a)" if "b \<in> dirs" for b
    using um that nnew mounted by (auto simp: is_mounted_at_def nodes)
  have "\<forall>b \<in> dirs. \<forall>e. fs_nodes s b = Some e \<longrightarrow> (\<exists>d'. fs_nodes s' b = Some d' \<and> same_dir e d' \<and>
      (is_mounted d' \<longrightarrow> mount_point d' = g_dev_root s' \<and> dev_root_ok s'))"
  proof (intro ballI allI impI)
    fix b e assume b: "b \<in> dirs" "fs_nodes s b = Some e"
    have "b \<noteq> new" using b(1) nnew by auto
    moreover have "\<not> is_mounted e" using um b by (auto simp: is_mounted_at_def)
    ultimately show "\<exists>d'. fs_nodes s' b = Some d' \<and> same_dir e d' \<and>
        (is_mounted d' \<longrightarrow> mount_point d' = g_dev_root s' \<and> dev_root_ok s')"
      using b d keep drok fld(2) by (cases "b = a") (auto simp: nodes same_dir_def)
  qed
  then have i': "tree_inv s' dirs kids" and n': "\<forall>b \<in> dirs. name_of s' b = name_of s b"
    using tree_remount [OF inv fld(1,4,3)] nnew fld(2) by auto
  have "entry s' dirs kids x y = (if x = a then 0 else entry s dirs kids x y)" for x y
  proof (cases "x \<in> dirs")
    case True
    have "pick s' (kids x) y = pick s (kids x) y" by (rule pick_cong) (use n' tree_dir(3) [OF inv True] in blast)
    then show ?thesis using True m' [OF True] um fld(3) by (simp add: entry_def pick_Nil)
  qed (use a in \<open>simp add: entry_def\<close>)
  then show ?thesis using run i' fld a m' nodes by auto
qed
section \<open>Registering a device\<close>

definition device_fits :: "Device \<Rightarrow> bool" where
  "device_fits dv \<longleftrightarrow> dv_device_type dv AND FT_DIRECTORY \<noteq> FT_DIRECTORY"

lemma register_ok:
  assumes inv: "tree_inv s dirs kids" and new: "new \<noteq> 0" "fs_nodes s new = None" "new \<noteq> g_dev_root s"
    and c: "plain_component c" "length c < 128" "cstr c (dv_name dv)" and t: "device_fits dv"
  shows "ok (devfs_register_device s dv new) (\<lambda>(s', r).
    if c \<in> name_of s ` set (g_device_list s) then s' = s \<and> r = 0
    else r = new \<and> tree_inv s' dirs kids \<and> g_fs_root s' = g_fs_root s \<and> g_device_list s' = g_device_list s @ [new] \<and>
      (\<forall>x y. entry s' dirs kids x y =
         (if x \<in> dirs \<and> is_mounted_at s x \<and> y = c then new else entry s dirs kids x y)))"
proof -
  have dok: "devices_ok s" using inv by (simp add: tree_inv_def)
  have lock: "g_device_list_lock s = 0" using dok by (simp add: devices_ok_def)
  have named: "\<forall>k \<in> set (g_device_list s). named_node s (g_dev_root s) k" using dok by (simp add: devices_ok_def)
  have dz: "0 \<notin> set (g_device_list s)" using named by (auto simp: named_node_def)
  have find: "find_device s (g_device_list s) (dv_name dv) = Some (pick s (g_device_list s) c)"
    by (rule find_device_ok [OF named c(3)])
  have same: "s\<lparr>g_device_list_lock := spinlock_unlock l\<rparr> = s" for l by (rule lock_same [OF lock])
  show ?thesis
  proof (cases "c \<in> name_of s ` set (g_device_list s)")
    case True
    then have "pick s (g_device_list s) c \<noteq> 0" using pick_0 [OF dz] by simp
    then show ?thesis using True find same lock by (simp add: devfs_register_device_def)
  next
    case False
    have cn: "c \<noteq> []" and z: "0 \<notin> set c" using c(1) by (simp_all add: plain_component_def)
    let ?nm = "c @ 0 # drop (Suc (length c)) (nd_name zero_node)"
    have cp: "strcpy (nd_name zero_node) (dv_name dv) = Some (?nm, length c)"
      by (rule strcpy_cstr [OF c(3) cn]) (use c(2) in \<open>simp add: zero_node_def\<close>)
    define s' where "s' = (put_nd s new (device_node dv ?nm (g_dev_root s)))\<lparr>g_device_list := g_device_list s @ [new]\<rparr>"
    have run: "devfs_register_device s dv new = Some (s', new)"
      using lock find False pick_absent [of c s "g_device_list s"] cp same
      by (simp add: devfs_register_device_def s'_def)
    have dirs_new: "b \<noteq> new" if "b \<in> dirs" for b using tree_dir(2) [OF inv that] new(2) by (auto simp: dir_ok_def)
    have dev_new: "new \<notin> set (g_device_list s)" using named new(2) by (auto simp: named_node_def)
    have dev_ne: "x \<noteq> new" if "x \<in> set (g_device_list s)" for x using dev_new that by auto
    have nodes: "fs_nodes s' x = (if x = new then Some (device_node dv ?nm (g_dev_root s)) else fs_nodes s x)" for x
      by (simp add: s'_def put_nd_def)
    have fld: "g_fs_root s' = g_fs_root s" "g_dev_root s' = g_dev_root s" "g_device_list s' = g_device_list s @ [new]"
        "g_device_list_lock s' = 0"
      using lock by (simp_all add: s'_def put_nd_def)
    have nm: "name_of s' x = name_of s x" "parent_of s' x = parent_of s x" "is_mounted_at s' x = is_mounted_at s x"
        "named_node s' q x = named_node s q x" if "x \<noteq> new" for x q
      using that by (simp_all add: name_of_def parent_of_def is_mounted_at_def named_node_def nodes)
    have dn: "node_type (device_node dv ?nm q) = dv_device_type dv" "mount_point (device_node dv ?nm q) = 0"
        "nd_name (device_node dv ?nm q) = ?nm" "nd_parent (device_node dv ?nm q) = q" for q
      by (simp_all add: device_node_def zero_node_def)
    have nn: "name_of s' new = c" using takeWhile_text [OF z] by (simp add: name_of_def nodes dn)
    have ln: "length ?nm = 128" using c(2) by (simp add: zero_node_def)
    have nnew: "named_node s' (g_dev_root s) new" using new(1) nn c(1) ln by (simp add: named_node_def nodes dn)
    have ds: "devices_ok s'"
    proof -
      have mp: "map (name_of s') (g_device_list s) = map (name_of s) (g_device_list s)" using nm(1) dev_ne by auto
      have "distinct (map (name_of s') (g_device_list s))" unfolding mp using dok by (simp add: devices_ok_def)
      moreover have "c \<notin> set (map (name_of s') (g_device_list s))" unfolding mp using False by simp
      moreover have "\<forall>a \<in> set (g_device_list s). named_node s' (g_dev_root s) a \<and>
          (\<exists>d. fs_nodes s' a = Some d \<and> \<not> has_type d FT_DIRECTORY \<and> \<not> is_mounted d)"
        using dok nm(4) dev_ne by (auto simp: devices_ok_def nodes)
      ultimately show ?thesis using nn nnew t fld
        by (simp add: devices_ok_def nodes dn has_type_def is_mounted_def device_fits_def)
    qed
    have di: "dir_ok s' dirs b (kids b)" if b: "b \<in> dirs" for b
    proof -
      have o: "dir_ok s dirs b (kids b)" by (rule tree_dir(2) [OF inv b])
      have kn: "k \<noteq> new" if "k \<in> set (kids b)" for k using tree_dir(3) [OF inv b] dirs_new that by blast
      have mp: "map (name_of s') (kids b) = map (name_of s) (kids b)" using nm(1) kn by auto
      have ch: "sib_chain (fs_nodes s') f (kids b) = sib_chain (fs_nodes s) f (kids b)" for f
        by (rule sib_chain_cong) (use kn in \<open>simp add: nodes\<close>)
      have "distinct (map (name_of s') (kids b))" unfolding mp by (rule tree_dir(4) [OF inv b])
      moreover have "\<forall>k \<in> set (kids b). named_node s' b k" using tree_dir(5) [OF inv b] nm(4) kn by simp
      ultimately show ?thesis using o fld(2) ch dirs_new [OF b] by (simp add: dir_ok_def nodes)
    qed
    have dr: "dev_root_ok s'" if "b \<in> dirs" "is_mounted_at s' b" for b
    proof -
      have "is_mounted_at s b" using that nm(3) dirs_new by simp
      then have "dev_root_ok s" using inv that(1) unfolding tree_inv_def by blast
      then show ?thesis using new(3) fld(2) by (auto simp: dev_root_ok_def nodes)
    qed
    have root: "g_fs_root s \<in> dirs" using inv by (simp add: tree_inv_def)
    have new_dirs: "new \<notin> dirs" using dirs_new by blast
    have i': "tree_inv s' dirs kids"
      unfolding tree_inv_def fld using inv root di ds dr nm(1,2) [OF dirs_new [OF root]] dirs_new [OF root] new(3) new_dirs nodes
      by (simp add: tree_inv_def)
    have "entry s' dirs kids x y = (if x \<in> dirs \<and> is_mounted_at s x \<and> y = c then new else entry s dirs kids x y)" for x y
    proof (cases "x \<in> dirs")
      case True
      have k: "pick s' (kids x) y = pick s (kids x) y"
        by (rule pick_cong) (use tree_dir(3) [OF inv True] dirs_new nm(1) in blast)
      have d: "pick s' (g_device_list s @ [new]) y = (if y = c then new else pick s (g_device_list s) y)"
      proof -
        have im: "name_of s' ` set (g_device_list s) = name_of s ` set (g_device_list s)"
          by (rule image_cong) (use nm(1) dev_ne in auto)
        have pc: "pick s' (g_device_list s) y = pick s (g_device_list s) y"
          by (rule pick_cong) (use nm(1) dev_ne in auto)
        show ?thesis unfolding pick_append im nn pc using False pick_absent [of y s "g_device_list s"] by auto
      qed
      show ?thesis using True nm(3) [OF dirs_new [OF True]] fld(3) k d
        by (cases "y = c") (simp_all add: entry_def)
    qed (simp add: entry_def)
    then show ?thesis using run False i' fld by simp
  qed
qed
section \<open>Properties\<close>

text \<open>A machine that has just started, with three nodes and the mounted \<^verbatim>\<open>/dev\<close>.\<close>

definition sample_fs :: fs_state where
  "sample_fs = \<lparr>fs_nodes = (\<lambda>_. None), g_fs_root = 0, g_dev_root = 0, g_device_list = [], g_device_list_lock = 0,
     g_dirent = \<lparr>de_name = replicate 128 0, de_file_type = 0, de_inode = 0\<rparr>, g_registered_filesystems = [],
     g_next_filesystem_index = 0\<rparr>"

definition sample_device :: Device where
  "sample_device = \<lparr>dv_name = [116, 116, 121, 0], dv_device_type = FT_CHARACTER_DEVICE, dv_read_block = Fn_null,
     dv_write_block = Fn_null, dv_read = Fn_driver 1, dv_write = Fn_driver 2, dv_read_test_ready = Fn_null,
     dv_write_test_ready = Fn_null, dv_open = Fn_driver 3, dv_close = Fn_null, dv_ioctl = Fn_null,
     dv_ftruncate = Fn_null, dv_mmap = Fn_null, dv_munmap = Fn_null, dv_private_data = 0\<rparr>"

lemma boot_sequence:
  assumes z: "g_dev_root s = 0" "g_device_list s = []" "g_device_list_lock s = 0"
    and a: "distinct [0, root, a1, a2, a3]" "fs_nodes s a1 = None" "fs_nodes s a2 = None" "fs_nodes s a3 = None"
  shows "\<exists>s1 s2 kids. fs_initialize D s root a1 a2 = Some s1 \<and> devfs_initialize D s1 a3 = Some s2 \<and>
    tree_inv s2 {root, a1, a2} kids \<and> g_fs_root s2 = root \<and> g_dev_root s2 = a3 \<and> g_device_list s2 = [] \<and>
    (\<forall>b \<in> {root, a1, a2}. is_mounted_at s2 b = (b = a1)) \<and>
    (\<forall>b. b \<notin> {root, a1, a2, a3} \<longrightarrow> (fs_nodes s2 b = None) = (fs_nodes s b = None)) \<and>
    (\<forall>x y. entry s2 {root, a1, a2} kids x y =
       (if x = root \<and> y = [100, 101, 118] then a1 else if x = root \<and> y = [105, 110, 105, 116, 114, 100] then a2 else 0))"
proof -
  have a': "distinct [0, root, a1, a2]" using a(1) by simp
  obtain s1 kids where s1: "fs_initialize D s root a1 a2 = Some s1" "tree_inv s1 {root, a1, a2} kids" "g_fs_root s1 = root"
      "g_dev_root s1 = 0" "g_device_list s1 = []" "\<forall>b \<in> {root, a1, a2}. \<not> is_mounted_at s1 b"
      "\<forall>b. b \<noteq> root \<and> b \<noteq> a1 \<and> b \<noteq> a2 \<longrightarrow> (fs_nodes s1 b = None) = (fs_nodes s b = None)"
      "\<forall>x y. entry s1 {root, a1, a2} kids x y =
       (if x = root \<and> y = [100, 101, 118] then a1 else if x = root \<and> y = [105, 110, 105, 116, 114, 100] then a2 else 0)"
    using fs_boot [OF z a' a(2,3)] by blast
  have n3: "a3 \<noteq> 0" "fs_nodes s1 a3 = None" using a s1(7) by auto
  have e: "entry s1 {root, a1, a2} kids (g_fs_root s1) [100, 101, 118] = a1" "a1 \<noteq> 0" using s1(3,8) a(1) by auto
  obtain s2 where s2: "devfs_initialize D s1 a3 = Some s2" "tree_inv s2 {root, a1, a2} kids" "g_fs_root s2 = g_fs_root s1"
      "g_dev_root s2 = a3" "g_device_list s2 = []" "\<forall>b \<in> {root, a1, a2}. is_mounted_at s2 b = (b = a1)"
      "\<forall>x y. entry s2 {root, a1, a2} kids x y = (if x = a1 then 0 else entry s1 {root, a1, a2} kids x y)"
      "\<forall>b. b \<noteq> a3 \<and> b \<noteq> a1 \<longrightarrow> fs_nodes s2 b = fs_nodes s1 b"
    using devfs_boot [OF s1(2,6,5) e n3] by blast
  have "entry s2 {root, a1, a2} kids x y =
       (if x = root \<and> y = [100, 101, 118] then a1 else if x = root \<and> y = [105, 110, 105, 116, 114, 100] then a2 else 0)" for x y
    using s2(7) s1(8) a(1) by auto
  moreover have "\<forall>b. b \<notin> {root, a1, a2, a3} \<longrightarrow> (fs_nodes s2 b = None) = (fs_nodes s b = None)"
    using s2(8) s1(7) by simp
  ultimately show ?thesis using s1(1,3) s2(1-6) by auto
qed

definition sample_drivers :: fs_drivers where
  "sample_drivers = \<lparr>drv_readdir = (\<lambda>a s n i. Some (s, None)), drv_finddir = (\<lambda>a s n c. Some (s, 0)),
     drv_mkdir = (\<lambda>a s n c f. Some (s, False)), drv_mount = (\<lambda>a s x y f d. Some (s, False)),
     drv_stat = (\<lambda>a s n b. (b, 1))\<rparr>"

lemma sample_boot:
  "\<exists>s1 s kids. fs_initialize D sample_fs 0x1000 0x2000 0x3000 = Some s1 \<and> devfs_initialize D s1 0x4000 = Some s \<and>
    tree_inv s {0x1000, 0x2000, 0x3000} kids \<and> g_fs_root s = 0x1000 \<and> g_dev_root s = 0x4000 \<and> g_device_list s = [] \<and>
    (\<forall>b \<in> {0x1000, 0x2000, 0x3000}. is_mounted_at s b = (b = 0x2000)) \<and> fs_nodes s 0x5000 = None \<and>
    (\<forall>x y. entry s {0x1000, 0x2000, 0x3000} kids x y =
       (if x = 0x1000 \<and> y = [100, 101, 118] then 0x2000
        else if x = 0x1000 \<and> y = [105, 110, 105, 116, 114, 100] then 0x3000 else 0))"
proof -
  have "distinct [0, 0x1000, 0x2000, 0x3000, 0x4000 :: ptr]" by simp
  moreover have z: "g_dev_root sample_fs = 0" "g_device_list sample_fs = []" "g_device_list_lock sample_fs = 0"
      "fs_nodes sample_fs a = None" for a by (simp_all add: sample_fs_def)
  ultimately obtain s1 s kids where s: "fs_initialize D sample_fs 0x1000 0x2000 0x3000 = Some s1"
      "devfs_initialize D s1 0x4000 = Some s"
      "tree_inv s {0x1000, 0x2000, 0x3000} kids" "g_fs_root s = 0x1000" "g_dev_root s = 0x4000" "g_device_list s = []"
      "\<forall>b \<in> {0x1000, 0x2000, 0x3000}. is_mounted_at s b = (b = 0x2000)"
      "\<forall>b. b \<notin> {0x1000, 0x2000, 0x3000, 0x4000} \<longrightarrow> (fs_nodes s b = None) = (fs_nodes sample_fs b = None)"
      "\<forall>x y. entry s {0x1000, 0x2000, 0x3000} kids x y =
       (if x = 0x1000 \<and> y = [100, 101, 118] then 0x2000
        else if x = 0x1000 \<and> y = [105, 110, 105, 116, 114, 100] then 0x3000 else 0)"
    using boot_sequence [OF z(1,2,3) _ z(4,4,4), of "0x1000" "0x2000" "0x3000" "0x4000" D] by blast
  have "fs_nodes s 0x5000 = None" using s(8) z(4) by simp
  then show ?thesis using s by blast
qed


text \<open>The path \<^verbatim>\<open>/dev\<close> after start-up.\<close>

lemma components_dev: "components [47, 100, 101, 118] = [[100, 101, 118]]"
  using components_token [of "[100, 101, 118]" "[]"] by (simp add: components_slash plain_component_def)



text \<open>
  C13: a directory can be named and found again: \<^verbatim>\<open>fs_get_node_path\<close> writes the path of a directory whose
  path has at most 125 characters, and \<^verbatim>\<open>fs_get_node\<close> of the text it wrote is that directory,
  when no name on the way is too long for the lookup or hidden by a dot.
\<close>

theorem fs_node_path_roundtrip:
  assumes inv: "tree_inv s dirs kids" and w: "walk (entry s dirs kids) (g_fs_root s) p = x" "x \<in> dirs" "p \<noteq> []"
    and names: "\<forall>c \<in> set p. length c < 64 \<and> \<not> self_mark c" and fits: "length (path_text p) \<le> 125"
    and buf: "length (path_text p) \<le> unat sz" "length (path_text p) < length buffer"
  shows "\<exists>b. fs_get_node_path s x buffer sz = Some (b, of_nat (length (path_text p))) \<and> cstr (path_text p) b \<and>
    fs_get_node D s b = Some (s, x)"
proof -
  let ?t = "path_text p" let ?b = "?t @ 0 # drop (Suc (length ?t)) buffer"
  have g: "fs_get_node_path s x buffer sz = Some (?b, of_nat (length ?t))"
    using fs_get_node_path_ok [OF inv w, of buffer sz] fits buf by simp
  have plain: "\<forall>c \<in> set p. plain_component c" by (rule walk_plain [OF inv w(1,2)])
  have t: "?t = slash # join p" by (rule path_text_join)
  have z: "0 \<notin> set ?t" using dir_text_0 [OF plain] w(3) by (auto simp: path_text_def dest: in_set_butlastD)
  have c: "cstr ?t ?b" using z by (simp add: cstr_iff)
  have comps: "components (slash # join p) = p" using components_path_text [OF plain] t by simp
  have n: "normalize 256 [] p = Some p"
    using normalize_fit [of p "[]" 256] names fits up_text_path [OF w(3)] by simp
  have "length (join p) < 2 ^ 31 - 1" using fits t by simp
  from fs_get_node_ok [OF inv c [unfolded t] this] names
  have "fs_get_node D s ?b = Some (s, x)" using comps n w(1) t by (simp add: lookup_text_def)
  then show ?thesis using g c by blast
qed

text \<open>\<^verbatim>\<open>/initrd\<close> after start-up.\<close>

theorem fs_node_path_roundtrip_witness:
  "\<exists>s b. fs_get_node_path s 0x3000 (replicate 16 0) 16 = Some (b, 7) \<and> fs_get_node sample_drivers s b = Some (s, 0x3000)"
proof -
  obtain s kids where s: "tree_inv s {0x1000, 0x2000, 0x3000} kids" "g_fs_root s = 0x1000"
      "\<forall>x y. entry s {0x1000, 0x2000, 0x3000} kids x y =
       (if x = 0x1000 \<and> y = [100, 101, 118] then 0x2000
        else if x = 0x1000 \<and> y = [105, 110, 105, 116, 114, 100] then 0x3000 else 0)"
    using sample_boot [of sample_drivers] by blast
  let ?p = "[[105, 110, 105, 116, 114, 100]]"
  have w: "walk (entry s {0x1000, 0x2000, 0x3000} kids) (g_fs_root s) ?p = 0x3000" using s(2,3) by simp
  have t: "length (path_text ?p) = 7" by (simp add: path_text_join)
  have h: "(0x3000 :: ptr) \<in> {0x1000, 0x2000, 0x3000}" "?p \<noteq> []" "\<forall>c \<in> set ?p. length c < 64 \<and> \<not> self_mark c"
      "length (path_text ?p) \<le> 125" "length (path_text ?p) \<le> unat (16 :: u32)" "length (path_text ?p) < length (replicate 16 (0 :: u8))"
    unfolding t by (simp_all add: self_mark_def)
  from fs_node_path_roundtrip [OF s(1) w h, of sample_drivers] show ?thesis unfolding t by auto
qed

text \<open>
  The tests of \<^verbatim>\<open>fs_get_node_path\<close> leave out the terminator: with a buffer of exactly as many bytes as
  the path has characters the code does not refuse but writes behind the end of the buffer.
\<close>

theorem fs_get_node_path_overrun:
  assumes "tree_inv s dirs kids" and "walk (entry s dirs kids) (g_fs_root s) p = x" and "x \<in> dirs" and "p \<noteq> []"
    and "length (path_text p) \<le> 125" and "unat sz = length (path_text p)" and "length buffer = unat sz"
  shows "fs_get_node_path s x buffer sz = None"
  using fs_get_node_path_ok [OF assms(1-4), of buffer sz] assms(5-7) by simp

theorem fs_get_node_path_overrun_witness: "\<exists>s. fs_get_node_path s 0x3000 (replicate 7 0) 7 = None \<and> g_fs_root s = 0x1000"
proof -
  obtain s kids where s: "tree_inv s {0x1000, 0x2000, 0x3000} kids" "g_fs_root s = 0x1000"
      "\<forall>x y. entry s {0x1000, 0x2000, 0x3000} kids x y =
       (if x = 0x1000 \<and> y = [100, 101, 118] then 0x2000
        else if x = 0x1000 \<and> y = [105, 110, 105, 116, 114, 100] then 0x3000 else 0)"
    using sample_boot by blast
  let ?p = "[[105, 110, 105, 116, 114, 100]]"
  have w: "walk (entry s {0x1000, 0x2000, 0x3000} kids) (g_fs_root s) ?p = 0x3000" using s(2,3) by simp
  have t: "length (path_text ?p) = 7" by (simp add: path_text_join)
  have h: "(0x3000 :: ptr) \<in> {0x1000, 0x2000, 0x3000}" "?p \<noteq> []" "length (path_text ?p) \<le> 125"
      "unat (7 :: u32) = length (path_text ?p)" "length (replicate 7 (0 :: u8)) = unat (7 :: u32)"
    unfolding t by simp_all
  from fs_get_node_path_overrun [OF s(1) w h] s(2) show ?thesis by blast
qed

text \<open>
  C36: a component of 64 or more characters overruns the array that \<^verbatim>\<open>fs_get_node\<close> copies it to, already when
  it is the first component of the path.
\<close>

theorem fs_get_node_name_overflow:
  assumes "cstr (slash # p) path" and "length p < 2 ^ 31 - 1"
    and "normalize 256 [] (components (slash # p)) = Some (c # cs)" and "64 \<le> length c"
  shows "fs_get_node D s path = None"
proof -
  obtain b where b: "fs_get_node D s path = get_node_loop D s (g_fs_root s) b 0" "cstr (slash # join (c # cs)) b" "length b = 256"
    using fs_get_node_resolved [OF assms(1,2), of D s] assms(3) by auto
  have plain: "plain_component c" using normalize_subset [OF assms(3)] components_of_path [OF assms(1)] by auto
  from drop_cstr [of "[slash]" "join (c # cs)" b] b(2) have d: "cstr (join (c # cs)) (drop (0 + 1) b)" by simp
  have "length c \<le> length (join (c # cs))" by (cases cs) simp_all
  moreover have "length (join (c # cs)) < 256" using cstr_len [OF b(2)] b(3) by simp
  ultimately have l: "length c < 2 ^ 31" by simp
  have "path_token (drop (0 + 1) b) (slash_index c cs) = None"
    using path_token_ok [OF d plain] assms(4) l by simp
  then show ?thesis using b(1) get_node_loop_step [OF d plain l, of D s "g_fs_root s"] by simp
qed

theorem fs_get_node_name_overflow_witness:
  "fs_get_node sample_drivers sample_fs (slash # replicate 64 97 @ [0]) = None"
proof -
  let ?c = "replicate 64 97 :: u8 list"
  have p: "plain_component ?c" by (simp add: plain_component_def)
  have c: "components (slash # ?c) = [?c]" using components_token [OF p, of "[]"] by (simp add: components_slash)
  have hd: "take 1 ?c = [97]" "take 2 ?c = [97, 97]" by (simp_all add: numeral_2_eq_2)
  have n: "normalize 256 [] (components (slash # ?c)) = Some [?c]"
    unfolding c using hd by (simp add: parent_mark_def self_mark_def)
  have s: "cstr (slash # ?c) (slash # ?c @ [0])" by (simp add: cstr_iff)
  have l: "length ?c < 2 ^ 31 - 1" "64 \<le> length ?c" by (simp_all only: length_replicate) simp_all
  from fs_get_node_name_overflow [OF s l(1) n l(2), of sample_drivers sample_fs] show ?thesis .
qed


section \<open>Registered file systems and file status\<close>

text \<open>The table of registered file systems holds the names registered so far.\<close>

definition fs_table :: "fs_state \<Rightarrow> u8 list list \<Rightarrow> bool" where
  "fs_table s ns \<longleftrightarrow> g_next_filesystem_index s = length ns \<and> length (g_registered_filesystems s) = FILESYSTEM_CAPACITY \<and>
     length ns \<le> FILESYSTEM_CAPACITY \<and> distinct ns \<and>
     (\<forall>i < length ns. cstr (ns ! i) (fsys_name (g_registered_filesystems s ! i)))"

lemma find_filesystem_ok:
  assumes "fs_table s ns" and "cstr nm name"
  shows "i + k = length ns \<Longrightarrow> find_filesystem (g_registered_filesystems s) name i k =
    Some (if nm \<in> set (drop i ns) then Some (LEAST j. i \<le> j \<and> j < length ns \<and> ns ! j = nm) else None)"
proof (induction k arbitrary: i)
  case (Suc k)
  have i: "i < length ns" "i < length (g_registered_filesystems s)" using Suc.prems assms(1) by (auto simp: fs_table_def)
  have c: "strcmp (fsys_name (g_registered_filesystems s ! i)) name = Some (if ns ! i = nm then 0 else 1)"
    using strcmp_cstr [OF _ assms(2), of "ns ! i"] assms(1) i(1) by (simp add: fs_table_def)
  have d: "drop i ns = ns ! i # drop (Suc i) ns" using i(1) by (rule Cons_nth_drop_Suc [symmetric])
  show ?case
  proof (cases "ns ! i = nm")
    case True
    have "(LEAST j. i \<le> j \<and> j < length ns \<and> ns ! j = nm) = i" by (rule Least_equality) (use True i in auto)
    then show ?thesis using True c d i by (simp add: rd_def)
  next
    case False
    have "(\<lambda>j. i \<le> j \<and> j < length ns \<and> ns ! j = nm) = (\<lambda>j. Suc i \<le> j \<and> j < length ns \<and> ns ! j = nm)"
      using False by (auto simp: le_Suc_eq Suc_le_eq le_less)
    then show ?thesis using False c d i Suc.IH [of "Suc i"] Suc.prems by (simp add: rd_def)
  qed
qed simp

text \<open>
  Registering file systems: a name that is taken is refused, a new one is entered while the table has
  room, and the eleventh registration writes behind the table, because the capacity is never
  tested.
\<close>

theorem fs_register_correct:
  assumes t: "fs_table s ns" and c: "cstr nm (fsys_name f)" "nm \<noteq> []" "length nm < 2 ^ 31"
  shows "if nm \<in> set ns then fs_register s f = Some (s, False)
    else if length ns < FILESYSTEM_CAPACITY then \<exists>s'. fs_register s f = Some (s', True) \<and> fs_table s' (ns @ [nm])
    else fs_register s f = None"
proof -
  have l: "strlen (Some (fsys_name f)) = Some (of_nat (length nm))" "sint (of_nat (length nm) :: i32) = int (length nm)"
    using strlen_cstr [OF c(1), of 0] sint_of_nat [OF c(3)] by (simp_all add: strlen_def)
  have find: "\<exists>r. find_filesystem (g_registered_filesystems s) (fsys_name f) 0 (g_next_filesystem_index s) = Some r \<and>
      (r = None \<longleftrightarrow> nm \<notin> set ns)"
    using find_filesystem_ok [OF t c(1), of 0 "length ns"] t by (simp add: fs_table_def)
  then obtain r where r: "find_filesystem (g_registered_filesystems s) (fsys_name f) 0 (g_next_filesystem_index s) = Some r"
      "r = None \<longleftrightarrow> nm \<notin> set ns" by blast
  have run: "fs_register s f = (if r \<noteq> None then Some (s, False)
      else do {
         tab \<leftarrow> wr (g_registered_filesystems s) (g_next_filesystem_index s) f;
         Some (s\<lparr>g_registered_filesystems := tab, g_next_filesystem_index := g_next_filesystem_index s + 1\<rparr>, True)
       })"
    using l r(1) c(2) by (simp add: fs_register_def)
  show ?thesis
  proof (cases "nm \<in> set ns")
    case True
    then show ?thesis using run r(2) by simp
  next
    case new: False
    show ?thesis
    proof (cases "length ns < FILESYSTEM_CAPACITY")
      case True
      let ?s = "s\<lparr>g_registered_filesystems := (g_registered_filesystems s)[length ns := f],
          g_next_filesystem_index := length ns + 1\<rparr>"
      have "fs_register s f = Some (?s, True)" using run r(2) new True t by (simp add: fs_table_def wr_def)
      moreover have "fs_table ?s (ns @ [nm])"
        using t True new c(1) by (auto simp: fs_table_def nth_append nth_list_update less_Suc_eq)
      ultimately show ?thesis using new True by auto
    next
      case False
      then show ?thesis using run r(2) new t by (simp add: fs_table_def wr_def)
    qed
  qed
qed

text \<open>An eleventh file system.\<close>

definition sample_fsys :: "u8 \<Rightarrow> FileSystem" where
  "sample_fsys i = \<lparr>fsys_name = [102, i, 0], fsys_check_mount = 0, fsys_mount = 0\<rparr>"

definition sample_full :: fs_state where
  "sample_full = sample_fs\<lparr>g_registered_filesystems := map sample_fsys [1, 2, 3, 4, 5, 6, 7, 8, 9, 10],
     g_next_filesystem_index := 10\<rparr>"

theorem fs_register_correct_witness: "fs_register sample_full (sample_fsys 11) = None"
proof -
  let ?ns = "map (\<lambda>i. [102, i]) [1, 2, 3, 4, 5, 6, 7, 8, 9, 10 :: u8]"
  have g: "\<forall>i < length xs. cstr (map (\<lambda>i. [102, i]) xs ! i) (fsys_name (map sample_fsys xs ! i))" if "0 \<notin> set xs" for xs
    using that by (auto simp: sample_fsys_def cstr_def in_set_conv_nth)
  have "\<forall>i < 10. cstr (?ns ! i) (fsys_name (map sample_fsys [1, 2, 3, 4, 5, 6, 7, 8, 9, 10] ! i))"
    using g [of "[1, 2, 3, 4, 5, 6, 7, 8, 9, 10]"] by simp
  then have "fs_table sample_full ?ns"
    by (simp add: fs_table_def sample_full_def FILESYSTEM_CAPACITY_def)
  from fs_register_correct [OF this, of "[102, 11]" "sample_fsys 11"] show ?thesis
    by (simp add: FILESYSTEM_CAPACITY_def sample_fsys_def cstr_def)
qed

text \<open>
  \<^verbatim>\<open>fs_stat\<close> tests the types as if each were a bit of its own: a block device (3) and a socket (6)
  contain the bit of a character device (2), and a symbolic link (5) contains that of a pipe (4),
  so they are reported as character devices and as a pipe.
\<close>

theorem fs_stat_types:
  assumes "nd s a = Some n" and "nd_stat n = Fn_driver f" and "drv_stat D f s a buf = (buf', 1)"
  shows "fs_stat D s a buf = Some (buf'\<lparr>st_mode :=
      (if node_type n = FT_BLOCK_DEVICE \<or> node_type n = FT_SOCKET then S_IFCHR
       else if node_type n = FT_SYMBOLIC_LINK then S_IFIFO else stat_mode n (st_mode buf')), st_size := nd_length n\<rparr>, 0)"
  using assms by (auto simp: fs_stat_def stat_mode_def has_type_def FT_FILE_def FT_CHARACTER_DEVICE_def FT_BLOCK_DEVICE_def
      FT_PIPE_def FT_SYMBOLIC_LINK_def FT_SOCKET_def FT_DIRECTORY_def)

definition sample_disk :: filesystem_node where
  "sample_disk = zero_node\<lparr>node_type := FT_BLOCK_DEVICE, nd_stat := Fn_driver 1, nd_length := 512\<rparr>"

theorem fs_stat_types_witness:
  "fs_stat sample_drivers (put_nd sample_fs 0x1000 sample_disk) 0x1000 \<lparr>st_mode = 0, st_size = 0\<rparr> =
     Some (\<lparr>st_mode = S_IFCHR, st_size = 512\<rparr>, 0)"
proof -
  have n: "nd (put_nd sample_fs 0x1000 sample_disk) 0x1000 = Some sample_disk" "nd_stat sample_disk = Fn_driver 1"
      "drv_stat sample_drivers 1 (put_nd sample_fs 0x1000 sample_disk) 0x1000 \<lparr>st_mode = 0, st_size = 0\<rparr> =
        (\<lparr>st_mode = 0, st_size = 0\<rparr>, 1)"
    by (simp_all add: nd_def put_nd_def sample_disk_def sample_drivers_def)
  from fs_stat_types [OF n] show ?thesis by (simp add: sample_disk_def)
qed

end
