(* ===== verification/FileOps.thy ===== *)
theory FileOps
  imports FileTree
begin

text \<open>
  Open files: the functions of \<^verbatim>\<open>kernel/fs.c\<close> that call through the operations of a node. What an
  operation of a driver does to the machine is the argument \<open>C\<close>; the openers and closers of the
  kernel's own directories accept and do nothing. User memory that an operation fills or reads
  belongs to the rest of the machine, \<open>io_world\<close>, and is named by its address.
\<close>

section \<open>State\<close>

record 'w io_state =
  io_fs :: fs_state
  io_k :: kernel_state
  io_world :: 'w

record 'w file_calls =
  c_open :: "ptr \<Rightarrow> ptr \<Rightarrow> u32 \<Rightarrow> 'w io_state \<Rightarrow> ('w io_state \<times> bool) option"
  c_close :: "ptr \<Rightarrow> ptr \<Rightarrow> 'w io_state \<Rightarrow> 'w io_state option"
  c_read :: "ptr \<Rightarrow> ptr \<Rightarrow> u32 \<Rightarrow> ptr \<Rightarrow> 'w io_state \<Rightarrow> ('w io_state \<times> u32) option"
  c_write :: "ptr \<Rightarrow> ptr \<Rightarrow> u32 \<Rightarrow> ptr \<Rightarrow> 'w io_state \<Rightarrow> ('w io_state \<times> u32) option"
  c_unlink :: "ptr \<Rightarrow> ptr \<Rightarrow> u32 \<Rightarrow> 'w io_state \<Rightarrow> ('w io_state \<times> i32) option"
  c_ioctl :: "ptr \<Rightarrow> ptr \<Rightarrow> i32 \<Rightarrow> ptr \<Rightarrow> 'w io_state \<Rightarrow> ('w io_state \<times> i32) option"
  c_lseek :: "ptr \<Rightarrow> ptr \<Rightarrow> i32 \<Rightarrow> i32 \<Rightarrow> 'w io_state \<Rightarrow> ('w io_state \<times> i32) option"
  c_ftruncate :: "ptr \<Rightarrow> ptr \<Rightarrow> i32 \<Rightarrow> 'w io_state \<Rightarrow> ('w io_state \<times> i32) option"
  c_mmap :: "ptr \<Rightarrow> ptr \<Rightarrow> u32 \<Rightarrow> u32 \<Rightarrow> u32 \<Rightarrow> 'w io_state \<Rightarrow> ('w io_state \<times> ptr) option"
  c_munmap :: "ptr \<Rightarrow> ptr \<Rightarrow> ptr \<Rightarrow> u32 \<Rightarrow> 'w io_state \<Rightarrow> ('w io_state \<times> bool) option"

text \<open>\<^verbatim>\<open>file->node\<close>\<close>

definition file_node :: "'w io_state \<Rightarrow> ptr \<Rightarrow> filesystem_node option" where
  "file_node s file = do { f \<leftarrow> k_files (io_k s) file; nd (io_fs s) (f_node f) }"

section \<open>Operations on an open file\<close>

definition fs_read :: "'w file_calls \<Rightarrow> 'w io_state \<Rightarrow> ptr \<Rightarrow> u32 \<Rightarrow> ptr \<Rightarrow> ('w io_state \<times> u32) option" where
  "fs_read C s file sz buffer = do {
     n \<leftarrow> file_node s file;
     case nd_read n of Fn_driver a \<Rightarrow> c_read C a file sz buffer s | _ \<Rightarrow> Some (s, - 1)
   }"

definition fs_write :: "'w file_calls \<Rightarrow> 'w io_state \<Rightarrow> ptr \<Rightarrow> u32 \<Rightarrow> ptr \<Rightarrow> ('w io_state \<times> u32) option" where
  "fs_write C s file sz buffer = do {
     n \<leftarrow> file_node s file;
     case nd_write n of Fn_driver a \<Rightarrow> c_write C a file sz buffer s | _ \<Rightarrow> Some (s, - 1)
   }"

definition fs_unlink :: "'w file_calls \<Rightarrow> 'w io_state \<Rightarrow> ptr \<Rightarrow> u32 \<Rightarrow> ('w io_state \<times> i32) option" where
  "fs_unlink C s node flags = do {
     n \<leftarrow> nd (io_fs s) node;
     case nd_unlink n of Fn_driver a \<Rightarrow> c_unlink C a node flags s | _ \<Rightarrow> Some (s, - 1)
   }"

definition fs_ioctl :: "'w file_calls \<Rightarrow> 'w io_state \<Rightarrow> ptr \<Rightarrow> i32 \<Rightarrow> ptr \<Rightarrow> ('w io_state \<times> i32) option" where
  "fs_ioctl C s file request argp = do {
     n \<leftarrow> file_node s file;
     case nd_ioctl n of Fn_driver a \<Rightarrow> c_ioctl C a file request argp s | _ \<Rightarrow> Some (s, 0)
   }"

definition fs_lseek :: "'w file_calls \<Rightarrow> 'w io_state \<Rightarrow> ptr \<Rightarrow> i32 \<Rightarrow> i32 \<Rightarrow> ('w io_state \<times> i32) option" where
  "fs_lseek C s file offset whence = do {
     n \<leftarrow> file_node s file;
     case nd_lseek n of Fn_driver a \<Rightarrow> c_lseek C a file offset whence s | _ \<Rightarrow> Some (s, 0)
   }"

definition fs_ftruncate :: "'w file_calls \<Rightarrow> 'w io_state \<Rightarrow> ptr \<Rightarrow> i32 \<Rightarrow> ('w io_state \<times> i32) option" where
  "fs_ftruncate C s file len = do {
     n \<leftarrow> file_node s file;
     case nd_ftruncate n of Fn_driver a \<Rightarrow> c_ftruncate C a file len s | _ \<Rightarrow> Some (s, - 1)
   }"

definition fs_mmap :: "'w file_calls \<Rightarrow> 'w io_state \<Rightarrow> ptr \<Rightarrow> u32 \<Rightarrow> u32 \<Rightarrow> u32 \<Rightarrow> ('w io_state \<times> ptr) option" where
  "fs_mmap C s file sz offset flags = do {
     n \<leftarrow> file_node s file;
     case nd_mmap n of Fn_driver a \<Rightarrow> c_mmap C a file sz offset flags s | _ \<Rightarrow> Some (s, 0)
   }"

definition fs_munmap :: "'w file_calls \<Rightarrow> 'w io_state \<Rightarrow> ptr \<Rightarrow> ptr \<Rightarrow> u32 \<Rightarrow> ('w io_state \<times> bool) option" where
  "fs_munmap C s file address sz = do {
     n \<leftarrow> file_node s file;
     case nd_munmap n of Fn_driver a \<Rightarrow> c_munmap C a file address sz s | _ \<Rightarrow> Some (s, False)
   }"

section \<open>Opening and closing\<close>

definition call_open :: "'w file_calls \<Rightarrow> fs_fn \<Rightarrow> ptr \<Rightarrow> u32 \<Rightarrow> 'w io_state \<Rightarrow> ('w io_state \<times> bool) option" where
  "call_open C fn file flags s = (case fn of Fn_null \<Rightarrow> None | Fn_driver a \<Rightarrow> c_open C a file flags s | _ \<Rightarrow> Some (s, True))"

definition call_close :: "'w file_calls \<Rightarrow> fs_fn \<Rightarrow> ptr \<Rightarrow> 'w io_state \<Rightarrow> 'w io_state option" where
  "call_close C fn file s = (case fn of Fn_driver a \<Rightarrow> c_close C a file s | _ \<Rightarrow> Some s)"

definition put_file :: "'w io_state \<Rightarrow> ptr \<Rightarrow> File option \<Rightarrow> 'w io_state" where
  "put_file s a f = s\<lparr>io_k := (io_k s)\<lparr>k_files := (k_files (io_k s))(a := f)\<rparr>\<rparr>"

definition put_proc :: "'w io_state \<Rightarrow> ptr \<Rightarrow> Process \<Rightarrow> irq_state \<Rightarrow> 'w io_state" where
  "put_proc s a p irq = s\<lparr>io_k := (io_k s)\<lparr>k_procs := (k_procs (io_k s))(a \<mapsto> p), k_irq := irq\<rparr>\<rparr>"

definition fs_close :: "'w file_calls \<Rightarrow> 'w io_state \<Rightarrow> ptr \<Rightarrow> 'w io_state option" where
  "fs_close C s file = do {
     n \<leftarrow> file_node s file;
     s1 \<leftarrow> call_close C (nd_close n) file s;
     f \<leftarrow> k_files (io_k s1) file;
     p \<leftarrow> k_procs (io_k s1) (f_process f);
     let (irq, p', r) = process_remove_file (k_irq (io_k s1)) p file;
     Some (put_file (put_proc s1 (f_process f) p' irq) file None)
   }"

definition fs_open_for_process ::
  "'w file_calls \<Rightarrow> 'w io_state \<Rightarrow> ptr \<Rightarrow> ptr \<Rightarrow> u32 \<Rightarrow> ptr \<Rightarrow> ('w io_state \<times> ptr) option"
where
  "fs_open_for_process C s thread node flags new_file = do {
     process \<leftarrow> (if thread = 0 then Some 0 else map_option th_owner (get_thread (io_k s) thread));
     n0 \<leftarrow> nd (io_fs s) node;
     let target = (if is_mounted n0 then mount_point n0 else node);
     n \<leftarrow> nd (io_fs s) target;
     if nd_open n = Fn_null then Some (s, 0)
     else do {
       let f = \<lparr>f_node = target, f_process = process, f_thread = thread, f_fd = 0, f_flags = flags, f_offset = 0,
         f_private_data = 0\<rparr>;
       (s1, success) \<leftarrow> call_open C (nd_open n) new_file flags (put_file s new_file (Some f));
       if \<not> success then Some (put_file s1 new_file None, 0)
       else do {
         f1 \<leftarrow> k_files (io_k s1) new_file;
         p \<leftarrow> k_procs (io_k s1) (f_process f1);
         let (irq, p', f2, fd) = process_add_file (k_irq (io_k s1)) p new_file f1;
         let s2 = put_file (put_proc s1 (f_process f1) p' irq) new_file (Some f2);
         if sint fd < 0 then map_option (\<lambda>s3. (s3, 0)) (fs_close C s2 new_file)
         else Some (s2, new_file)
       }
     }
   }"

definition fs_open :: "'w file_calls \<Rightarrow> 'w io_state \<Rightarrow> ptr \<Rightarrow> u32 \<Rightarrow> ptr \<Rightarrow> ('w io_state \<times> ptr) option" where
  "fs_open C s node flags new_file = fs_open_for_process C s (thread_get_current (io_k s)) node flags new_file"

section \<open>What open and close rely on\<close>

text \<open>
  A driver's opener and closer may change the machine, but leave the nodes, the owners of the
  threads, the descriptor tables and the open files alone, except for the private data of the
  file they are called for.
\<close>

definition keeps_files :: "'w io_state \<Rightarrow> ptr \<Rightarrow> 'w io_state \<Rightarrow> bool" where
  "keeps_files s file s' \<longleftrightarrow> io_fs s' = io_fs s \<and> k_procs (io_k s') = k_procs (io_k s) \<and>
     (\<exists>f. \<forall>a. k_files (io_k s') a = (if a = file then map_option (\<lambda>x. x\<lparr>f_private_data := f\<rparr>) (k_files (io_k s) a)
           else k_files (io_k s) a))"

definition polite :: "'w file_calls \<Rightarrow> bool" where
  "polite C \<longleftrightarrow> (\<forall>a file flags s. \<exists>s' r. c_open C a file flags s = Some (s', r) \<and> keeps_files s file s') \<and>
     (\<forall>a file s. \<exists>s'. c_close C a file s = Some s' \<and> keeps_files s file s')"
lemma fd_add_remove:
  assumes "find_slot (\<lambda>g. g = 0) (p_fd p) = Some i" and "file \<noteq> 0" and "file \<notin> set (p_fd p)"
  shows "process_add_file irq p file f =
      (end_critical_section (begin_critical_section irq), p\<lparr>p_fd := (p_fd p)[i := file]\<rparr>, f\<lparr>f_fd := of_nat i\<rparr>, of_nat i)"
    and "process_remove_file irq2 (p\<lparr>p_fd := (p_fd p)[i := file]\<rparr>) file =
      (end_critical_section (begin_critical_section irq2), p, of_nat i)"
proof -
  show "process_add_file irq p file f =
      (end_critical_section (begin_critical_section irq), p\<lparr>p_fd := (p_fd p)[i := file]\<rparr>, f\<lparr>f_fd := of_nat i\<rparr>, of_nat i)"
    using assms(1) by (simp add: process_add_file_def)
  have i: "i < length (p_fd p)" "p_fd p ! i = 0" using assms(1) by (auto simp: find_slot_Some)
  have "p_fd p ! j \<noteq> file" if "j < length (p_fd p)" for j using assms(3) that by (metis nth_mem)
  then have "find_slot (\<lambda>g. g = file) ((p_fd p)[i := file]) = Some i" using i(1) by (auto simp: find_slot_Some)
  moreover have "(p_fd p)[i := file, i := 0] = p_fd p" using i by (metis list_update_id list_update_overwrite)
  ultimately show "process_remove_file irq2 (p\<lparr>p_fd := (p_fd p)[i := file]\<rparr>) file =
      (end_critical_section (begin_critical_section irq2), p, of_nat i)" by (simp add: process_remove_file_def)
qed

lemma io_simps [simp]:
  "io_fs (put_file s a f) = io_fs s" "io_fs (put_proc s a p irq) = io_fs s"
  "k_procs (io_k (put_file s a f)) = k_procs (io_k s)" "k_files (io_k (put_proc s a p irq)) = k_files (io_k s)"
  "k_files (io_k (put_file s a f)) = (k_files (io_k s))(a := f)"
  "k_procs (io_k (put_proc s a p irq)) = (k_procs (io_k s))(a \<mapsto> p)"
  by (simp_all add: put_file_def put_proc_def)

lemma keeps_refl: "keeps_files s file s"
proof -
  have "\<forall>a. k_files (io_k s) a = (if a = file then map_option (\<lambda>x. x\<lparr>f_private_data :=
      (case k_files (io_k s) file of None \<Rightarrow> 0 | Some f \<Rightarrow> f_private_data f)\<rparr>) (k_files (io_k s) a) else k_files (io_k s) a)"
    by (cases "k_files (io_k s) file") auto
  then show ?thesis unfolding keeps_files_def by blast
qed

lemma call_open_ok:
  assumes "polite C" and "fn \<noteq> Fn_null"
  shows "\<exists>s' r. call_open C fn file flags s = Some (s', r) \<and> keeps_files s file s'"
  using assms keeps_refl by (cases fn) (auto simp: polite_def call_open_def)

lemma call_close_ok:
  assumes "polite C"
  shows "\<exists>s'. call_close C fn file s = Some s' \<and> keeps_files s file s'"
  using assms keeps_refl by (cases fn) (auto simp: polite_def call_close_def)

text \<open>Closing a file that is not in the table leaves the table alone.\<close>

lemma fs_close_ok:
  assumes "polite C" and f: "k_files (io_k s) file = Some f" and n: "nd (io_fs s) (f_node f) = Some n"
    and p: "k_procs (io_k s) (f_process f) = Some p"
  shows "\<exists>s' irq. fs_close C s file = Some s' \<and> io_fs s' = io_fs s \<and>
    k_procs (io_k s') = (k_procs (io_k s))(f_process f \<mapsto> fst (snd (process_remove_file irq p file))) \<and>
    k_files (io_k s') = (k_files (io_k s))(file := None)"
proof -
  obtain s1 where s1: "call_close C (nd_close n) file s = Some s1" "keeps_files s file s1"
    using call_close_ok [OF assms(1)] by blast
  obtain g where g: "\<forall>a. k_files (io_k s1) a = (if a = file then map_option (\<lambda>x. x\<lparr>f_private_data := g\<rparr>) (k_files (io_k s) a)
      else k_files (io_k s) a)" "k_procs (io_k s1) = k_procs (io_k s)" "io_fs s1 = io_fs s"
    using s1(2) by (auto simp: keeps_files_def)
  have f1: "k_files (io_k s1) file = Some (f\<lparr>f_private_data := g\<rparr>)" using g(1) f by simp
  have same: "(k_files (io_k s1))(file := None) = (k_files (io_k s))(file := None)" using g(1) by auto
  obtain irq p' r where r: "process_remove_file (k_irq (io_k s1)) p file = (irq, p', r)" by (metis prod_cases3)
  have "fs_close C s file = Some (put_file (put_proc s1 (f_process f) p' irq) file None)"
    using f n s1(1) f1 g(2) p r by (simp add: fs_close_def file_node_def)
  then show ?thesis using g(2,3) same r by (auto intro!: exI [of _ "k_irq (io_k s1)"])
qed

section \<open>Properties\<close>

text \<open>
  C23: opening a file of a process, with drivers that leave the tables alone: \<^verbatim>\<open>fs_open_for_process\<close> returns;
  when it gives a file, the file has the lowest free descriptor, its entry in the table and the
  node below the mount point, and closing it restores the descriptor table and the open files;
  when it gives none, both are as before; with a full table it gives none, and with a free slot it
  always gives one for a directory of the root file system.
\<close>

theorem fs_open_close:
  assumes C: "polite C" and t: "get_thread (io_k s) thread = Some t" "thread \<noteq> 0" and p: "k_procs (io_k s) (th_owner t) = Some p"
    and n0: "nd (io_fs s) node = Some n0" and n: "nd (io_fs s) (if is_mounted n0 then mount_point n0 else node) = Some n"
    and new: "new \<noteq> 0" "new \<notin> set (p_fd p)" "k_files (io_k s) new = None" and len: "length (p_fd p) = ASTERISK_MAX_OPENED_FILES"
  shows "\<exists>s' r. fs_open_for_process C s thread node flags new = Some (s', r) \<and>
    (if r = 0 then k_procs (io_k s') = k_procs (io_k s) \<and> k_files (io_k s') = k_files (io_k s)
     else r = new \<and> (\<exists>i f. find_slot (\<lambda>g. g = 0) (p_fd p) = Some i \<and> k_files (io_k s') new = Some f \<and> f_fd f = of_nat i \<and>
         f_node f = (if is_mounted n0 then mount_point n0 else node) \<and> f_flags f = flags \<and>
         k_procs (io_k s') = (k_procs (io_k s))(th_owner t \<mapsto> p\<lparr>p_fd := (p_fd p)[i := new]\<rparr>)) \<and>
       (\<exists>s''. fs_close C s' new = Some s'' \<and> k_procs (io_k s'') = k_procs (io_k s) \<and> k_files (io_k s'') = k_files (io_k s))) \<and>
    (0 \<notin> set (p_fd p) \<longrightarrow> r = 0) \<and> (nd_open n = Fn_rootfs \<and> 0 \<in> set (p_fd p) \<longrightarrow> r = new)"
proof -
  let ?target = "if is_mounted n0 then mount_point n0 else node"
  let ?f = "\<lparr>f_node = ?target, f_process = th_owner t, f_thread = thread, f_fd = 0, f_flags = flags, f_offset = 0, f_private_data = 0\<rparr>"
  show ?thesis
  proof (cases "nd_open n = Fn_null")
    case True
    then have "fs_open_for_process C s thread node flags new = Some (s, 0)"
      using t n0 n by (simp add: fs_open_for_process_def)
    then show ?thesis using True by simp
  next
    case False
    let ?s = "put_file s new (Some ?f)"
    obtain s1 r where s1: "call_open C (nd_open n) new flags ?s = Some (s1, r)" "keeps_files ?s new s1"
      using call_open_ok [OF C False] by blast
    obtain g where g: "\<forall>a. k_files (io_k s1) a = (if a = new then Some (?f\<lparr>f_private_data := g\<rparr>) else k_files (io_k s) a)"
        "k_procs (io_k s1) = k_procs (io_k s)" "io_fs s1 = io_fs s"
      using s1(2) by (auto simp: keeps_files_def)
    have gone: "(k_files (io_k s1))(new := None) = k_files (io_k s)" using g(1) new(3) by auto
    show ?thesis
    proof (cases r)
      case False
      then have "fs_open_for_process C s thread node flags new = Some (put_file s1 new None, 0)"
        using t n0 n \<open>nd_open n \<noteq> Fn_null\<close> s1(1) by (simp add: fs_open_for_process_def)
      moreover have "nd_open n \<noteq> Fn_rootfs" using s1(1) False by (auto simp: call_open_def)
      ultimately show ?thesis using g(2) gone by simp
    next
      case True
      have f1: "k_files (io_k s1) new = Some (?f\<lparr>f_private_data := g\<rparr>)" using g(1) by simp
      have p1: "k_procs (io_k s1) (th_owner t) = Some p" using g(2) p by simp
      obtain irq p' f2 fd where add: "process_add_file (k_irq (io_k s1)) p new (?f\<lparr>f_private_data := g\<rparr>) = (irq, p', f2, fd)"
        by (metis prod_cases4)
      let ?s2 = "put_file (put_proc s1 (th_owner t) p' irq) new (Some f2)"
      have run: "fs_open_for_process C s thread node flags new =
          (if sint fd < 0 then map_option (\<lambda>s3. (s3, 0)) (fs_close C ?s2 new) else Some (?s2, new))"
        using t n0 n \<open>nd_open n \<noteq> Fn_null\<close> s1(1) True f1 p1 add by (simp add: fs_open_for_process_def)
      have files2: "k_files (io_k ?s2) new = Some f2" "(k_files (io_k ?s2))(new := None) = k_files (io_k s)"
        using gone by simp_all
      have procs2: "k_procs (io_k ?s2) (th_owner t) = Some p'" by simp
      show ?thesis
      proof (cases "find_slot (\<lambda>g. g = 0) (p_fd p)")
        case None
        then have a: "p' = p" "f2 = ?f\<lparr>f_private_data := g\<rparr>" "fd = - 1" using add by (simp_all add: process_add_file_def Let_def)
        have nof: "find_slot (\<lambda>g. g = new) (p_fd p) = None" using new(2) by (auto simp: find_slot_None)
        have f2: "f_node f2 = ?target" "f_process f2 = th_owner t" using a(2) by simp_all
        have nd2: "nd (io_fs ?s2) (f_node f2) = Some n" using n f2(1) g(3) by simp
        obtain s3 irq3 where s3: "fs_close C ?s2 new = Some s3"
            "k_procs (io_k s3) = (k_procs (io_k ?s2))(th_owner t \<mapsto> fst (snd (process_remove_file irq3 p' new)))"
            "k_files (io_k s3) = (k_files (io_k ?s2))(new := None)"
          using fs_close_ok [OF C files2(1) nd2, unfolded f2(2), OF procs2] by blast
        have "k_procs (io_k s3) = k_procs (io_k s)"
          using s3(2) a(1) nof g(2) p by (simp add: process_remove_file_def Let_def fun_upd_idem)
        moreover have "0 \<notin> set (p_fd p)" using None by (auto simp: find_slot_None)
        ultimately show ?thesis using run a(3) s3(1,3) files2(2) by simp
      next
        case (Some i)
        note AR = fd_add_remove [OF Some new(1,2)]
        have a: "p' = p\<lparr>p_fd := (p_fd p)[i := new]\<rparr>" "f2 = (?f\<lparr>f_private_data := g\<rparr>)\<lparr>f_fd := of_nat i\<rparr>" "fd = of_nat i"
          using add unfolding AR(1) prod.inject by (elim conjE; simp only:)+
        have "i < length (p_fd p)" "p_fd p ! i = 0" using Some by (auto simp: find_slot_Some)
        then have i: "i < 20" "0 \<in> set (p_fd p)" using len nth_mem [of i "p_fd p"] by (simp_all add: ASTERISK_MAX_OPENED_FILES_def)
        have pos: "\<not> sint fd < 0" using a(3) i(1) sint_of_nat [of i] by simp
        have f2: "f_node f2 = ?target" "f_process f2 = th_owner t" using a(2) by simp_all
        have nd2: "nd (io_fs ?s2) (f_node f2) = Some n" using n f2(1) g(3) by simp
        obtain s3 irq3 where s3: "fs_close C ?s2 new = Some s3"
            "k_procs (io_k s3) = (k_procs (io_k ?s2))(th_owner t \<mapsto> fst (snd (process_remove_file irq3 p' new)))"
            "k_files (io_k s3) = (k_files (io_k ?s2))(new := None)"
          using fs_close_ok [OF C files2(1) nd2, unfolded f2(2), OF procs2] by blast
        have "k_procs (io_k s3) = k_procs (io_k s)"
          using s3(2) a(1) AR(2) g(2) p by (simp add: fun_upd_idem)
        then have close: "\<exists>s''. fs_close C ?s2 new = Some s'' \<and> k_procs (io_k s'') = k_procs (io_k s) \<and> k_files (io_k s'') = k_files (io_k s)"
          using s3(1,3) files2(2) by simp
        have opened: "\<exists>i f. find_slot (\<lambda>g. g = 0) (p_fd p) = Some i \<and> k_files (io_k ?s2) new = Some f \<and> f_fd f = of_nat i \<and>
             f_node f = ?target \<and> f_flags f = flags \<and>
             k_procs (io_k ?s2) = (k_procs (io_k s))(th_owner t \<mapsto> p\<lparr>p_fd := (p_fd p)[i := new]\<rparr>)"
          using Some a(1,2) g(2) by simp
        show ?thesis using run pos new(1) close opened i(2) by auto
      qed
    qed
  qed
qed

text \<open>A thread opens the root directory.\<close>

definition quiet_calls :: "unit file_calls" where
  "quiet_calls = \<lparr>c_open = (\<lambda>a f fl s. Some (s, True)), c_close = (\<lambda>a f s. Some s), c_read = (\<lambda>a f n b s. Some (s, 0)),
     c_write = (\<lambda>a f n b s. Some (s, 0)), c_unlink = (\<lambda>a n f s. Some (s, 0)), c_ioctl = (\<lambda>a f r p s. Some (s, 0)),
     c_lseek = (\<lambda>a f o' w s. Some (s, 0)), c_ftruncate = (\<lambda>a f l s. Some (s, 0)), c_mmap = (\<lambda>a f n o' fl s. Some (s, 0)),
     c_munmap = (\<lambda>a f p n s. Some (s, False))\<rparr>"

definition sample_io :: "unit io_state" where
  "sample_io = \<lparr>io_fs = put_nd sample_fs 0x1000 rootfs_directory, io_k = sample_kernel [sample_thread 10 TS_RUN 0], io_world = ()\<rparr>"

theorem fs_open_close_witness:
  "\<exists>s' s''. fs_open_for_process quiet_calls sample_io 10 0x1000 0 0x5000 = Some (s', 0x5000) \<and>
     fs_close quiet_calls s' 0x5000 = Some s'' \<and> k_files (io_k s'') = k_files (io_k sample_io)"
proof -
  have t: "get_thread (io_k sample_io) 10 = Some (sample_thread 10 TS_RUN 0)"
    by (simp add: sample_io_def get_thread_def sample_kernel_def sample_thread_def)
  have p: "k_procs (io_k sample_io) (th_owner (sample_thread 10 TS_RUN 0)) = Some sample_process"
    by (simp add: sample_io_def sample_kernel_def sample_thread_def)
  have n0: "nd (io_fs sample_io) 0x1000 = Some rootfs_directory" by (simp add: sample_io_def nd_def put_nd_def)
  have m: "\<not> is_mounted rootfs_directory" by (simp add: rootfs_directory_def zero_node_def is_mounted_def)
  have n: "nd (io_fs sample_io) (if is_mounted rootfs_directory then mount_point rootfs_directory else 0x1000) = Some rootfs_directory"
    using n0 m by simp
  have c: "polite quiet_calls" using keeps_refl by (auto simp: polite_def quiet_calls_def)
  have h: "(10 :: ptr) \<noteq> 0" "(0x5000 :: ptr) \<noteq> 0" "0x5000 \<notin> set (p_fd sample_process)" "k_files (io_k sample_io) 0x5000 = None"
      "length (p_fd sample_process) = ASTERISK_MAX_OPENED_FILES"
    by (simp_all add: sample_process_def sample_io_def sample_kernel_def ASTERISK_MAX_OPENED_FILES_def)
  have o: "nd_open rootfs_directory = Fn_rootfs" "0 \<in> set (p_fd sample_process)"
    by (simp_all add: rootfs_directory_def sample_process_def)
  from fs_open_close [OF c t h(1) p n0 n h(2-5), of 0] o h(2) show ?thesis by auto
qed

end
