(* ===== verification/SharedMemory.thy ===== *)
theory SharedMemory
  imports Vmm Registry "HOL-Library.AList" "HOL-Library.Signed_Division" "HOL-Library.Multiset"
begin

text \<open>
  \<^verbatim>\<open>kernel/sharedmemory.c\<close>: named segments of page frames that processes map. A segment is kept with
  its address and holds the fields of its node that it uses (name and length); a segment that has
  been destroyed is no longer found, so an operation on a file that still refers to it is \<open>None\<close>.
  Addresses that \<^verbatim>\<open>kmalloc\<close> returns are arguments. The memory of the machine is that of \<open>Vmm\<close>.
\<close>

section \<open>State\<close>

record MapInfo =
  mi_process :: ptr
  mi_v_address :: u32
  mi_page_count :: u32

record SharedMemory =
  sm_node :: ptr
  sm_name :: "u8 list"
  sm_length :: u32
  physical_address_list :: "u32 list"
  mmapped_list :: "(ptr \<times> MapInfo) list"
  marked_unlink :: bool

record shm_state =
  g_shm_list :: "(ptr \<times> SharedMemory) list"
  sh_vmm :: vmm_state

definition EFAULT :: i32 where "EFAULT = 14"
definition USER_MMAP_START :: u32 where "USER_MMAP_START = 0x80000000"

text \<open>The macro on an \<^verbatim>\<open>int\<close>: a signed division, which rounds towards zero.\<close>

definition PAGE_COUNT :: "i32 \<Rightarrow> i32" where
  "PAGE_COUNT bytes = word_of_int (sint (bytes - 1) sdiv 0x1000) + 1"

text \<open>Removing the first element at an address, as \<^verbatim>\<open>list_remove_first_occurrence\<close> does.\<close>

fun remove_addr :: "ptr \<Rightarrow> (ptr \<times> 'a) list \<Rightarrow> (ptr \<times> 'a) list" where
  "remove_addr a [] = []"
| "remove_addr a (x # xs) = (if fst x = a then xs else x # remove_addr a xs)"

definition get_shm :: "shm_state \<Rightarrow> ptr \<Rightarrow> SharedMemory option" where
  "get_shm s a = map_of (g_shm_list s) a"

definition put_shm :: "shm_state \<Rightarrow> ptr \<Rightarrow> SharedMemory \<Rightarrow> shm_state" where
  "put_shm s a m = s\<lparr>g_shm_list := AList.update a m (g_shm_list s)\<rparr>"

section \<open>Destruction\<close>

definition sharedmemory_destroy :: "shm_state \<Rightarrow> ptr \<Rightarrow> shm_state" where
  "sharedmemory_destroy s a = s\<lparr>g_shm_list := remove_addr a (g_shm_list s)\<rparr>"

definition release_frames :: "vmm_state \<Rightarrow> u32 list \<Rightarrow> vmm_state" where
  "release_frames v ps = fold (\<lambda>p v. vmm_release_page_frame_4k v p) ps v"

definition sharedmemory_destroy_if_suitable :: "shm_state \<Rightarrow> ptr \<Rightarrow> shm_state option" where
  "sharedmemory_destroy_if_suitable s a = do {
     m \<leftarrow> get_shm s a;
     Some (if marked_unlink m \<and> length (mmapped_list m) = 0
           then sharedmemory_destroy (s\<lparr>sh_vmm := release_frames (sh_vmm s) (physical_address_list m)\<rparr>) a
           else s)
   }"

section \<open>Operations of a segment's node\<close>

definition sharedmemory_unlink :: "shm_state \<Rightarrow> ptr \<Rightarrow> u32 \<Rightarrow> (shm_state \<times> i32) option" where
  "sharedmemory_unlink s a flags = do {
     m \<leftarrow> get_shm s a;
     s' \<leftarrow> sharedmemory_destroy_if_suitable (put_shm s a (m\<lparr>marked_unlink := True\<rparr>)) a;
     Some (s', 0)
   }"

definition sharedmemory_ftruncate :: "shm_state \<Rightarrow> ptr \<Rightarrow> i32 \<Rightarrow> (shm_state \<times> i32) option" where
  "sharedmemory_ftruncate s a len =
     (if sint len \<le> 0 then Some (s, - 1)
      else do {
        m \<leftarrow> get_shm s a;
        if sm_length m \<noteq> 0 then Some (s, - 1)
        else do {
          (v, ps) \<leftarrow> acquire_many vmm_acquire_page_frame_4k (sh_vmm s) (nat (sint (PAGE_COUNT len)));
          Some ((put_shm s a (m\<lparr>physical_address_list := physical_address_list m @ ps,
                               sm_length := len\<rparr>))\<lparr>sh_vmm := v\<rparr>, 0)
        }
      })"

text \<open>
  \<open>mm\<close> is the bitmap \<^verbatim>\<open>mmapped_virtual_memory\<close> of the process that opened the file, \<open>process\<close> the owner of
  the current thread. The size, offset and flags of the call are not used by the code.
\<close>

definition sharedmemory_mmap ::
  "shm_state \<Rightarrow> bitmap \<Rightarrow> ptr \<Rightarrow> ptr \<Rightarrow> ptr \<Rightarrow> (shm_state \<times> bitmap \<times> u32) option"
where
  "sharedmemory_mmap s mm a process info_addr = do {
     m \<leftarrow> get_shm s a;
     let count = length (physical_address_list m);
     if count > 0 then do {
       (v, mm', result) \<leftarrow> vmm_map_memory (sh_vmm s) mm USER_MMAP_START
          (Some (physical_address_list m)) (of_nat count) False;
       let info = \<lparr>mi_process = process, mi_v_address = result, mi_page_count = of_nat count\<rparr>;
       Some ((put_shm s a (m\<lparr>mmapped_list := mmapped_list m @ [(info_addr, info)]\<rparr>))\<lparr>sh_vmm := v\<rparr>, mm', result)
     } else Some (s, mm, 0)
   }"

section \<open>Removing mappings\<close>

fun find_map :: "ptr \<Rightarrow> u32 \<Rightarrow> (ptr \<times> MapInfo) list \<Rightarrow> ptr option" where
  "find_map process address [] = None"
| "find_map process address ((b, info) # es) =
     (if mi_process info = process \<and> mi_v_address info = address then Some b
      else find_map process address es)"

fun find_shm_map :: "ptr \<Rightarrow> u32 \<Rightarrow> (ptr \<times> SharedMemory) list \<Rightarrow> (ptr \<times> ptr) option" where
  "find_shm_map process address [] = None"
| "find_shm_map process address ((a, m) # ms) =
     (case find_map process address (mmapped_list m) of
        Some b \<Rightarrow> Some (a, b)
      | None \<Rightarrow> find_shm_map process address ms)"

definition sharedmemory_unmap_if_exists :: "shm_state \<Rightarrow> ptr \<Rightarrow> u32 \<Rightarrow> (shm_state \<times> bool) option" where
  "sharedmemory_unmap_if_exists s process address =
     (case find_shm_map process address (g_shm_list s) of
        None \<Rightarrow> Some (s, False)
      | Some (a, b) \<Rightarrow> do {
          m \<leftarrow> get_shm s a;
          s' \<leftarrow> sharedmemory_destroy_if_suitable (put_shm s a (m\<lparr>mmapped_list := remove_addr b (mmapped_list m)\<rparr>)) a;
          Some (s', True)
        })"

definition mapped_addresses :: "shm_state \<Rightarrow> ptr \<Rightarrow> u32 list" where
  "mapped_addresses s process =
     concat (map (\<lambda>(a, m). map (\<lambda>(b, info). mi_v_address info)
       (filter (\<lambda>(b, info). mi_process info = process) (mmapped_list m))) (g_shm_list s))"

fun unmap_each :: "shm_state \<Rightarrow> ptr \<Rightarrow> u32 list \<Rightarrow> shm_state option" where
  "unmap_each s process [] = Some s"
| "unmap_each s process (address # rest) = do {
     (s', r) \<leftarrow> sharedmemory_unmap_if_exists s process address;
     unmap_each s' process rest
   }"

definition sharedmemory_unmap_for_process_all :: "shm_state \<Rightarrow> ptr \<Rightarrow> shm_state option" where
  "sharedmemory_unmap_for_process_all s process = unmap_each s process (mapped_addresses s process)"

section \<open>The system call that removes a mapping\<close>

text \<open>
  \<^verbatim>\<open>syscall_munmap\<close> of \<^verbatim>\<open>syscalls.c\<close>: the shared mapping at the address is forgotten first, whatever the
  length; then the pages are unmapped. \<open>mm\<close> is the bitmap of the process.
\<close>

definition syscall_munmap :: "shm_state \<Rightarrow> bitmap \<Rightarrow> ptr \<Rightarrow> u32 \<Rightarrow> i32 \<Rightarrow> (shm_state \<times> bitmap \<times> i32) option" where
  "syscall_munmap s mm process addr len =
     (if \<not> check_user_access addr then Some (s, mm, - EFAULT)
      else if addr < USER_OFFSET then Some (s, mm, - 1)
      else do {
        (s1, r) \<leftarrow> sharedmemory_unmap_if_exists s process addr;
        (v, mm', unmapped) \<leftarrow> vmm_unmap_memory (sh_vmm s1) mm addr (PAGE_COUNT len);
        Some (s1\<lparr>sh_vmm := v\<rparr>, mm', if unmapped then 0 else - 1)
      })"

section \<open>The list of segments\<close>

fun find_shm :: "u8 list \<Rightarrow> (ptr \<times> SharedMemory) list \<Rightarrow> (ptr \<times> SharedMemory) option option" where
  "find_shm name [] = Some None"
| "find_shm name (am # ms) = do {
     c \<leftarrow> strcmp name (sm_name (snd am));
     if c = 0 then Some (Some am) else find_shm name ms
   }"

definition sharedmemory_get_node :: "shm_state \<Rightarrow> u8 list \<Rightarrow> ptr option" where
  "sharedmemory_get_node s name =
     map_option (\<lambda>r. case r of None \<Rightarrow> 0 | Some (a, m) \<Rightarrow> sm_node m) (find_shm name (g_shm_list s))"

text \<open>\<^verbatim>\<open>sharedmemorydir_finddir\<close> is the same walk.\<close>

definition sharedmemorydir_finddir :: "shm_state \<Rightarrow> u8 list \<Rightarrow> ptr option" where
  "sharedmemorydir_finddir s name =
     map_option (\<lambda>r. case r of None \<Rightarrow> 0 | Some (a, m) \<Rightarrow> sm_node m) (find_shm name (g_shm_list s))"

definition sharedmemorydir_readdir :: "shm_state \<Rightarrow> u8 list \<Rightarrow> u32 \<Rightarrow> u8 list option option" where
  "sharedmemorydir_readdir s dirent_name index =
     (if unat index < length (g_shm_list s)
      then map_option (\<lambda>(d, n). Some d) (strcpy dirent_name (sm_name (snd (g_shm_list s ! unat index))))
      else Some None)"

definition sharedmemory_create :: "shm_state \<Rightarrow> ptr \<Rightarrow> ptr \<Rightarrow> u8 list \<Rightarrow> (shm_state \<times> ptr) option" where
  "sharedmemory_create s shm_addr node_addr name = do {
     node \<leftarrow> sharedmemory_get_node s name;
     if node \<noteq> 0 then Some (s, 0)
     else do {
       (nm, n) \<leftarrow> strcpy (replicate 128 0) name;
       Some (s\<lparr>g_shm_list := g_shm_list s @ [(shm_addr, \<lparr>sm_node = node_addr, sm_name = nm, sm_length = 0,
          physical_address_list = [], mmapped_list = [], marked_unlink = False\<rparr>)]\<rparr>, node_addr)
     }
   }"

definition sharedmemory_find :: "shm_state \<Rightarrow> u8 list \<Rightarrow> (ptr \<times> SharedMemory) option option" where
  "sharedmemory_find s name = find_shm name (g_shm_list s)"

definition sharedmemory_destroy_by_name :: "shm_state \<Rightarrow> u8 list \<Rightarrow> (shm_state \<times> bool) option" where
  "sharedmemory_destroy_by_name s name = do {
     r \<leftarrow> sharedmemory_find s name;
     case r of
       Some (a, m) \<Rightarrow> Some (sharedmemory_destroy s a, True)
     | None \<Rightarrow> Some (s, False)
   }"
section \<open>Frames stay in use\<close>

text \<open>Mapping pages may take frames for tables; it gives none back, whatever the state.\<close>

definition keeps_used :: "vmm_state \<Rightarrow> vmm_state \<Rightarrow> bool" where
  "keeps_used s s' \<longleftrightarrow> (\<forall>f. bm_used (vm_bitmap s) f \<longrightarrow> bm_used (vm_bitmap s') f)"

lemma keeps_used_refl [simp]: "keeps_used s s"
  by (simp add: keeps_used_def)

lemma keeps_used_trans: "keeps_used s t \<Longrightarrow> keeps_used t u \<Longrightarrow> keeps_used s u"
  by (simp add: keeps_used_def)

lemma change_pd_keeps: "keeps_used s (change_pd t pd) = keeps_used s t" "keeps_used (change_pd t pd) u = keeps_used t u"
  by (simp_all add: keeps_used_def change_pd_def)

lemma acquire_keeps: "vmm_acquire_page_frame_4k s = Some (s', p) \<Longrightarrow> keeps_used s s'"
  by (auto simp: vmm_acquire_page_frame_4k_def bind_eq_Some_conv set_pageframe_used_def Let_def keeps_used_def bm_used_def
      bit_or_iff split: if_splits)

lemma vstore_keeps: "vstore s w x = Some s' \<Longrightarrow> vm_bitmap s' = vm_bitmap s"
  by (auto simp: vstore_def pm_write_def)

lemma zero_words_keeps: "zero_words s base i n = Some s' \<Longrightarrow> vm_bitmap s' = vm_bitmap s"
  by (induction n arbitrary: s i) (auto simp: bind_eq_Some_conv dest: vstore_keeps)

lemma copy_entries_keeps: "copy_kernel_entries s pd i n = Some s' \<Longrightarrow> vm_bitmap s' = vm_bitmap s"
  by (induction n arbitrary: s i) (auto simp: bind_eq_Some_conv dest: vstore_keeps)

lemma sync_keeps: "sync_loop s a = Some s' \<Longrightarrow> vm_bitmap s' = vm_bitmap s"
proof (induction s a arbitrary: s' rule: sync_loop.induct)
  case (1 s address)
  show ?case
  proof (cases "address < KERN_PD_AREA_END")
    case True
    obtain e t where t: "vload s address = Some e"
        "(if e \<noteq> 0 then copy_kernel_entries s address 0 KERNELMEMORY_PAGE_COUNT else Some s) = Some t"
        "sync_loop t (address + PAGESIZE_4K) = Some s'"
      using 1(2) True by (subst (asm) sync_loop.simps) (auto simp: bind_eq_Some_conv)
    have "vm_bitmap s' = vm_bitmap t" using 1(1) [OF True t] .
    moreover have "vm_bitmap t = vm_bitmap s" using t(2) copy_entries_keeps by (auto split: if_splits)
    ultimately show ?thesis by simp
  next
    case False
    then show ?thesis using 1(2) by (simp add: sync_loop.simps)
  qed
qed

lemma ensure_table_keeps: "ensure_table s k fl = Some s' \<Longrightarrow> keeps_used s s'"
  by (auto simp: ensure_table_def bind_eq_Some_conv keeps_used_def split: if_splits
      dest!: acquire_keeps vstore_keeps zero_words_keeps)

lemma add_page_keeps:
  assumes "vmm_add_page_to_pd s v p fl = Some (s', r)"
  shows "keeps_used s s'"
proof -
  define kernel where "kernel = (v < KERN_HEAP_END)"
  define cr3 where "cr3 = (if kernel then vm_cr3 s else 0)"
  define s0 where "s0 = (if kernel then change_pd s KERN_PAGE_DIRECTORY else s)"
  define pdi where "pdi = unat (drop_bit 22 v)"
  define w where "w = word_at (PT_BASE pdi) (unat (drop_bit 12 v AND 0x3FF))"
  obtain s1 e where s1: "ensure_table s0 pdi fl = Some s1" "vload s1 w = Some e"
    and rest: "(if present e then Some (if cr3 \<noteq> 0 then change_pd s1 cr3 else s1, False)
      else do {
        s2 \<leftarrow> vstore s1 w (p OR (fl AND 0xFFF) OR (PG_PRESENT OR PG_WRITE));
        s4 \<leftarrow> (if kernel then vmm_sync_all_from_kernel (if cr3 \<noteq> 0 then change_pd s2 cr3 else s2)
               else Some (if cr3 \<noteq> 0 then change_pd s2 cr3 else s2));
        Some (s4, True)
      }) = Some (s', r)"
    using assms unfolding vmm_add_page_to_pd_def Let_def bind_eq_Some_conv kernel_def cr3_def s0_def pdi_def w_def by blast
  have k: "keeps_used s s1" using ensure_table_keeps [OF s1(1)] by (simp add: s0_def change_pd_keeps split: if_splits)
  have c: "vm_bitmap (change_pd t a) = vm_bitmap t" for t a by (simp add: change_pd_def)
  show ?thesis
  proof (cases "present e")
    case True
    then show ?thesis using rest k by (auto simp: change_pd_keeps split: if_splits)
  next
    case False
    then obtain s2 where s2: "vstore s1 w (p OR (fl AND 0xFFF) OR (PG_PRESENT OR PG_WRITE)) = Some s2"
        "(if kernel then vmm_sync_all_from_kernel (if cr3 \<noteq> 0 then change_pd s2 cr3 else s2)
               else Some (if cr3 \<noteq> 0 then change_pd s2 cr3 else s2)) = Some s'"
      using rest by (auto simp: bind_eq_Some_conv)
    have "vm_bitmap s' = vm_bitmap s2"
      using s2(2) sync_keeps c by (auto simp: vmm_sync_all_from_kernel_def split: if_splits)
    then show ?thesis using k vstore_keeps [OF s2(1)] by (simp add: keeps_used_def)
  qed
qed

lemma map_pages_keeps: "map_pages s mm v ps fl = Some (s', mm') \<Longrightarrow> keeps_used s s'"
proof (induction ps arbitrary: s mm v)
  case (Cons p ps)
  then show ?case by (auto simp: bind_eq_Some_conv dest!: add_page_keeps intro: keeps_used_trans)
qed simp

lemma map_memory_keeps: "vmm_map_memory s mm st ps n own = Some (s', mm', v) \<Longrightarrow> keeps_used s s'"
  by (auto simp: vmm_map_memory_def Let_def bind_eq_Some_conv split: option.splits if_splits dest!: map_pages_keeps)

lemma acquire_many_keeps: "acquire_many vmm_acquire_page_frame_4k s n = Some (s', ps) \<Longrightarrow> keeps_used s s'"
  by (induction n arbitrary: s ps) (auto simp: bind_eq_Some_conv dest!: acquire_keeps intro: keeps_used_trans)

lemma release_frames_used:
  "bm_used (vm_bitmap (release_frames v ps)) f \<longleftrightarrow> f \<notin> frame_of ` set ps \<and> bm_used (vm_bitmap v) f"
  unfolding release_frames_def by (induction ps arbitrary: v) auto
lemma release_frames_tables: "vm_pm (release_frames v ps) = vm_pm v" "vm_cr3 (release_frames v ps) = vm_cr3 v"
  unfolding release_frames_def by (induction ps arbitrary: v) simp_all

lemma acquire_Some:
  assumes "vmm_acquire_page_frame_4k s = Some (s', p)"
  shows "\<not> bm_used (vm_bitmap s) (frame_of p)" "bm_used (vm_bitmap s') f \<longleftrightarrow> f = frame_of p \<or> bm_used (vm_bitmap s) f"
proof -
  have "frames_left s"
    using assms by (auto simp: vmm_acquire_page_frame_4k_def bind_eq_Some_conv acquire_loop_ok frames_left_def split: if_splits)
  from acquire_ok [OF this] show "\<not> bm_used (vm_bitmap s) (frame_of p)"
    "bm_used (vm_bitmap s') f \<longleftrightarrow> f = frame_of p \<or> bm_used (vm_bitmap s) f"
    using assms by (auto simp: ok_iff)
qed

lemma acquire_many_Some:
  assumes "acquire_many vmm_acquire_page_frame_4k s n = Some (s', ps)"
  shows "length ps = n \<and> distinct (map frame_of ps) \<and> (\<forall>p \<in> set ps. \<not> bm_used (vm_bitmap s) (frame_of p)) \<and>
    (\<forall>f. bm_used (vm_bitmap s') f \<longleftrightarrow> f \<in> frame_of ` set ps \<or> bm_used (vm_bitmap s) f)"
  using assms
proof (induction n arbitrary: s ps)
  case (Suc n)
  then obtain s1 p qs where s1: "vmm_acquire_page_frame_4k s = Some (s1, p)"
      "acquire_many vmm_acquire_page_frame_4k s1 n = Some (s', qs)" "ps = p # qs"
    by (auto simp: bind_eq_Some_conv)
  show ?case using Suc.IH [OF s1(2)] acquire_Some [OF s1(1)] s1(3) by (auto simp: image_iff)
qed simp

section \<open>The list, taken apart\<close>

definition at_shm :: "shm_state \<Rightarrow> (ptr \<times> SharedMemory) list \<Rightarrow> ptr \<Rightarrow> SharedMemory \<Rightarrow> (ptr \<times> SharedMemory) list \<Rightarrow> bool" where
  "at_shm s xs a m ys \<longleftrightarrow> g_shm_list s = xs @ (a, m) # ys \<and> a \<notin> fst ` set xs"

lemma get_shm_at: "get_shm s a = Some m \<Longrightarrow> \<exists>xs ys. at_shm s xs a m ys"
proof -
  have "map_of L a = Some m \<Longrightarrow> \<exists>xs ys. L = xs @ (a, m) # ys \<and> a \<notin> fst ` set xs" for L
  proof (induction L)
    case (Cons x L)
    show ?case
    proof (cases "fst x = a")
      case True
      then have "x # L = [] @ (a, m) # L" "a \<notin> fst ` set []" using Cons.prems by (cases x, simp)+
      then show ?thesis by blast
    next
      case False
      then obtain xs ys where "L = xs @ (a, m) # ys" "a \<notin> fst ` set xs" using Cons by (cases x) auto
      then have "x # L = (x # xs) @ (a, m) # ys" "a \<notin> fst ` set (x # xs)" using False by auto
      then show ?thesis by blast
    qed
  qed simp
  then show "get_shm s a = Some m \<Longrightarrow> \<exists>xs ys. at_shm s xs a m ys" by (simp add: get_shm_def at_shm_def)
qed

lemma update_middle: "a \<notin> fst ` set xs \<Longrightarrow> AList.update a m' (xs @ (a, m) # ys) = xs @ (a, m') # ys"
  by (induction xs) auto

lemma remove_middle: "a \<notin> fst ` set xs \<Longrightarrow> remove_addr a (xs @ (a, m) # ys) = xs @ ys"
  by (induction xs) auto

lemma map_of_middle: "a \<notin> fst ` set xs \<Longrightarrow> map_of (xs @ (a, m) # ys) a = Some m"
  by (induction xs) auto

lemma at_shm_simps:
  assumes "at_shm s xs a m ys"
  shows "get_shm s a = Some m" "g_shm_list (put_shm s a m') = xs @ (a, m') # ys" "at_shm (put_shm s a m') xs a m' ys"
    "g_shm_list (sharedmemory_destroy s a) = xs @ ys" "sh_vmm (put_shm s a m') = sh_vmm s" "at_shm (s\<lparr>sh_vmm := v\<rparr>) xs a m ys"
  using assms by (simp_all add: at_shm_def get_shm_def put_shm_def sharedmemory_destroy_def update_middle remove_middle map_of_middle del: map_of_append)

section \<open>The invariant\<close>

definition seg_frames :: "SharedMemory \<Rightarrow> nat list" where
  "seg_frames m = map frame_of (physical_address_list m)"

definition seg_ok :: "vmm_state \<Rightarrow> SharedMemory \<Rightarrow> bool" where
  "seg_ok v m \<longleftrightarrow> (\<forall>f \<in> set (seg_frames m). bm_used (vm_bitmap v) f) \<and> distinct (map fst (mmapped_list m)) \<and>
     (marked_unlink m \<longrightarrow> mmapped_list m \<noteq> []) \<and>
     length (physical_address_list m) = (if sm_length m = 0 then 0 else nat (sint (PAGE_COUNT (sm_length m))))"

definition all_frames :: "(ptr \<times> SharedMemory) list \<Rightarrow> nat list" where
  "all_frames L = concat (map (\<lambda>am. seg_frames (snd am)) L)"

definition shm_inv :: "shm_state \<Rightarrow> bool" where
  "shm_inv s \<longleftrightarrow> distinct (map fst (g_shm_list s)) \<and> distinct (all_frames (g_shm_list s)) \<and>
     (\<forall>am \<in> set (g_shm_list s). seg_ok (sh_vmm s) (snd am))"

lemma all_frames_simps [simp]:
  "all_frames [] = []" "all_frames (xs @ ys) = all_frames xs @ all_frames ys"
  "all_frames (am # xs) = seg_frames (snd am) @ all_frames xs"
  by (simp_all add: all_frames_def)

lemma set_all_frames: "set (all_frames L) = (\<Union>am \<in> set L. set (seg_frames (snd am)))"
  by (simp add: all_frames_def)

lemma seg_ok_keeps:
  assumes "seg_ok v m" and "\<forall>f \<in> set (seg_frames m). bm_used (vm_bitmap v) f \<longrightarrow> bm_used (vm_bitmap v') f"
  shows "seg_ok v' m"
  using assms by (simp add: seg_ok_def)

lemma shm_inv_keeps:
  assumes "shm_inv s" and "\<forall>f \<in> set (all_frames (g_shm_list s)). bm_used (vm_bitmap v) f"
  shows "shm_inv (s\<lparr>sh_vmm := v\<rparr>)"
proof -
  have "seg_ok v (snd am)" if am: "am \<in> set (g_shm_list s)" for am
  proof (rule seg_ok_keeps)
    show "seg_ok (sh_vmm s) (snd am)" using assms(1) am by (simp add: shm_inv_def)
    show "\<forall>f \<in> set (seg_frames (snd am)). bm_used (vm_bitmap (sh_vmm s)) f \<longrightarrow> bm_used (vm_bitmap v) f"
      using assms(2) am by (auto simp: set_all_frames)
  qed
  then show ?thesis using assms(1) by (simp add: shm_inv_def)
qed

lemma shm_inv_used: "shm_inv s \<Longrightarrow> f \<in> set (all_frames (g_shm_list s)) \<Longrightarrow> bm_used (vm_bitmap (sh_vmm s)) f"
  by (auto simp: shm_inv_def set_all_frames seg_ok_def)

lemma put_inv:
  assumes "shm_inv s" and "at_shm s xs a m ys" and "seg_frames m' = seg_frames m" and "seg_ok (sh_vmm s) m'"
  shows "shm_inv (put_shm s a m')"
proof -
  note l = at_shm_simps(2,5) [OF assms(2), of m']
  have g: "g_shm_list s = xs @ (a, m) # ys" using assms(2) by (simp add: at_shm_def)
  have "distinct (map fst (xs @ (a, m') # ys))" "distinct (all_frames (xs @ (a, m') # ys))"
    using assms(1,3) g by (simp_all add: shm_inv_def)
  moreover have "\<forall>am \<in> set (xs @ (a, m') # ys). seg_ok (sh_vmm s) (snd am)"
    using assms(1,4) g by (auto simp: shm_inv_def)
  ultimately show ?thesis unfolding shm_inv_def l by blast
qed

text \<open>Removing a mapping or marking a segment, and destroying it when it is due.\<close>

lemma settle_ok:
  assumes inv: "shm_inv s" and at: "at_shm s xs a m ys"
    and m': "physical_address_list m' = physical_address_list m" "sm_length m' = sm_length m" "distinct (map fst (mmapped_list m'))"
  shows "\<exists>s'. sharedmemory_destroy_if_suitable (put_shm s a m') a = Some s' \<and> shm_inv s' \<and>
    (if marked_unlink m' \<and> mmapped_list m' = []
     then g_shm_list s' = xs @ ys \<and> vm_pm (sh_vmm s') = vm_pm (sh_vmm s) \<and> vm_cr3 (sh_vmm s') = vm_cr3 (sh_vmm s) \<and>
       (\<forall>f. bm_used (vm_bitmap (sh_vmm s')) f \<longleftrightarrow> f \<notin> set (seg_frames m) \<and> bm_used (vm_bitmap (sh_vmm s)) f)
     else g_shm_list s' = xs @ (a, m') # ys \<and> sh_vmm s' = sh_vmm s)"
proof -
  let ?p = "put_shm s a m'"
  note p = at_shm_simps(1,2,5) [OF at_shm_simps(3) [OF at, of m']] at_shm_simps(2,3,5) [OF at, of m']
  have g: "get_shm ?p a = Some m'" using p by simp
  have sf: "seg_frames m' = seg_frames m" using m'(1) by (simp add: seg_frames_def)
  show ?thesis
  proof (cases "marked_unlink m' \<and> mmapped_list m' = []")
    case True
    let ?v = "release_frames (sh_vmm s) (physical_address_list m)"
    let ?s = "sharedmemory_destroy (?p\<lparr>sh_vmm := ?v\<rparr>) a"
    have r: "sharedmemory_destroy_if_suitable ?p a = Some ?s"
      using True g m'(1) p(6) by (simp add: sharedmemory_destroy_if_suitable_def)
    have l: "g_shm_list ?s = xs @ ys" "sh_vmm ?s = ?v"
      using at_shm_simps(4) [OF at_shm_simps(6) [OF p(5), of ?v]] by (simp_all add: sharedmemory_destroy_def)
    have u: "bm_used (vm_bitmap ?v) f \<longleftrightarrow> f \<notin> set (seg_frames m) \<and> bm_used (vm_bitmap (sh_vmm s)) f" for f
      by (simp add: release_frames_used seg_frames_def)
    have "shm_inv ?s"
      unfolding shm_inv_def l
    proof (intro conjI ballI)
      have L: "g_shm_list s = xs @ (a, m) # ys" using at by (simp add: at_shm_def)
      have d: "distinct (all_frames xs @ seg_frames m @ all_frames ys)" using inv by (simp add: shm_inv_def L)
      show "distinct (map fst (xs @ ys))" "distinct (all_frames (xs @ ys))"
        using inv by (auto simp: shm_inv_def L)
      fix am assume am: "am \<in> set (xs @ ys)"
      have "seg_ok (sh_vmm s) (snd am)" using inv am by (auto simp: shm_inv_def L)
      moreover have "set (seg_frames (snd am)) \<subseteq> set (all_frames xs) \<union> set (all_frames ys)"
        using am unfolding set_all_frames by auto
      then have "set (seg_frames (snd am)) \<inter> set (seg_frames m) = {}" using d by auto
      ultimately show "seg_ok ?v (snd am)" using u by (blast intro: seg_ok_keeps [of "sh_vmm s"])
    qed
    then show ?thesis using r l u True release_frames_tables by simp
  next
    case False
    have ok: "seg_ok (sh_vmm s) m'"
      using inv at m' sf False by (auto simp: shm_inv_def at_shm_def seg_ok_def)
    have "sharedmemory_destroy_if_suitable ?p a = Some ?p"
      using False g by (auto simp: sharedmemory_destroy_if_suitable_def)
    moreover have "shm_inv ?p" by (rule put_inv [OF inv at sf ok])
    ultimately show ?thesis using False p(4,6) by (intro exI [of _ ?p]) simp
  qed
qed
section \<open>The operations keep the invariant\<close>

lemma shm_unlink_ok:
  assumes inv: "shm_inv s" and at: "at_shm s xs a m ys"
  shows "\<exists>s'. sharedmemory_unlink s a flags = Some (s', 0) \<and> shm_inv s' \<and>
    (if mmapped_list m = []
     then g_shm_list s' = xs @ ys \<and> vm_pm (sh_vmm s') = vm_pm (sh_vmm s) \<and> vm_cr3 (sh_vmm s') = vm_cr3 (sh_vmm s) \<and>
       (\<forall>f. bm_used (vm_bitmap (sh_vmm s')) f \<longleftrightarrow> f \<notin> set (seg_frames m) \<and> bm_used (vm_bitmap (sh_vmm s)) f)
     else g_shm_list s' = xs @ (a, m\<lparr>marked_unlink := True\<rparr>) # ys \<and> sh_vmm s' = sh_vmm s)"
proof -
  have "distinct (map fst (mmapped_list (m\<lparr>marked_unlink := True\<rparr>)))"
    using inv at by (auto simp: shm_inv_def at_shm_def seg_ok_def)
  from settle_ok [OF inv at _ _ this] at_shm_simps(1) [OF at] show ?thesis
    by (auto simp: sharedmemory_unlink_def)
qed

lemma shm_ftruncate_ok:
  assumes inv: "shm_inv s" and run: "sharedmemory_ftruncate s a len = Some (s', r)"
  shows "shm_inv s'"
proof (cases "s' = s")
  case False
  then obtain m v ps where m: "get_shm s a = Some m" "sm_length m = 0" "0 < sint len"
      "acquire_many vmm_acquire_page_frame_4k (sh_vmm s) (nat (sint (PAGE_COUNT len))) = Some (v, ps)"
      "s' = (put_shm s a (m\<lparr>physical_address_list := physical_address_list m @ ps, sm_length := len\<rparr>))\<lparr>sh_vmm := v\<rparr>"
    using run by (auto simp: sharedmemory_ftruncate_def bind_eq_Some_conv split: if_splits)
  obtain xs ys where at: "at_shm s xs a m ys" using get_shm_at [OF m(1)] by blast
  have L: "g_shm_list s = xs @ (a, m) # ys" using at by (simp add: at_shm_def)
  have old: "physical_address_list m = []" using inv m(2) by (auto simp: shm_inv_def L seg_ok_def)
  let ?m = "m\<lparr>physical_address_list := ps, sm_length := len\<rparr>"
  have s': "g_shm_list s' = xs @ (a, ?m) # ys" "sh_vmm s' = v"
    using at_shm_simps(2) [OF at, of ?m] m(5) old by simp_all
  note q = acquire_many_Some [OF m(4)]
  have fr: "seg_frames ?m = map frame_of ps" "seg_frames m = []" using old by (simp_all add: seg_frames_def)
  have used: "bm_used (vm_bitmap (sh_vmm s)) f" if "f \<in> set (all_frames xs) \<union> set (all_frames ys)" for f
    using shm_inv_used [OF inv, of f] that by (auto simp: L)
  have "frame_of ` set ps \<inter> (set (all_frames xs) \<union> set (all_frames ys)) = {}" using used q by blast
  moreover have "distinct (all_frames xs @ all_frames ys)" using inv fr(2) by (simp add: shm_inv_def L)
  ultimately have d: "distinct (all_frames (g_shm_list s'))" using q fr(1) s'(1) by auto
  have nz: "len \<noteq> 0" using m(3) by auto
  have new: "seg_ok v ?m" using inv q nz by (auto simp: shm_inv_def L seg_ok_def fr(1))
  have "seg_ok v (snd am)" if am: "am \<in> set xs \<union> set ys" for am
  proof (rule seg_ok_keeps)
    show "seg_ok (sh_vmm s) (snd am)" using inv am by (auto simp: shm_inv_def L)
  qed (use q in simp)
  then have "\<forall>am \<in> set (g_shm_list s'). seg_ok v (snd am)" using new s'(1) by auto
  moreover have "distinct (map fst (g_shm_list s'))" using inv s'(1) by (simp add: shm_inv_def L)
  ultimately show ?thesis using d s'(2) by (simp add: shm_inv_def)
qed (use inv in simp)

lemma shm_mmap_ok:
  assumes inv: "shm_inv s" and run: "sharedmemory_mmap s mm a process i = Some (s', mm', r)"
    and i: "\<And>m. get_shm s a = Some m \<Longrightarrow> i \<notin> fst ` set (mmapped_list m)"
  shows "shm_inv s'"
proof (cases "s' = s")
  case False
  then obtain m v info where m: "get_shm s a = Some m"
      "vmm_map_memory (sh_vmm s) mm USER_MMAP_START (Some (physical_address_list m)) (of_nat (length (physical_address_list m))) False
        = Some (v, mm', r)"
      "s' = (put_shm s a (m\<lparr>mmapped_list := mmapped_list m @ [(i, info)]\<rparr>))\<lparr>sh_vmm := v\<rparr>"
    using run by (auto simp: sharedmemory_mmap_def bind_eq_Some_conv Let_def split: if_splits)
  obtain xs ys where at: "at_shm s xs a m ys" using get_shm_at [OF m(1)] by blast
  let ?m = "m\<lparr>mmapped_list := mmapped_list m @ [(i, info)]\<rparr>"
  have "shm_inv (put_shm s a ?m)"
  proof (rule put_inv [OF inv at])
    show "seg_frames ?m = seg_frames m" by (simp add: seg_frames_def)
    show "seg_ok (sh_vmm s) ?m" using inv at i [OF m(1)]
      by (auto simp: shm_inv_def at_shm_def seg_ok_def seg_frames_def)
  qed
  then show ?thesis
    using map_memory_keeps [OF m(2)] shm_inv_used [of "put_shm s a ?m"] at_shm_simps(5) [OF at, of ?m]
    unfolding m(3) by (intro shm_inv_keeps) (auto simp: keeps_used_def)
qed (use inv in simp)

lemma shm_create_ok:
  assumes inv: "shm_inv s" and run: "sharedmemory_create s a b name = Some (s', r)" and a: "a \<notin> fst ` set (g_shm_list s)"
  shows "shm_inv s'"
proof (cases "s' = s")
  case False
  then obtain nm where "s' = s\<lparr>g_shm_list := g_shm_list s @ [(a, \<lparr>sm_node = b, sm_name = nm, sm_length = 0,
          physical_address_list = [], mmapped_list = [], marked_unlink = False\<rparr>)]\<rparr>"
    using run by (auto simp: sharedmemory_create_def bind_eq_Some_conv split: if_splits)
  then show ?thesis using inv a by (simp add: shm_inv_def seg_ok_def seg_frames_def)
qed (use inv in simp)

lemma remove_addr_absent: "a \<notin> fst ` set L \<Longrightarrow> remove_addr a L = L"
  by (induction L) auto

lemma shm_destroy_ok:
  assumes inv: "shm_inv s"
  shows "shm_inv (sharedmemory_destroy s a)"
proof (cases "get_shm s a")
  case None
  then have "a \<notin> fst ` set (g_shm_list s)" by (simp add: get_shm_def map_of_eq_None_iff)
  then show ?thesis using inv by (simp add: sharedmemory_destroy_def remove_addr_absent)
next
  case (Some m)
  then obtain xs ys where at: "at_shm s xs a m ys" using get_shm_at by blast
  then have L: "g_shm_list s = xs @ (a, m) # ys" by (simp add: at_shm_def)
  have "sh_vmm (sharedmemory_destroy s a) = sh_vmm s" by (simp add: sharedmemory_destroy_def)
  then show ?thesis using inv at_shm_simps(4) [OF at] by (auto simp: shm_inv_def L)
qed
section \<open>Removing a mapping\<close>

definition maps_of :: "ptr \<Rightarrow> SharedMemory \<Rightarrow> u32 list" where
  "maps_of process m = map (\<lambda>(b, info). mi_v_address info) (filter (\<lambda>(b, info). mi_process info = process) (mmapped_list m))"

lemma mapped_addresses_alt: "mapped_addresses s process = concat (map (\<lambda>am. maps_of process (snd am)) (g_shm_list s))"
  unfolding mapped_addresses_def maps_of_def by (rule arg_cong [of _ _ concat], rule map_cong) (auto simp: split_def)

lemma find_map_None: "find_map process address L = None \<longleftrightarrow>
    (\<forall>e \<in> set L. \<not> (mi_process (snd e) = process \<and> mi_v_address (snd e) = address))"
proof (induction L)
  case (Cons e L)
  then show ?case by (cases e) simp
qed simp

lemma find_map_Some:
  assumes "find_map process address L = Some b" and "distinct (map fst L)"
  shows "\<exists>us info vs. L = us @ (b, info) # vs \<and> remove_addr b L = us @ vs \<and> mi_process info = process \<and>
    mi_v_address info = address"
  using assms
proof (induction L)
  case (Cons e L)
  obtain c info where e: "e = (c, info)" by (cases e)
  show ?case
  proof (cases "mi_process info = process \<and> mi_v_address info = address")
    case True
    then have "e # L = [] @ (b, info) # L" "remove_addr b (e # L) = [] @ L" using Cons.prems(1) e by auto
    then show ?thesis using True by blast
  next
    case False
    then obtain us i vs where L: "L = us @ (b, i) # vs" "remove_addr b L = us @ vs" "mi_process i = process" "mi_v_address i = address"
      using Cons e by auto
    have "c \<noteq> b" using Cons.prems(2) L(1) e by auto
    then have "e # L = (e # us) @ (b, i) # vs" "remove_addr b (e # L) = (e # us) @ vs" using L e by auto
    then show ?thesis using L(3,4) by blast
  qed
qed simp

lemma find_shm_map_None: "find_shm_map process address L = None \<longleftrightarrow>
    (\<forall>am \<in> set L. find_map process address (mmapped_list (snd am)) = None)"
  by (induction L) (auto split: option.splits)

lemma find_shm_map_Some:
  "find_shm_map process address L = Some (a, b) \<Longrightarrow>
    \<exists>m. (a, m) \<in> set L \<and> find_map process address (mmapped_list m) = Some b"
  by (induction L) (auto split: option.splits)

lemma get_shm_in: "distinct (map fst (g_shm_list s)) \<Longrightarrow> (a, m) \<in> set (g_shm_list s) \<Longrightarrow> get_shm s a = Some m"
  by (simp add: get_shm_def)

lemma maps_of_mem: "address \<in> set (maps_of process m) \<longleftrightarrow>
    \<not> (\<forall>e \<in> set (mmapped_list m). \<not> (mi_process (snd e) = process \<and> mi_v_address (snd e) = address))"
  by (force simp: maps_of_def image_iff)

lemma unmap_hit:
  assumes inv: "shm_inv s" and f: "address \<in> set (mapped_addresses s process)"
  shows "\<exists>s' xs a m ys us b info vs. sharedmemory_unmap_if_exists s process address = Some (s', True) \<and> shm_inv s' \<and>
    at_shm s xs a m ys \<and> mmapped_list m = us @ (b, info) # vs \<and> mi_process info = process \<and> mi_v_address info = address \<and>
    (if marked_unlink m \<and> us @ vs = []
     then g_shm_list s' = xs @ ys \<and> vm_pm (sh_vmm s') = vm_pm (sh_vmm s) \<and> vm_cr3 (sh_vmm s') = vm_cr3 (sh_vmm s) \<and>
       (\<forall>f. bm_used (vm_bitmap (sh_vmm s')) f \<longleftrightarrow> f \<notin> set (seg_frames m) \<and> bm_used (vm_bitmap (sh_vmm s)) f)
     else g_shm_list s' = xs @ (a, m\<lparr>mmapped_list := us @ vs\<rparr>) # ys \<and> sh_vmm s' = sh_vmm s)"
proof -
  have "find_shm_map process address (g_shm_list s) \<noteq> None"
    using f unfolding mapped_addresses_alt find_shm_map_None find_map_None set_concat
    by (auto simp: maps_of_mem)
  then obtain a b where ab: "find_shm_map process address (g_shm_list s) = Some (a, b)" by auto
  then obtain m where m: "(a, m) \<in> set (g_shm_list s)" "find_map process address (mmapped_list m) = Some b"
    using find_shm_map_Some by blast
  have g: "get_shm s a = Some m" using get_shm_in [OF _ m(1)] inv by (simp add: shm_inv_def)
  obtain xs ys where at: "at_shm s xs a m ys" using get_shm_at [OF g] by blast
  have dm: "distinct (map fst (mmapped_list m))" using inv m(1) by (auto simp: shm_inv_def seg_ok_def)
  obtain us info vs where p: "mmapped_list m = us @ (b, info) # vs" "remove_addr b (mmapped_list m) = us @ vs"
      "mi_process info = process" "mi_v_address info = address"
    using find_map_Some [OF m(2) dm] by blast
  let ?m = "m\<lparr>mmapped_list := us @ vs\<rparr>"
  have "distinct (map fst (mmapped_list ?m))" using dm p(1) by auto
  from settle_ok [OF inv at _ _ this]
  obtain s' where s': "sharedmemory_destroy_if_suitable (put_shm s a ?m) a = Some s'" "shm_inv s'"
    "if marked_unlink m \<and> us @ vs = []
     then g_shm_list s' = xs @ ys \<and> vm_pm (sh_vmm s') = vm_pm (sh_vmm s) \<and> vm_cr3 (sh_vmm s') = vm_cr3 (sh_vmm s) \<and>
       (\<forall>f. bm_used (vm_bitmap (sh_vmm s')) f \<longleftrightarrow> f \<notin> set (seg_frames m) \<and> bm_used (vm_bitmap (sh_vmm s)) f)
     else g_shm_list s' = xs @ (a, ?m) # ys \<and> sh_vmm s' = sh_vmm s"
    by auto
  have "sharedmemory_unmap_if_exists s process address = Some (s', True)"
    using ab g p(2) s'(1) by (simp add: sharedmemory_unmap_if_exists_def)
  then show ?thesis using s'(2,3) at p(1,3,4) by blast
qed

lemma unmap_miss:
  assumes "address \<notin> set (mapped_addresses s process)"
  shows "sharedmemory_unmap_if_exists s process address = Some (s, False)"
proof -
  have "find_shm_map process address (g_shm_list s) = None"
    using assms unfolding mapped_addresses_alt find_shm_map_None find_map_None by (auto simp: maps_of_mem)
  then show ?thesis by (simp add: sharedmemory_unmap_if_exists_def)
qed

text \<open>What one removal does to the mappings of each process.\<close>

lemma unmap_mapped:
  assumes "shm_inv s" and "address \<in> set (mapped_addresses s process)"
  shows "\<exists>s'. sharedmemory_unmap_if_exists s process address = Some (s', True) \<and> shm_inv s' \<and>
    mset (mapped_addresses s' process) = mset (mapped_addresses s process) - {#address#} \<and>
    (\<forall>p. p \<noteq> process \<longrightarrow> mapped_addresses s' p = mapped_addresses s p)"
proof -
  obtain s' xs a m ys us b info vs where s': "sharedmemory_unmap_if_exists s process address = Some (s', True)" "shm_inv s'"
    and at: "at_shm s xs a m ys" and m: "mmapped_list m = us @ (b, info) # vs" "mi_process info = process" "mi_v_address info = address"
    and r: "if marked_unlink m \<and> us @ vs = [] then g_shm_list s' = xs @ ys \<and> vm_pm (sh_vmm s') = vm_pm (sh_vmm s) \<and>
        vm_cr3 (sh_vmm s') = vm_cr3 (sh_vmm s) \<and>
        (\<forall>f. bm_used (vm_bitmap (sh_vmm s')) f \<longleftrightarrow> f \<notin> set (seg_frames m) \<and> bm_used (vm_bitmap (sh_vmm s)) f)
      else g_shm_list s' = xs @ (a, m\<lparr>mmapped_list := us @ vs\<rparr>) # ys \<and> sh_vmm s' = sh_vmm s"
    using unmap_hit [OF assms] by (elim exE conjE)
  have L: "g_shm_list s = xs @ (a, m) # ys" using at by (simp add: at_shm_def)
  let ?c = "\<lambda>p L. concat (map (\<lambda>am. maps_of p (snd am)) L)"
  let ?new = "if marked_unlink m \<and> us @ vs = [] then [] else [(a, m\<lparr>mmapped_list := us @ vs\<rparr>)]"
  have L': "g_shm_list s' = xs @ ?new @ ys" using r by (auto split: if_splits)
  have new: "?c p ?new = maps_of p (m\<lparr>mmapped_list := us @ vs\<rparr>)" for p by (auto simp: maps_of_def)
  have "mset (maps_of process m) = add_mset address (mset (maps_of process (m\<lparr>mmapped_list := us @ vs\<rparr>)))"
    using m by (simp add: maps_of_def)
  then have "mset (mapped_addresses s' process) = mset (mapped_addresses s process) - {#address#}"
    unfolding mapped_addresses_alt L L' by (simp only: map_append concat_append new mset_append list.map concat.simps snd_conv) simp
  moreover have "maps_of p (m\<lparr>mmapped_list := us @ vs\<rparr>) = maps_of p m" if "p \<noteq> process" for p
    using m that by (simp add: maps_of_def)
  then have "\<forall>p. p \<noteq> process \<longrightarrow> mapped_addresses s' p = mapped_addresses s p"
    unfolding mapped_addresses_alt L L' by (simp only: map_append concat_append new list.map concat.simps snd_conv) simp
  ultimately show ?thesis using s' by blast
qed

lemma unmap_each_ok:
  assumes "shm_inv s" and "mset as \<subseteq># mset (mapped_addresses s process)"
  shows "\<exists>s'. unmap_each s process as = Some s' \<and> shm_inv s' \<and>
    mset (mapped_addresses s' process) = mset (mapped_addresses s process) - mset as \<and>
    (\<forall>p. p \<noteq> process \<longrightarrow> mapped_addresses s' p = mapped_addresses s p)"
  using assms
proof (induction as arbitrary: s)
  case (Cons a as)
  have "a \<in># mset (mapped_addresses s process)" using Cons.prems(2) by (auto dest: mset_subset_eqD)
  then have "a \<in> set (mapped_addresses s process)" by simp
  from unmap_mapped [OF Cons.prems(1) this]
  obtain s1 where s1: "sharedmemory_unmap_if_exists s process a = Some (s1, True)" "shm_inv s1"
      "mset (mapped_addresses s1 process) = mset (mapped_addresses s process) - {#a#}"
      "\<forall>p. p \<noteq> process \<longrightarrow> mapped_addresses s1 p = mapped_addresses s p" by blast
  have "mset as \<subseteq># mset (mapped_addresses s1 process)"
    using Cons.prems(2) s1(3) by (simp add: insert_subset_eq_iff)
  from Cons.IH [OF s1(2) this] show ?case using s1 by auto
qed simp

section \<open>Reachable states\<close>

text \<open>
  Any sequence of the operations on segments, by any processes; in between, the rest of the kernel
  changes memory but leaves frames that are in use by segments in use.
\<close>

inductive shm_reach :: "shm_state \<Rightarrow> bool" where
  shm_initialize: "g_shm_list s = [] \<Longrightarrow> shm_reach s"
| shm_create: "shm_reach s \<Longrightarrow> a \<notin> fst ` set (g_shm_list s) \<Longrightarrow> sharedmemory_create s a b name = Some (s', r) \<Longrightarrow> shm_reach s'"
| shm_ftruncate: "shm_reach s \<Longrightarrow> sharedmemory_ftruncate s a len = Some (s', r) \<Longrightarrow> shm_reach s'"
| shm_mmap: "shm_reach s \<Longrightarrow> (\<And>m. get_shm s a = Some m \<Longrightarrow> i \<notin> fst ` set (mmapped_list m)) \<Longrightarrow>
    sharedmemory_mmap s mm a process i = Some (s', mm', v) \<Longrightarrow> shm_reach s'"
| shm_unmap: "shm_reach s \<Longrightarrow> sharedmemory_unmap_if_exists s process address = Some (s', r) \<Longrightarrow> shm_reach s'"
| shm_unlink: "shm_reach s \<Longrightarrow> sharedmemory_unlink s a flags = Some (s', r) \<Longrightarrow> shm_reach s'"
| shm_destroy: "shm_reach s \<Longrightarrow> sharedmemory_destroy_by_name s name = Some (s', r) \<Longrightarrow> shm_reach s'"
| shm_other: "shm_reach s \<Longrightarrow> \<forall>f \<in> set (all_frames (g_shm_list s)). bm_used (vm_bitmap v) f \<Longrightarrow> shm_reach (s\<lparr>sh_vmm := v\<rparr>)"

lemma shm_reach_inv: "shm_reach s \<Longrightarrow> shm_inv s"
proof (induction rule: shm_reach.induct)
  case (shm_initialize s)
  then show ?case by (simp add: shm_inv_def)
next
  case (shm_unmap s process address s' r)
  then show ?case
    using unmap_mapped [of s address process] unmap_miss [of address s process]
    by (cases "address \<in> set (mapped_addresses s process)") auto
next
  case (shm_unlink s a flags s' r)
  then obtain m where "get_shm s a = Some m" by (auto simp: sharedmemory_unlink_def bind_eq_Some_conv)
  then obtain xs ys where "at_shm s xs a m ys" using get_shm_at by blast
  from shm_unlink_ok [OF shm_unlink.IH this, of flags] shm_unlink.hyps(2) show ?case by auto
next
  case (shm_destroy s name s' r)
  then show ?case
    using shm_destroy_ok by (auto simp: sharedmemory_destroy_by_name_def bind_eq_Some_conv split: option.splits)
qed (auto intro: shm_create_ok shm_ftruncate_ok shm_mmap_ok shm_inv_keeps)
section \<open>The registry of names\<close>

definition shm_names :: "shm_state \<Rightarrow> u8 list list \<Rightarrow> bool" where
  "shm_names s ns \<longleftrightarrow> list_all2 (\<lambda>am n. cstr n (sm_name (snd am)) \<and> sm_node (snd am) \<noteq> 0) (g_shm_list s) ns \<and> distinct ns"

definition shm_exists :: "shm_state \<Rightarrow> u8 list \<Rightarrow> bool option" where
  "shm_exists s name = map_option (\<lambda>node. node \<noteq> 0) (sharedmemory_get_node s name)"

definition shm_make :: "ptr \<Rightarrow> ptr \<Rightarrow> shm_state \<Rightarrow> u8 list \<Rightarrow> (shm_state \<times> bool) option" where
  "shm_make a b s name = map_option (\<lambda>(s', node). (s', node \<noteq> 0)) (sharedmemory_create s a b name)"

lemma find_shm_ok:
  assumes "list_all2 (\<lambda>am n. cstr n (sm_name (snd am)) \<and> sm_node (snd am) \<noteq> 0) L ns" and "cstr n obj"
  shows "if n \<in> set ns
    then \<exists>am. find_shm obj L = Some (Some am) \<and> am \<in> set L \<and> cstr n (sm_name (snd am)) \<and> sm_node (snd am) \<noteq> 0
    else find_shm obj L = Some None"
  using assms(1)
proof (induction rule: list_all2_induct)
  case (Cons am L m ns)
  have "strcmp obj (sm_name (snd am)) = Some (if n = m then 0 else 1)"
    using strcmp_cstr [OF assms(2)] Cons.hyps(1) by blast
  then show ?case using Cons.IH Cons.hyps(1) by (cases "n = m") (auto split: if_splits)
qed simp

lemma shm_exists_ok: "shm_names s ns \<Longrightarrow> cstr n obj \<Longrightarrow> shm_exists s obj = Some (n \<in> set ns)"
  using find_shm_ok [of "g_shm_list s" ns n obj]
  by (auto simp: shm_names_def shm_exists_def sharedmemory_get_node_def split: if_splits)

interpretation shm_registry: name_registry shm_names shm_exists "shm_make a b"
  "\<lambda>n. n \<noteq> [] \<and> length n < 128 \<and> b \<noteq> 0" for a b
proof unfold_locales
  show "shm_names t ns \<Longrightarrow> distinct ns" for t ns by (simp add: shm_names_def)
  show "shm_names t ns \<Longrightarrow> cstr n obj \<Longrightarrow> shm_exists t obj = Some (n \<in> set ns)" for t ns n obj
    by (rule shm_exists_ok)
  fix t ns n obj
  assume a: "shm_names t ns" "cstr n obj" "n \<noteq> [] \<and> length n < 128 \<and> b \<noteq> 0"
  obtain node where g: "sharedmemory_get_node t obj = Some node" "node \<noteq> 0 \<longleftrightarrow> n \<in> set ns"
    using shm_exists_ok [OF a(1,2)] by (auto simp: shm_exists_def)
  show "ok (shm_make a b t obj) (\<lambda>(t', r). r = (n \<notin> set ns) \<and> shm_names t' (if n \<in> set ns then ns else ns @ [n]))"
  proof (cases "n \<in> set ns")
    case True
    then show ?thesis using g a(1) by (simp add: shm_make_def sharedmemory_create_def)
  next
    case False
    let ?nm = "n @ 0 # drop (Suc (length n)) (replicate 128 0)"
    have c: "strcpy (replicate 128 0) obj = Some (?nm, length n)"
      using strcpy_cstr [OF a(2)] a(3) by auto
    have nm: "cstr n ?nm" using a(2) by (auto simp: cstr_iff)
    have "sharedmemory_create t a b obj = Some (t\<lparr>g_shm_list := g_shm_list t @ [(a, \<lparr>sm_node = b, sm_name = ?nm, sm_length = 0,
          physical_address_list = [], mmapped_list = [], marked_unlink = False\<rparr>)]\<rparr>, b)"
      unfolding sharedmemory_create_def c using g False by simp
    then show ?thesis using False a(1,3) nm by (auto simp: shm_make_def shm_names_def intro: list_all2_appendI)
  qed
qed

section \<open>Properties\<close>

lemma sint_word_of_int:
  assumes "0 \<le> k" and "k < 2 ^ 31"
  shows "sint (word_of_int k :: i32) = k"
proof -
  have "(word_of_int k :: i32) = of_nat (nat k)" using assms(1) by simp
  moreover have "unat (of_nat (nat k) :: u32) = nat k" using assms by (intro unat_of_nat_small) simp
  ultimately show ?thesis using sint_nonneg [of "word_of_int k"] assms by simp
qed

lemma PAGE_COUNT_pos:
  assumes "0 < sint len"
  shows "nat (sint (PAGE_COUNT len)) = (nat (sint len) - 1) div 4096 + 1" "sint (PAGE_COUNT len) \<le> 2 ^ 19"
proof -
  define n where "n = sint len"
  have n: "0 < n" "n < 2 ^ 31" using assms sint_lt [of len] by (auto simp: n_def)
  have "(word_of_int (n - 1) :: i32) = len - 1" by (simp add: n_def)
  then have l: "sint (len - 1) = n - 1" using sint_word_of_int [of "n - 1"] n by simp
  define q where "q = (n - 1) div 4096"
  have q: "0 \<le> q" "q < 2 ^ 19" unfolding q_def using n by (auto intro: div_less_dividend)
  have sd: "(n - 1) sdiv 0x1000 = q" using n by (cases "n = 1") (auto simp: signed_divide_int_def q_def)
  have "PAGE_COUNT len = word_of_int (q + 1)" unfolding PAGE_COUNT_def l sd by simp
  then have s: "sint (PAGE_COUNT len) = q + 1" using q sint_word_of_int [of "q + 1"] by simp
  then show "sint (PAGE_COUNT len) \<le> 2 ^ 19" using q by simp
  have "nat q = (nat n - 1) div 4096" using n by (simp add: q_def nat_div_distrib nat_diff_distrib)
  then show "nat (sint (PAGE_COUNT len)) = (nat (sint len) - 1) div 4096 + 1" using s q n_def by (simp add: nat_add_distrib)
qed


text \<open>
  Forgetting a mapping: \<^verbatim>\<open>sharedmemory_unmap_if_exists\<close> returns whether the process has a mapping
  recorded at the address and removes one such record and no other. The frames of a segment
  are given back, all of them and no others, exactly when that was the last mapping of a
  segment that has been unlinked; otherwise no frame changes.
\<close>

theorem sharedmemory_unmap_correct:
  assumes "shm_inv s"
  shows "\<exists>s' r. sharedmemory_unmap_if_exists s process address = Some (s', r) \<and> shm_inv s' \<and>
    r = (address \<in> set (mapped_addresses s process)) \<and>
    (if \<not> r then s' = s
     else \<exists>xs a m ys us b info vs. g_shm_list s = xs @ (a, m) # ys \<and> mmapped_list m = us @ (b, info) # vs \<and>
       mi_process info = process \<and> mi_v_address info = address \<and>
       (if marked_unlink m \<and> us @ vs = []
        then g_shm_list s' = xs @ ys \<and>
          (\<forall>f. bm_used (vm_bitmap (sh_vmm s')) f \<longleftrightarrow> f \<notin> set (seg_frames m) \<and> bm_used (vm_bitmap (sh_vmm s)) f)
        else g_shm_list s' = xs @ (a, m\<lparr>mmapped_list := us @ vs\<rparr>) # ys \<and> sh_vmm s' = sh_vmm s))"
proof (cases "address \<in> set (mapped_addresses s process)")
  case True
  obtain s' xs a m ys us b info vs where s': "sharedmemory_unmap_if_exists s process address = Some (s', True)" "shm_inv s'"
    and at: "at_shm s xs a m ys" and m: "mmapped_list m = us @ (b, info) # vs" "mi_process info = process" "mi_v_address info = address"
    and r: "if marked_unlink m \<and> us @ vs = [] then g_shm_list s' = xs @ ys \<and> vm_pm (sh_vmm s') = vm_pm (sh_vmm s) \<and>
        vm_cr3 (sh_vmm s') = vm_cr3 (sh_vmm s) \<and>
        (\<forall>f. bm_used (vm_bitmap (sh_vmm s')) f \<longleftrightarrow> f \<notin> set (seg_frames m) \<and> bm_used (vm_bitmap (sh_vmm s)) f)
      else g_shm_list s' = xs @ (a, m\<lparr>mmapped_list := us @ vs\<rparr>) # ys \<and> sh_vmm s' = sh_vmm s"
    using unmap_hit [OF assms True] by (elim exE conjE)
  have "if marked_unlink m \<and> us @ vs = [] then g_shm_list s' = xs @ ys \<and>
        (\<forall>f. bm_used (vm_bitmap (sh_vmm s')) f \<longleftrightarrow> f \<notin> set (seg_frames m) \<and> bm_used (vm_bitmap (sh_vmm s)) f)
      else g_shm_list s' = xs @ (a, m\<lparr>mmapped_list := us @ vs\<rparr>) # ys \<and> sh_vmm s' = sh_vmm s"
    using r by (cases "marked_unlink m \<and> us @ vs = []") auto
  then have inner: "\<exists>xs a m ys us b info vs. g_shm_list s = xs @ (a, m) # ys \<and> mmapped_list m = us @ (b, info) # vs \<and>
       mi_process info = process \<and> mi_v_address info = address \<and>
       (if marked_unlink m \<and> us @ vs = []
        then g_shm_list s' = xs @ ys \<and>
          (\<forall>f. bm_used (vm_bitmap (sh_vmm s')) f \<longleftrightarrow> f \<notin> set (seg_frames m) \<and> bm_used (vm_bitmap (sh_vmm s)) f)
        else g_shm_list s' = xs @ (a, m\<lparr>mmapped_list := us @ vs\<rparr>) # ys \<and> sh_vmm s' = sh_vmm s)"
    using m at [unfolded at_shm_def] by blast
  show ?thesis
    by (rule exI [of _ s'], rule exI [of _ True], simp only: not_True_eq_False if_False s' True simp_thms, rule inner)
next
  case False
  then show ?thesis using unmap_miss assms by auto
qed

text \<open>
  When a process is destroyed no shared mapping of it stays behind and every other process keeps its own.
\<close>

theorem sharedmemory_unmap_all_correct:
  assumes "shm_inv s"
  shows "\<exists>s'. sharedmemory_unmap_for_process_all s process = Some s' \<and> shm_inv s' \<and> mapped_addresses s' process = [] \<and>
    (\<forall>p. p \<noteq> process \<longrightarrow> mapped_addresses s' p = mapped_addresses s p)"
  using unmap_each_ok [OF assms, of "mapped_addresses s process" process]
  by (auto simp: sharedmemory_unmap_for_process_all_def)

section \<open>Unmapping a part\<close>

text \<open>The frames of a segment are not tables and no page of the process owns them.\<close>

definition apart :: "vmm_state \<Rightarrow> nat list \<Rightarrow> bool" where
  "apart s fs \<longleftrightarrow> (\<forall>f \<in> set fs. f \<noteq> pd_frame s \<and> (\<forall>k < 1023. is_table (pde s k) \<longrightarrow> frame_of (pde s k) \<noteq> f) \<and>
     (\<forall>k j. 256 \<le> k \<longrightarrow> k < 1023 \<longrightarrow> j < 1024 \<longrightarrow> owned (pte s k j) \<longrightarrow> frame_of (pte s k j) \<noteq> f))"

lemma owned_release:
  assumes "owned_ok s" and "\<forall>k j. 256 \<le> k \<longrightarrow> k < 1023 \<longrightarrow> j < 1024 \<longrightarrow> owned (pte s k j) \<longrightarrow> frame_of (pte s k j) \<noteq> frame_of p"
  shows "owned_ok (vmm_release_page_frame_4k s p)"
  using assms unfolding owned_ok_def release_simps by blast

lemma release_frames_ok:
  assumes "space_ok s" and "owned_ok s" and "apart s (map frame_of ps)"
  shows "space_ok (release_frames s ps)" "owned_ok (release_frames s ps)"
proof -
  have "space_ok s \<and> owned_ok s \<and> apart s (map frame_of ps) \<longrightarrow> space_ok (release_frames s ps) \<and> owned_ok (release_frames s ps)"
    for s
  proof (induction ps arbitrary: s)
    case (Cons p ps)
    have "space_ok (vmm_release_page_frame_4k s p)" if "space_ok s" "apart s (map frame_of (p # ps))"
      using that by (intro space_release [where f = "frame_of p"]) (auto simp: apart_def)
    moreover have "owned_ok (vmm_release_page_frame_4k s p)" if "owned_ok s" "apart s (map frame_of (p # ps))"
      using that by (intro owned_release) (auto simp: apart_def)
    moreover have "apart (vmm_release_page_frame_4k s p) (map frame_of ps)" if "apart s (map frame_of (p # ps))"
      using that by (auto simp: apart_def)
    ultimately show ?case using Cons.IH [of "vmm_release_page_frame_4k s p"] by (auto simp: release_frames_def)
  qed (simp add: release_frames_def)
  then show "space_ok (release_frames s ps)" "owned_ok (release_frames s ps)" using assms by blast+
qed

lemma unmap_one_page:
  assumes sp: "space_ok v" "owned_ok v" and q: "0x40000 \<le> q" "q < 0xFFC00" "bm_used mm q"
  shows "\<exists>v' mm'. vmm_unmap_memory v mm (page_addr q) 1 = Some (v', mm', True) \<and>
    (\<forall>w. w < MEMORY_END \<longrightarrow> \<not> same_page (page_addr q) w \<longrightarrow> translate v' w = translate v w) \<and>
    (\<forall>f. bm_used (vm_bitmap v') f \<longrightarrow> bm_used (vm_bitmap v) f)"
proof -
  note a = page_addr_user [OF q(1,2)]
  have qn: "unat (of_nat q :: u32) = q" using q(2) by (intro unat_of_nat_small) simp
  have al: "page_addr q AND 0xFFFFF000 = page_addr q"
  proof (rule bit_word_eqI)
    fix n :: nat assume n: "n < LENGTH(32)"
    have fq: "frame_of (page_addr q) = q" using q(2) by (simp add: page_addr_def frame_of_page RAM_AS_4K_PAGES_def)
    have "unat (page_addr q) = frame_of (page_addr q) * 4096" using fq q(2) by (simp add: page_addr_nat RAM_AS_4K_PAGES_def)
    then have "\<not> bit (page_addr q) n" if "n < 12" using aligned_bits that by blast
    moreover have "(0xFFFFF000 :: u32) = NOT 0xFFF" by simp
    ultimately show "bit (page_addr q AND 0xFFFFF000) n = bit (page_addr q) n"
      using n by (auto simp only: bit_and_iff bit_not_iff bit_low_mask) (auto simp: not_less)
  qed
  obtain v' r where r: "vmm_remove_page_from_pd v (page_addr q) = Some (v', r)"
      "\<forall>w. w < MEMORY_END \<longrightarrow> \<not> same_page (page_addr q) w \<longrightarrow> translate v' w = translate v w"
      "\<forall>f. bm_used (vm_bitmap v') f \<longrightarrow> bm_used (vm_bitmap v) f"
    using remove_page_ok [OF sp a(1)] by (auto simp: ok_iff)
  have lt: "(of_nat q :: u32) < of_nat q + 1"
  proof -
    have "unat (of_nat q + 1 :: u32) = q + 1" using q(2) qn by (subst unat_add_small) simp_all
    then show ?thesis using qn by (simp add: word_less_nat_alt)
  qed
  have used: "is_pageframe_used mm (of_nat q) = Some True"
    using qn q by (simp add: bm_used_iff RAM_AS_4K_PAGES_def)
  have pa: "of_nat q * PAGESIZE_4K = page_addr q" by (simp add: page_addr_def)
  have "unmap_loop v mm (of_nat q) (of_nat q + 1) False = Some (v', set_pageframe_unused mm (page_addr q), True)"
    by (subst unmap_loop.simps, subst unmap_loop.simps) (simp add: lt used r(1) pa Let_def)
  then have "vmm_unmap_memory v mm (page_addr q) 1 = Some (v', set_pageframe_unused mm (page_addr q), True)"
    using a(3) al by (simp add: vmm_unmap_memory_def Let_def)
  then show ?thesis using r(2,3) by blast
qed
text \<open>
  C17: unmapping a part of a shared mapping is unsafe: when a process that holds the last mapping of an
  unlinked segment unmaps only the first page of it, the call succeeds and all frames of the
  segment are free, although the process can still reach the others through its page tables.
\<close>

theorem munmap_part_dangles:
  assumes inv: "shm_inv s" and m: "get_shm s a = Some m" "marked_unlink m" "mmapped_list m = [(b, info)]"
    and f: "find_shm_map process (page_addr q) (g_shm_list s) = Some (a, b)"
    and sp: "space_ok (sh_vmm s)" "owned_ok (sh_vmm s)" "apart (sh_vmm s) (seg_frames m)"
    and q: "0x40000 \<le> q" "q + j < 0xFFC00" "0 < j" "bm_used mm q"
    and t: "translate (sh_vmm s) (page_addr (q + j)) = Some (fr, 0)" "fr \<in> set (seg_frames m)"
  shows "\<exists>s' mm'. syscall_munmap s mm process (page_addr q) 0x1000 = Some (s', mm', 0) \<and>
    translate (sh_vmm s') (page_addr (q + j)) = Some (fr, 0) \<and> \<not> bm_used (vm_bitmap (sh_vmm s')) fr"
proof -
  obtain xs ys where at: "at_shm s xs a m ys" using get_shm_at [OF m(1)] by blast
  let ?m = "m\<lparr>mmapped_list := []\<rparr>"
  let ?v = "release_frames (sh_vmm s) (physical_address_list m)"
  let ?s1 = "sharedmemory_destroy ((put_shm s a ?m)\<lparr>sh_vmm := ?v\<rparr>) a"
  have g: "get_shm (put_shm s a ?m) a = Some ?m" using at_shm_simps(1) [OF at_shm_simps(3) [OF at, of ?m]] .
  have u: "sharedmemory_unmap_if_exists s process (page_addr q) = Some (?s1, True)"
    using f m g at_shm_simps(5) [OF at, of ?m]
    by (simp add: sharedmemory_unmap_if_exists_def sharedmemory_destroy_if_suitable_def)
  have v1: "sh_vmm ?s1 = ?v" by (simp add: sharedmemory_destroy_def)
  have sp': "space_ok ?v" "owned_ok ?v"
    using release_frames_ok [OF sp(1,2)] sp(3) by (simp_all add: seg_frames_def)
  have q1: "q < 0xFFC00" using q(2) by simp
  obtain v2 mm' where v2: "vmm_unmap_memory ?v mm (page_addr q) 1 = Some (v2, mm', True)"
      "\<forall>w. w < MEMORY_END \<longrightarrow> \<not> same_page (page_addr q) w \<longrightarrow> translate v2 w = translate ?v w"
      "\<forall>f. bm_used (vm_bitmap v2) f \<longrightarrow> bm_used (vm_bitmap ?v) f"
    using unmap_one_page [OF sp' q(1) q1 q(4)] by blast
  have user: "\<not> page_addr q < USER_OFFSET" "check_user_access (page_addr q)"
    using page_addr_nat [of q] q(1) q1
    by (simp_all add: check_user_access_def word_less_nat_alt word_le_nat_alt USER_OFFSET_def RAM_AS_4K_PAGES_def)
  have one: "PAGE_COUNT 0x1000 = 1"
  proof -
    have "sint (0xFFF :: i32) = 0xFFF" using sint_word_of_int [of "0xFFF"] by simp
    then show ?thesis by (simp add: PAGE_COUNT_def signed_divide_int_def)
  qed
  have run: "syscall_munmap s mm process (page_addr q) 0x1000 = Some (?s1\<lparr>sh_vmm := v2\<rparr>, mm', 0)"
    using user u v1 v2(1) by (simp add: syscall_munmap_def one)
  have w: "page_addr (q + j) < MEMORY_END"
    using page_addr_nat [of "q + j"] q(2) by (simp add: word_less_nat_alt MEMORY_END_def RAM_AS_4K_PAGES_def)
  have "\<not> same_page (page_addr q) (page_addr (q + j))"
    using same_page_addr [of q "q + j"] q(2,3) by (simp add: RAM_AS_4K_PAGES_def)
  then have "translate v2 (page_addr (q + j)) = translate ?v (page_addr (q + j))" using v2(2) w by blast
  also have "\<dots> = Some (fr, 0)"
    using t(1) unfolding translate_def release_frames_tables .
  finally have "translate v2 (page_addr (q + j)) = Some (fr, 0)" .
  moreover have "\<not> bm_used (vm_bitmap v2) fr"
    using v2(3) t(2) release_frames_used [of "sh_vmm s" "physical_address_list m" fr] by (auto simp: seg_frames_def)
  ultimately show ?thesis using run by (intro exI [of _ "?s1\<lparr>sh_vmm := v2\<rparr>"] exI [of _ mm']) simp
qed

section \<open>Examples\<close>

text \<open>A segment of two frames, mapped by process 1 at \<^verbatim>\<open>0x80000000\<close>; its table is frame 4096.\<close>

definition two_pages :: vmm_state where
  "two_pages = \<lparr>vm_pm = (\<lambda>f i. if f = 1 \<and> i = 1023 then 0x1003 else if f = 1 \<and> i = 512 then 0x1000007
       else if f = 4096 \<and> i = 0 then 0x1388007 else if f = 4096 \<and> i = 1 then 0x1389007 else 0),
     vm_cr3 = 0x1000, vm_bitmap = (\<lambda>i. 0xFF), vm_total = 16384\<rparr>"

definition sample_segment :: SharedMemory where
  "sample_segment = \<lparr>sm_node = 0x7000, sm_name = [115, 0], sm_length = 0x2000, physical_address_list = [0x1388000, 0x1389000],
     mmapped_list = [(0x9000, \<lparr>mi_process = 1, mi_v_address = 0x80000000, mi_page_count = 2\<rparr>)], marked_unlink = True\<rparr>"

definition sample_shm :: shm_state where
  "sample_shm = \<lparr>g_shm_list = [(0x8000, sample_segment)], sh_vmm = two_pages\<rparr>"

lemma two_pages_ok: "space_ok two_pages" "owned_ok two_pages" "apart two_pages [5000, 5001]"
  "translate two_pages (page_addr (0x80000 + 1)) = Some (5001, 0)"
  "bm_used (vm_bitmap two_pages) f"
proof -
  have used: "bm_used (vm_bitmap two_pages) f" for f
    by (rule bm_used_full_byte) (simp add: two_pages_def)
  then show "bm_used (vm_bitmap two_pages) f" .
  have pdf: "pd_frame two_pages = 1" by (simp add: pd_frame_def two_pages_def frame_of_def)
  have pd: "pde two_pages i = (if i = 1023 then 0x1003 else if i = 512 then 0x1000007 else 0)" for i
    by (simp add: pde_def pdf) (simp add: two_pages_def)
  have e: "is_table 0x1003" "is_table 0x1000007" "\<not> is_table 0" "frame_of 0x1003 = 1"
      "frame_of 0x1000007 = 4096" "frame_of 0x1388007 = 5000" "frame_of 0x1389007 = 5001" "\<not> owned 0x1388007" "\<not> owned 0x1389007"
      "present 0x1389007" "0x1000007 AND PG_4MB = 0"
    by (simp_all add: is_table_def present_def PG_PRESENT_def PG_4MB_def frame_of_def owned_def PG_OWNED_def)
  show "space_ok two_pages"
    using e used by (auto simp: space_ok_def self_mapped_def pd pdf PG_4MB_def split: if_splits)
  have pt: "pte two_pages k j = (if k = 512 \<and> j = 0 then 0x1388007 else if k = 512 \<and> j = 1 then 0x1389007 else 0)" if "k < 1023" for k j
    using that e by (auto simp: pte_def pd) (auto simp: two_pages_def)
  show "owned_ok two_pages" using e by (auto simp: owned_ok_def pt split: if_splits)
  show "apart two_pages [5000, 5001]" using e by (auto simp: apart_def pt pd pdf split: if_splits)
  have v: "page_addr (0x80000 + 1) = 0x80001000" by (simp add: page_addr_def PAGESIZE_4K_def)
  have ix: "pd_ix 0x80001000 = 512" "pt_ix 0x80001000 = 1" by (simp_all add: pd_ix_def pt_ix_def)
  show "translate two_pages (page_addr (0x80000 + 1)) = Some (5001, 0)"
    unfolding v translate_view ix using e pt [of 512 1] by (simp add: pd)
qed

lemma sample_frames: "seg_frames sample_segment = [5000, 5001]"
  by (simp add: seg_frames_def sample_segment_def frame_of_def)

lemma sample_shm_inv: "shm_inv sample_shm"
proof -
  have "nat (sint (PAGE_COUNT 0x2000)) = 2" using PAGE_COUNT_pos(1) [of "0x2000"] by simp
  then have "seg_ok two_pages sample_segment"
    using two_pages_ok(5) by (simp add: seg_ok_def) (simp add: sample_segment_def)
  then show ?thesis by (simp add: shm_inv_def sample_shm_def sample_frames)
qed

lemma sample_shm_simps: "get_shm sample_shm 0x8000 = Some sample_segment" "g_shm_list sample_shm = [(0x8000, sample_segment)]"
  "sh_vmm sample_shm = two_pages" "marked_unlink sample_segment"
  "mmapped_list sample_segment = [(0x9000, \<lparr>mi_process = 1, mi_v_address = 0x80000000, mi_page_count = 2\<rparr>)]"
  by (simp_all add: get_shm_def sample_shm_def sample_segment_def)

theorem munmap_part_dangles_witness:
  "\<exists>s' mm'. syscall_munmap sample_shm (\<lambda>_. 0xFF) 1 (page_addr 0x80000) 0x1000 = Some (s', mm', 0) \<and>
     translate (sh_vmm s') (page_addr (0x80000 + 1)) = Some (5001, 0) \<and> \<not> bm_used (vm_bitmap (sh_vmm s')) 5001"
proof -
  have pa: "page_addr 0x80000 = 0x80000000" by (simp add: page_addr_def PAGESIZE_4K_def)
  have f: "find_shm_map 1 (page_addr 0x80000) (g_shm_list sample_shm) = Some (0x8000, 0x9000)"
    by (simp add: sample_shm_simps pa)
  have q: "(0x40000 :: nat) \<le> 0x80000" "(0x80000 :: nat) + 1 < 0xFFC00" "(0 :: nat) < 1" "bm_used (\<lambda>_. 0xFF) 0x80000"
    by (simp_all add: bm_used_full_byte)
  have fr: "5001 \<in> set (seg_frames sample_segment)" by (simp add: sample_frames)
  from munmap_part_dangles [OF sample_shm_inv sample_shm_simps(1,4,5) f, unfolded sample_shm_simps(3) sample_frames,
      OF two_pages_ok(1,2,3) q two_pages_ok(4)] fr
  show ?thesis by (simp add: sample_frames)
qed

theorem sharedmemory_unmap_correct_witness:
  "\<exists>s'. sharedmemory_unmap_if_exists sample_shm 1 0x80000000 = Some (s', True) \<and> shm_inv s'"
proof -
  have a: "0x80000000 \<in> set (mapped_addresses sample_shm 1)"
    by (simp add: mapped_addresses_def sample_shm_simps)
  obtain s' r where "sharedmemory_unmap_if_exists sample_shm 1 0x80000000 = Some (s', r)" "shm_inv s'"
      "r = (0x80000000 \<in> set (mapped_addresses sample_shm 1))"
    using sharedmemory_unmap_correct [OF sample_shm_inv, of 1 "0x80000000"] by blast
  then show ?thesis using a by auto
qed

theorem sharedmemory_unmap_all_correct_witness:
  "\<exists>s'. sharedmemory_unmap_for_process_all sample_shm 1 = Some s' \<and> mapped_addresses s' 1 = []"
  using sharedmemory_unmap_all_correct [OF sample_shm_inv, of 1] by blast



end
