(* ===== verification/Socket.thy ===== *)
theory Socket
  imports Pipe FileOps
begin

text \<open>
  \<^verbatim>\<open>kernel/socket.c\<close> and \<^verbatim>\<open>kernel/unixsocket.c\<close>: local sockets. Sockets and their names live in stores
  indexed by address; lists and queues are the sequences of \<open>KList\<close>. The seven function pointers of a
  socket are all null or all those of \<^verbatim>\<open>unixsocket.c\<close>, which is one truth value. Addresses that
  \<^verbatim>\<open>kmalloc\<close> returns are arguments. A call that has to wait is one attempt that puts the caller to
  sleep and returns no value, as in \<open>Waiting\<close>; \<^verbatim>\<open>connect\<close>, whose loop differs from its first part,
  has a function for each.
\<close>

section \<open>State\<close>

record UnixSocket =
  us_owner :: ptr
  us_name :: "u8 list"

record Socket =
  sk_node :: ptr
  buffer_out :: FifoBuffer
  buffer_in :: FifoBuffer
  disconnected :: bool
  connection :: ptr
  sk_domain :: i32
  last_thread :: ptr
  sk_opts :: "nat \<Rightarrow> bool"
  accept_queue :: "ptr list"
  custom_socket :: ptr
  unix_ops :: bool

text \<open>The last three fields are the code addresses that mark what a sleeping thread waits for.\<close>

record net_state =
  n_sockets :: "ptr \<Rightarrow> Socket option"
  n_unix :: "ptr \<Rightarrow> UnixSocket option"
  g_socket_list :: "ptr list"
  at_accept :: u32
  at_send :: u32
  at_recv :: u32

definition DOMAIN_SIZE :: i32 where "DOMAIN_SIZE = 3"
definition AF_UNIX :: i32 where "AF_UNIX = 1"
definition SOCKET_NAME_SIZE :: u32 where "SOCKET_NAME_SIZE = 64"
definition SOCKET_BUFFER_SIZE :: u32 where "SOCKET_BUFFER_SIZE = 500 * 1024"
definition SO_ACCEPTCONN :: nat where "SO_ACCEPTCONN = 30"
definition EPERM :: i32 where "EPERM = 1"
definition EBADF :: i32 where "EBADF = 9"
definition EINVAL :: i32 where "EINVAL = 22"
definition ENOTSOCK :: i32 where "ENOTSOCK = 88"
definition EADDRINUSE :: i32 where "EADDRINUSE = 98"
definition EISCONN :: i32 where "EISCONN = 106"

definition put_socket :: "net_state \<Rightarrow> ptr \<Rightarrow> Socket \<Rightarrow> net_state" where
  "put_socket n a x = n\<lparr>n_sockets := (n_sockets n)(a \<mapsto> x)\<rparr>"

text \<open>Making the thread that used a socket last ready, when it waits in the given function.\<close>

definition resume_last :: "kernel_state \<Rightarrow> Socket \<Rightarrow> u32 \<Rightarrow> kernel_state option" where
  "resume_last k x fn = do {
     t \<leftarrow> get_thread k (last_thread x);
     Some (if th_state t = TS_WAITIO \<and> state_privateData t = fn then put_thread k (thread_resume t) else k)
   }"

definition wait_in :: "kernel_state \<Rightarrow> u32 \<Rightarrow> kernel_state option" where
  "wait_in k fn = do {
     t \<leftarrow> get_thread k (k_current k);
     Some ((put_thread k (thread_change_state t TS_WAITIO fn))\<lparr>k_irq := enable_interrupts (k_irq k)\<rparr>)
   }"

definition irq_off :: "kernel_state \<Rightarrow> kernel_state" where
  "irq_off k = k\<lparr>k_irq := disable_interrupts (k_irq k)\<rparr>"

section \<open>Creating and destroying\<close>

definition net_initialize :: "u32 \<Rightarrow> u32 \<Rightarrow> u32 \<Rightarrow> net_state" where
  "net_initialize fn_accept fn_send fn_recv =
     \<lparr>n_sockets = (\<lambda>_. None), n_unix = (\<lambda>_. None), g_socket_list = [], at_accept = fn_accept, at_send = fn_send,
      at_recv = fn_recv\<rparr>"

definition new_socket :: Socket where
  "new_socket = \<lparr>sk_node = 0, buffer_out = fifobuffer_create SOCKET_BUFFER_SIZE,
     buffer_in = fifobuffer_create SOCKET_BUFFER_SIZE, disconnected = False, connection = 0, sk_domain = 0,
     last_thread = 0, sk_opts = (\<lambda>_. False), accept_queue = [], custom_socket = 0, unix_ops = False\<rparr>"

definition socket_create :: "net_state \<Rightarrow> ptr \<Rightarrow> net_state" where
  "socket_create n a = (put_socket n a new_socket)\<lparr>g_socket_list := g_socket_list n @ [a]\<rparr>"

definition socket_destroy :: "net_state \<Rightarrow> ptr \<Rightarrow> net_state" where
  "socket_destroy n a = n\<lparr>g_socket_list := remove1 a (g_socket_list n), n_sockets := (n_sockets n)(a := None)\<rparr>"

definition unixsocket_closing :: "net_state \<Rightarrow> ptr \<Rightarrow> net_state option" where
  "unixsocket_closing n a = do {
     x \<leftarrow> n_sockets n a;
     Some ((put_socket n a (x\<lparr>custom_socket := 0\<rparr>))\<lparr>n_unix := (n_unix n)(custom_socket x := None)\<rparr>)
   }"

section \<open>Names\<close>

text \<open>The walk over all sockets for one with the given name; one that has no name part is a null dereference.\<close>

fun find_named :: "net_state \<Rightarrow> u8 list \<Rightarrow> ptr list \<Rightarrow> ptr option" where
  "find_named n sa_data [] = Some 0"
| "find_named n sa_data (a # as) = do {
     x \<leftarrow> n_sockets n a;
     us \<leftarrow> (if custom_socket x = 0 then None else n_unix n (custom_socket x));
     c \<leftarrow> strcmp sa_data (us_name us);
     if c = 0 then Some a else find_named n sa_data as
   }"

definition unixsocket_bind :: "net_state \<Rightarrow> ptr \<Rightarrow> u8 list \<Rightarrow> (net_state \<times> i32) option" where
  "unixsocket_bind n socket sa_data = do {
     x \<leftarrow> n_sockets n socket;
     us \<leftarrow> (if custom_socket x = 0 then None else n_unix n (custom_socket x));
     len \<leftarrow> strlen (Some (us_name us));
     if sint len > 0 then Some (n, - EINVAL)
     else do {
       l \<leftarrow> strlen (Some sa_data);
       if l = 0 then Some (n, - EINVAL)
       else do {
         a \<leftarrow> find_named n sa_data (g_socket_list n);
         if a \<noteq> 0 then Some (n, - EADDRINUSE)
         else do {
           (nm, m) \<leftarrow> sprintf (us_name us) SOCKET_NAME_SIZE sa_data [];
           Some (n\<lparr>n_unix := (n_unix n)(custom_socket x \<mapsto> us\<lparr>us_name := nm\<rparr>)\<rparr>, 0)
         }
       }
     }
   }"

definition unixsocket_listen :: "net_state \<Rightarrow> ptr \<Rightarrow> i32 \<Rightarrow> (net_state \<times> i32) option" where
  "unixsocket_listen n socket backlog = do {
     x \<leftarrow> n_sockets n socket;
     Some (put_socket n socket (x\<lparr>sk_opts := (sk_opts x)(SO_ACCEPTCONN := True)\<rparr>), 0)
   }"

section \<open>Connecting\<close>

text \<open>Up to the loop that waits: \<open>None\<close> for the result means that the caller waits.\<close>

definition unixsocket_connect ::
  "kernel_state \<Rightarrow> net_state \<Rightarrow> ptr \<Rightarrow> u8 list \<Rightarrow> (kernel_state \<times> net_state \<times> i32 option) option"
where
  "unixsocket_connect k n socket sa_data = do {
     l \<leftarrow> strlen (Some sa_data);
     if l = 0 then Some (k, n, Some (- EINVAL))
     else do {
       x \<leftarrow> n_sockets n socket;
       if connection x \<noteq> 0 then Some (k, n, Some (- EISCONN))
       else do {
         a \<leftarrow> find_named n sa_data (g_socket_list n);
         if a = 0 then Some (k, n, Some (- 1))
         else do {
           y \<leftarrow> n_sockets n a;
           if sk_opts y SO_ACCEPTCONN then do {
             k' \<leftarrow> resume_last k y (at_accept n);
             Some (k', put_socket n a (y\<lparr>accept_queue := accept_queue y @ [socket]\<rparr>), None)
           } else Some (k, n, Some (- 1))
         }
       }
     }
   }"

text \<open>One round of the loop.\<close>

definition unixsocket_connect_poll :: "kernel_state \<Rightarrow> net_state \<Rightarrow> ptr \<Rightarrow> (kernel_state \<times> i32 option) option" where
  "unixsocket_connect_poll k n socket = do {
     x \<leftarrow> n_sockets n socket;
     Some (if connection x = 0 then (k\<lparr>k_irq := enable_interrupts (k_irq k)\<rparr>, None) else (k, Some 0))
   }"

section \<open>Sending and receiving\<close>

definition unixsocket_send ::
  "kernel_state \<Rightarrow> net_state \<Rightarrow> ptr \<Rightarrow> u8 list \<Rightarrow> u32 \<Rightarrow> (kernel_state \<times> net_state \<times> i32 option) option"
where
  "unixsocket_send k n socket buf len =
     (if len = 0 then Some (k, n, Some (- 1))
      else do {
        let k0 = irq_off k;
        x \<leftarrow> n_sockets n socket;
        if connection x = 0 then Some (k0, n, Some (- 1))
        else do {
          y \<leftarrow> n_sockets n (connection x);
          let free_bytes = fifobuffer_get_free (buffer_in y);
          if free_bytes > 0 then do {
            (q, written) \<leftarrow> fifobuffer_enqueue (buffer_in y) buf (min free_bytes len);
            k' \<leftarrow> resume_last k0 y (at_recv n);
            Some (k', put_socket n (connection x) (y\<lparr>buffer_in := q\<rparr>), Some written)
          } else do {
            k' \<leftarrow> wait_in k0 (at_send n);
            Some (k', n, None)
          }
        }
      })"

definition unixsocket_recv ::
  "kernel_state \<Rightarrow> net_state \<Rightarrow> ptr \<Rightarrow> u8 list \<Rightarrow> u32 \<Rightarrow> (kernel_state \<times> net_state \<times> u8 list \<times> i32 option) option"
where
  "unixsocket_recv k n socket buf len =
     (if len = 0 then Some (k, n, buf, Some (- 1))
      else do {
        let k0 = irq_off k;
        x \<leftarrow> n_sockets n socket;
        if disconnected x then Some (k0, n, buf, Some 0)
        else do {
          let sz = fifobuffer_get_size (buffer_in x);
          if sz > 0 then do {
            (q, buf', r) \<leftarrow> fifobuffer_dequeue (buffer_in x) buf (min sz len);
            y \<leftarrow> (if connection x = 0 then None else n_sockets n (connection x));
            k' \<leftarrow> resume_last k0 y (at_send n);
            Some (k', put_socket n socket (x\<lparr>buffer_in := q\<rparr>), buf', Some r)
          } else do {
            k' \<leftarrow> wait_in k0 (at_recv n);
            Some (k', n, buf, None)
          }
        }
      })"

definition unixsocket_fs_read_test_ready :: "net_state \<Rightarrow> ptr \<Rightarrow> bool option" where
  "unixsocket_fs_read_test_ready n socket = do {
     x \<leftarrow> n_sockets n socket;
     Some (accept_queue x \<noteq> [] \<or> fifobuffer_get_size (buffer_in x) > 0 \<or> disconnected x)
   }"
section \<open>Sockets as files\<close>

text \<open>The machine with sockets: files, threads and processes of \<open>FileOps\<close>.\<close>

type_synonym net_machine = "net_state io_state"

definition SOCKET_CODE :: fs_fn where "SOCKET_CODE = Fn_driver 1"

text \<open>The name part, the function pointers of the socket and those of its node.\<close>

definition unixsocket_setup :: "net_machine \<Rightarrow> ptr \<Rightarrow> ptr \<Rightarrow> net_machine option" where
  "unixsocket_setup s a unix_addr = do {
     x \<leftarrow> n_sockets (io_world s) a;
     d \<leftarrow> nd (io_fs s) (sk_node x);
     Some (s\<lparr>io_world := (put_socket (io_world s) a (x\<lparr>custom_socket := unix_addr, unix_ops := True\<rparr>))
               \<lparr>n_unix := (n_unix (io_world s))(unix_addr \<mapsto> \<lparr>us_owner = a, us_name = replicate 64 0\<rparr>)\<rparr>,
             io_fs := put_nd (io_fs s) (sk_node x)
               (d\<lparr>nd_read_test_ready := SOCKET_CODE, nd_read := SOCKET_CODE, nd_write := SOCKET_CODE\<rparr>)\<rparr>)
   }"

definition socket_fs_open :: "ptr \<Rightarrow> ptr \<Rightarrow> u32 \<Rightarrow> net_machine \<Rightarrow> (net_machine \<times> bool) option" where
  "socket_fs_open unix_addr file flags s = do {
     d \<leftarrow> file_node s file;
     x \<leftarrow> n_sockets (io_world s) (private_node_data d);
     s' \<leftarrow> (if sk_domain x = AF_UNIX then unixsocket_setup s (private_node_data d) unix_addr else Some s);
     Some (s', True)
   }"

definition socket_disconnect :: "net_state \<Rightarrow> Socket \<Rightarrow> net_state option" where
  "socket_disconnect n x =
     (if connection x \<noteq> 0 then do {
        y \<leftarrow> n_sockets n (connection x);
        Some (put_socket n (connection x) (y\<lparr>connection := 0, disconnected := True\<rparr>))
      } else Some n)"

text \<open>What closing does to the sockets; the node is freed as well.\<close>

definition socket_close :: "net_state \<Rightarrow> ptr \<Rightarrow> net_state option" where
  "socket_close n a = do {
     x \<leftarrow> n_sockets n a;
     n1 \<leftarrow> (if unix_ops x then unixsocket_closing n a else Some n);
     n2 \<leftarrow> socket_disconnect n1 x;
     Some (socket_destroy n2 a)
   }"

definition socket_fs_close :: "ptr \<Rightarrow> net_machine \<Rightarrow> net_machine option" where
  "socket_fs_close file s = do {
     d \<leftarrow> file_node s file;
     x \<leftarrow> n_sockets (io_world s) (private_node_data d);
     n \<leftarrow> socket_close (io_world s) (private_node_data d);
     Some (s\<lparr>io_world := n, io_fs := (io_fs s)\<lparr>fs_nodes := (fs_nodes (io_fs s))(sk_node x := None)\<rparr>\<rparr>)
   }"

text \<open>
  The operations of a socket's node. Its read and write functions take the buffer itself and are
  below; a socket has no others.
\<close>

definition socket_calls :: "ptr \<Rightarrow> net_state file_calls" where
  "socket_calls unix_addr = \<lparr>c_open = (\<lambda>a. socket_fs_open unix_addr), c_close = (\<lambda>a. socket_fs_close),
     c_read = (\<lambda>a f sz b s. None), c_write = (\<lambda>a f sz b s. None), c_unlink = (\<lambda>a nd f s. None),
     c_ioctl = (\<lambda>a f r p s. None), c_lseek = (\<lambda>a f o' w s. None), c_ftruncate = (\<lambda>a f l s. None),
     c_mmap = (\<lambda>a f sz o' g s. None), c_munmap = (\<lambda>a f p sz s. None)\<rparr>"

definition get_socket :: "net_machine \<Rightarrow> i32 \<Rightarrow> (net_machine \<times> ptr \<times> i32) option" where
  "get_socket s sockfd = do {
     t \<leftarrow> get_thread (io_k s) (k_current (io_k s));
     if th_owner t = 0 then Some (s, 0, - 1)
     else do {
       p \<leftarrow> k_procs (io_k s) (th_owner t);
       if 0 \<le> sint sockfd \<and> sint sockfd < int ASTERISK_MAX_OPENED_FILES then do {
         file \<leftarrow> rd (p_fd p) (unat sockfd);
         if file = 0 then Some (s, 0, - EBADF)
         else do {
           d \<leftarrow> file_node s file;
           if node_type d \<noteq> FT_SOCKET then Some (s, 0, - ENOTSOCK)
           else do {
             x \<leftarrow> n_sockets (io_world s) (private_node_data d);
             Some (s\<lparr>io_world := put_socket (io_world s) (private_node_data d) (x\<lparr>last_thread := k_current (io_k s)\<rparr>)\<rparr>,
                   private_node_data d, - 1)
           }
         }
       } else Some (s, 0, - EBADF)
     }
   }"

definition socket_node :: "ptr \<Rightarrow> filesystem_node" where
  "socket_node a = zero_node\<lparr>private_node_data := a, node_type := FT_SOCKET, nd_open := SOCKET_CODE, nd_close := SOCKET_CODE\<rparr>"

text \<open>The addresses are those of the socket, its node, its name part and its file.\<close>

definition syscall_socket ::
  "net_machine \<Rightarrow> i32 \<Rightarrow> i32 \<Rightarrow> i32 \<Rightarrow> ptr \<Rightarrow> ptr \<Rightarrow> ptr \<Rightarrow> ptr \<Rightarrow> (net_machine \<times> i32) option"
where
  "syscall_socket s domain ty protocol sock_addr node_addr unix_addr file_addr =
     (if 0 \<le> sint domain \<and> sint domain < sint DOMAIN_SIZE then do {
        let n1 = socket_create (io_world s) sock_addr;
        x \<leftarrow> n_sockets n1 sock_addr;
        let n2 = put_socket n1 sock_addr (x\<lparr>sk_domain := domain, last_thread := k_current (io_k s), sk_node := node_addr\<rparr>);
        (s', file) \<leftarrow> fs_open_for_process (socket_calls unix_addr)
          (s\<lparr>io_world := n2, io_fs := put_nd (io_fs s) node_addr (socket_node sock_addr)\<rparr>)
          (k_current (io_k s)) node_addr O_RDWR file_addr;
        if file \<noteq> 0 then do { f \<leftarrow> k_files (io_k s') file; Some (s', f_fd f) }
        else Some (s', - EPERM)
      } else Some (s, - EPERM))"

definition unixsocket_accept ::
  "net_machine \<Rightarrow> ptr \<Rightarrow> ptr \<Rightarrow> ptr \<Rightarrow> ptr \<Rightarrow> ptr \<Rightarrow> (net_machine \<times> i32 option) option"
where
  "unixsocket_accept s socket sock_addr node_addr unix_addr file_addr = do {
     x \<leftarrow> n_sockets (io_world s) socket;
     if \<not> sk_opts x SO_ACCEPTCONN then Some (s, Some (- EINVAL))
     else do {
       let s0 = s\<lparr>io_k := irq_off (io_k s)\<rparr>;
       (s1, result) \<leftarrow>
         (case accept_queue x of
            [] \<Rightarrow> Some (s0, None)
          | other_end # rest \<Rightarrow>
              if other_end = 0 then Some (s0\<lparr>io_world := put_socket (io_world s) socket (x\<lparr>accept_queue := rest\<rparr>)\<rparr>, None)
              else do {
                (s1, new_fd) \<leftarrow> syscall_socket (s0\<lparr>io_world := put_socket (io_world s) socket (x\<lparr>accept_queue := rest\<rparr>)\<rparr>)
                  (sk_domain x) 1 0 sock_addr node_addr unix_addr file_addr;
                if 0 \<le> sint new_fd \<and> sint new_fd < int ASTERISK_MAX_OPENED_FILES then do {
                  t \<leftarrow> get_thread (io_k s1) (k_current (io_k s1));
                  p \<leftarrow> k_procs (io_k s1) (th_owner t);
                  file \<leftarrow> rd (p_fd p) (unat new_fd);
                  if file = 0 then Some (s1, None)
                  else do {
                    d \<leftarrow> file_node s1 file;
                    y \<leftarrow> n_sockets (io_world s1) (private_node_data d);
                    let n1 = put_socket (io_world s1) (private_node_data d) (y\<lparr>connection := other_end\<rparr>);
                    z \<leftarrow> n_sockets n1 other_end;
                    Some (s1\<lparr>io_world := put_socket n1 other_end (z\<lparr>connection := private_node_data d\<rparr>)\<rparr>, Some new_fd)
                  }
                } else Some (s1, None)
              });
       case result of
         Some fd \<Rightarrow> Some (s1, Some fd)
       | None \<Rightarrow> do {
           k' \<leftarrow> wait_in (io_k s1) (at_accept (io_world s1));
           Some (s1\<lparr>io_k := k'\<rparr>, None)
         }
     }
   }"

section \<open>System calls\<close>

definition syscall_bind :: "net_machine \<Rightarrow> i32 \<Rightarrow> u8 list \<Rightarrow> (net_machine \<times> i32) option" where
  "syscall_bind s sockfd sa_data = do {
     (s', a, err) \<leftarrow> get_socket s sockfd;
     if a = 0 then Some (s', err)
     else do {
       x \<leftarrow> n_sockets (io_world s') a;
       if unix_ops x then do {
         (n, r) \<leftarrow> unixsocket_bind (io_world s') a sa_data;
         Some (s'\<lparr>io_world := n\<rparr>, r)
       } else Some (s', err)
     }
   }"

definition syscall_listen :: "net_machine \<Rightarrow> i32 \<Rightarrow> i32 \<Rightarrow> (net_machine \<times> i32) option" where
  "syscall_listen s sockfd backlog = do {
     (s', a, err) \<leftarrow> get_socket s sockfd;
     if a = 0 then Some (s', err)
     else do {
       x \<leftarrow> n_sockets (io_world s') a;
       if unix_ops x then do {
         (n, r) \<leftarrow> unixsocket_listen (io_world s') a backlog;
         Some (s'\<lparr>io_world := n\<rparr>, r)
       } else Some (s', err)
     }
   }"

definition syscall_connect :: "net_machine \<Rightarrow> i32 \<Rightarrow> u8 list \<Rightarrow> (net_machine \<times> i32 option) option" where
  "syscall_connect s sockfd sa_data = do {
     (s', a, err) \<leftarrow> get_socket s sockfd;
     if a = 0 then Some (s', Some err)
     else do {
       x \<leftarrow> n_sockets (io_world s') a;
       if unix_ops x then do {
         (k, n, r) \<leftarrow> unixsocket_connect (io_k s') (io_world s') a sa_data;
         Some (s'\<lparr>io_k := k, io_world := n\<rparr>, r)
       } else Some (s', Some err)
     }
   }"

definition syscall_accept ::
  "net_machine \<Rightarrow> i32 \<Rightarrow> ptr \<Rightarrow> ptr \<Rightarrow> ptr \<Rightarrow> ptr \<Rightarrow> (net_machine \<times> i32 option) option"
where
  "syscall_accept s sockfd sock_addr node_addr unix_addr file_addr = do {
     (s', a, err) \<leftarrow> get_socket s sockfd;
     if a = 0 then Some (s', Some err)
     else do {
       x \<leftarrow> n_sockets (io_world s') a;
       if unix_ops x then unixsocket_accept s' a sock_addr node_addr unix_addr file_addr else Some (s', Some err)
     }
   }"

definition syscall_send :: "net_machine \<Rightarrow> i32 \<Rightarrow> u8 list \<Rightarrow> u32 \<Rightarrow> (net_machine \<times> i32 option) option" where
  "syscall_send s sockfd buf len = do {
     (s', a, err) \<leftarrow> get_socket s sockfd;
     if a = 0 then Some (s', Some err)
     else do {
       x \<leftarrow> n_sockets (io_world s') a;
       if unix_ops x then do {
         (k, n, r) \<leftarrow> unixsocket_send (io_k s') (io_world s') a buf len;
         Some (s'\<lparr>io_k := k, io_world := n\<rparr>, r)
       } else Some (s', Some err)
     }
   }"

definition syscall_recv :: "net_machine \<Rightarrow> i32 \<Rightarrow> u8 list \<Rightarrow> u32 \<Rightarrow> (net_machine \<times> u8 list \<times> i32 option) option" where
  "syscall_recv s sockfd buf len = do {
     (s', a, err) \<leftarrow> get_socket s sockfd;
     if a = 0 then Some (s', buf, Some err)
     else do {
       x \<leftarrow> n_sockets (io_world s') a;
       if unix_ops x then do {
         (k, n, buf', r) \<leftarrow> unixsocket_recv (io_k s') (io_world s') a buf len;
         Some (s'\<lparr>io_k := k, io_world := n\<rparr>, buf', r)
       } else Some (s', buf, Some err)
     }
   }"

text \<open>
  The node's read and write functions are receive and send on the file's socket, without a change
  of its last thread.
\<close>

definition unixsocket_fs_read :: "net_machine \<Rightarrow> ptr \<Rightarrow> u32 \<Rightarrow> u8 list \<Rightarrow> (net_machine \<times> u8 list \<times> i32 option) option" where
  "unixsocket_fs_read s file len buf = do {
     d \<leftarrow> file_node s file;
     (k, n, buf', r) \<leftarrow> unixsocket_recv (io_k s) (io_world s) (private_node_data d) buf len;
     Some (s\<lparr>io_k := k, io_world := n\<rparr>, buf', r)
   }"

definition unixsocket_fs_write :: "net_machine \<Rightarrow> ptr \<Rightarrow> u32 \<Rightarrow> u8 list \<Rightarrow> (net_machine \<times> i32 option) option" where
  "unixsocket_fs_write s file len buf = do {
     d \<leftarrow> file_node s file;
     (k, n, r) \<leftarrow> unixsocket_send (io_k s) (io_world s) (private_node_data d) buf len;
     Some (s\<lparr>io_k := k, io_world := n\<rparr>, r)
   }"

text \<open>The calls that are not supported, whatever their arguments.\<close>

definition syscall_socketpair :: i32 where "syscall_socketpair = - EPERM"
definition syscall_shutdown :: i32 where "syscall_shutdown = - EPERM"
definition syscall_accept4 :: i32 where "syscall_accept4 = - EPERM"
definition syscall_getsockname :: i32 where "syscall_getsockname = - EPERM"
definition syscall_getpeername :: i32 where "syscall_getpeername = - EPERM"
definition syscall_sendto :: i32 where "syscall_sendto = - EPERM"
definition syscall_recvfrom :: i32 where "syscall_recvfrom = - EPERM"
definition syscall_sendmsg :: i32 where "syscall_sendmsg = - EPERM"
definition syscall_recvmsg :: i32 where "syscall_recvmsg = - EPERM"
definition syscall_getsockopt :: i32 where "syscall_getsockopt = - EPERM"
definition syscall_setsockopt :: i32 where "syscall_setsockopt = - EPERM"
section \<open>What the calls do to the sockets\<close>

text \<open>The state of the sockets after a new one has been created and set up.\<close>

definition made_socket :: "ptr \<Rightarrow> ptr \<Rightarrow> i32 \<Rightarrow> ptr \<Rightarrow> Socket" where
  "made_socket node thread domain u =
     (let x = new_socket\<lparr>sk_domain := domain, last_thread := thread, sk_node := node\<rparr>
      in if domain = AF_UNIX then x\<lparr>custom_socket := u, unix_ops := True\<rparr> else x)"

definition socket_made :: "net_state \<Rightarrow> ptr \<Rightarrow> ptr \<Rightarrow> ptr \<Rightarrow> i32 \<Rightarrow> ptr \<Rightarrow> net_state" where
  "socket_made n a node thread domain u =
     n\<lparr>n_sockets := (n_sockets n)(a \<mapsto> made_socket node thread domain u),
       n_unix := (if domain = AF_UNIX then (n_unix n)(u \<mapsto> \<lparr>us_owner = a, us_name = replicate 64 0\<rparr>) else n_unix n),
       g_socket_list := g_socket_list n @ [a]\<rparr>"

definition running :: "net_machine \<Rightarrow> Thread \<Rightarrow> Process \<Rightarrow> bool" where
  "running s t p \<longleftrightarrow> k_current (io_k s) \<noteq> 0 \<and> get_thread (io_k s) (k_current (io_k s)) = Some t \<and>
     k_procs (io_k s) (th_owner t) = Some p \<and> length (p_fd p) = ASTERISK_MAX_OPENED_FILES \<and> th_owner t \<noteq> 0"

text \<open>The addresses \<^verbatim>\<open>kmalloc\<close> returns are new.\<close>

definition fresh :: "net_state \<Rightarrow> ptr \<Rightarrow> ptr \<Rightarrow> ptr \<Rightarrow> ptr \<Rightarrow> bool" where
  "fresh n a b u f \<longleftrightarrow> a \<noteq> 0 \<and> b \<noteq> 0 \<and> u \<noteq> 0 \<and> f \<noteq> 0 \<and> n_sockets n a = None \<and> a \<notin> set (g_socket_list n) \<and> n_unix n u = None"

definition same_threads :: "net_machine \<Rightarrow> net_machine \<Rightarrow> bool" where
  "same_threads s s' \<longleftrightarrow> k_threads (io_k s') = k_threads (io_k s) \<and> k_current (io_k s') = k_current (io_k s)"

lemma socket_node_simps [simp]: "\<not> is_mounted (socket_node a)" "nd_open (socket_node a) = Fn_driver 1"
  "private_node_data (socket_node a) = a" "node_type (socket_node a) = FT_SOCKET" "nd_close (socket_node a) = Fn_driver 1"
  by (simp_all add: is_mounted_def socket_node_def has_type_def FT_SOCKET_def FT_MOUNT_POINT_def SOCKET_CODE_def)

lemma get_thread_cong: "k_threads k' = k_threads k \<Longrightarrow> get_thread k' a = get_thread k a"
  by (simp add: get_thread_def)

lemma put_nd_get [simp]: "b \<noteq> 0 \<Longrightarrow> nd (put_nd fs b d) b = Some d"
  by (simp add: nd_def put_nd_def)

lemma update_same [simp]: "(m :: 'a \<Rightarrow> 'b option) a = None \<Longrightarrow> m(a := None) = m"
  by auto

lemma syscall_socket_ok:
  assumes run: "running s t p" and d: "0 \<le> sint d" "sint d < sint DOMAIN_SIZE" and fr: "fresh (io_world s) a b u f"
  shows "\<exists>s'. same_threads s s' \<and>
    (case find_slot (\<lambda>g. g = 0) (p_fd p) of
       None \<Rightarrow> syscall_socket s d ty pr a b u f = Some (s', - EPERM) \<and> io_world s' = io_world s
     | Some i \<Rightarrow> syscall_socket s d ty pr a b u f = Some (s', of_nat i) \<and> i < ASTERISK_MAX_OPENED_FILES \<and>
         io_world s' = socket_made (io_world s) a b (k_current (io_k s)) d u \<and>
         k_procs (io_k s') (th_owner t) = Some (p\<lparr>p_fd := (p_fd p)[i := f]\<rparr>) \<and>
         (\<exists>F D. k_files (io_k s') f = Some F \<and> f_node F = b \<and> nd (io_fs s') b = Some D \<and> private_node_data D = a \<and>
            node_type D = FT_SOCKET))"
proof -
  let ?n = "io_world s" and ?thr = "k_current (io_k s)"
  note r = run [unfolded running_def] and q = fr [unfolded fresh_def]
  let ?x = "new_socket\<lparr>sk_domain := d, last_thread := ?thr, sk_node := b\<rparr>"
  define n2 where "n2 = put_socket (socket_create ?n a) a ?x"
  have mk: "n_sockets (socket_create ?n a) a = Some new_socket" by (simp add: socket_create_def put_socket_def)
  have n2: "n_sockets n2 a = Some ?x" "g_socket_list n2 = g_socket_list ?n @ [a]" "n_unix n2 = n_unix ?n"
    by (simp_all add: n2_def put_socket_def socket_create_def)
  define s1 where "s1 = s\<lparr>io_world := n2, io_fs := put_nd (io_fs s) b (socket_node a)\<rparr>"
  let ?F = "\<lparr>f_node = b, f_process = th_owner t, f_thread = ?thr, f_fd = 0, f_flags = O_RDWR, f_offset = 0, f_private_data = 0\<rparr>"
  define s2 where "s2 = put_file s1 f (Some ?F)"
  define D where "D = (if d = AF_UNIX then (socket_node a)\<lparr>nd_read_test_ready := SOCKET_CODE, nd_read := SOCKET_CODE,
      nd_write := SOCKET_CODE\<rparr> else socket_node a)"
  define s3 where "s3 = s2\<lparr>io_world := socket_made ?n a b ?thr d u, io_fs := put_nd (io_fs s2) b D\<rparr>"
  have s2: "io_world s2 = n2" "nd (io_fs s2) b = Some (socket_node a)" "k_files (io_k s2) f = Some ?F" "io_fs s2 = put_nd (io_fs s) b (socket_node a)"
    using q by (simp_all add: s2_def s1_def put_file_def)
  have made: "socket_made ?n a b ?thr d u = (if d = AF_UNIX then (put_socket n2 a (?x\<lparr>custom_socket := u, unix_ops := True\<rparr>))
      \<lparr>n_unix := (n_unix n2)(u \<mapsto> \<lparr>us_owner = a, us_name = replicate 64 0\<rparr>)\<rparr> else n2)"
    by (simp add: socket_made_def made_socket_def n2_def put_socket_def socket_create_def Let_def)
  have put2: "put_nd (put_nd (io_fs s) b (socket_node a)) b (socket_node a) = put_nd (io_fs s) b (socket_node a)"
    by (simp add: put_nd_def)
  have op: "socket_fs_open u f O_RDWR s2 = Some (s3, True)"
  proof (cases "d = AF_UNIX")
    case True
    show ?thesis using s2 n2 q True
      by (simp add: socket_fs_open_def file_node_def unixsocket_setup_def s3_def made [unfolded True] D_def)
  next
    case False
    have "s3 = s2" using False s2 by (simp add: s3_def made D_def put2)
    then show ?thesis using False s2 n2 by (simp add: socket_fs_open_def file_node_def)
  qed
  have k3: "io_k s3 = io_k s2" "io_fs s3 = put_nd (io_fs s2) b D" "io_world s3 = socket_made ?n a b ?thr d u"
    by (simp_all add: s3_def)
  have k2: "k_threads (io_k s2) = k_threads (io_k s)" "k_current (io_k s2) = k_current (io_k s)" "k_procs (io_k s2) = k_procs (io_k s)"
    by (simp_all add: s2_def s1_def put_file_def)
  have Dp: "private_node_data D = a" "node_type D = FT_SOCKET" "nd_close D = Fn_driver 1" by (simp_all add: D_def)
  have nodeD: "nd (io_fs s3) b = Some D" using q k3(2) by simp
  have g1: "get_thread (io_k s1) ?thr = Some t" using r by (simp add: s1_def)
  have nb: "nd (io_fs s1) b = Some (socket_node a)" using q by (simp add: s1_def)
  have call: "call_open (socket_calls u) (Fn_driver 1) f O_RDWR s2 = Some (s3, True)"
    using op by (simp add: call_open_def socket_calls_def)
  have start: "syscall_socket s d ty pr a b u f = (do {
      (s', file) \<leftarrow> fs_open_for_process (socket_calls u) s1 ?thr b O_RDWR f;
      if file \<noteq> 0 then do { g \<leftarrow> k_files (io_k s') file; Some (s', f_fd g) } else Some (s', - EPERM) })"
    using d mk by (simp add: syscall_socket_def s1_def n2_def)
  show ?thesis
  proof (cases "find_slot (\<lambda>g. g = 0) (p_fd p)")
    case (Some i)
    have i: "i < ASTERISK_MAX_OPENED_FILES" using Some r by (auto simp: find_slot_Some)
    then have fd: "\<not> sint (of_nat i :: i32) < 0"
      using sint_nonneg [of "of_nat i"] by (simp add: ASTERISK_MAX_OPENED_FILES_def unat_of_nat_small)
    have add: "process_add_file irq p f g = (end_critical_section (begin_critical_section irq),
        p\<lparr>p_fd := (p_fd p)[i := f]\<rparr>, g\<lparr>f_fd := of_nat i\<rparr>, of_nat i)" for irq g
      using Some by (simp add: process_add_file_def)
    define s4 where "s4 = put_file (put_proc s3 (th_owner t) (p\<lparr>p_fd := (p_fd p)[i := f]\<rparr>)
        (end_critical_section (begin_critical_section (k_irq (io_k s3))))) f (Some (?F\<lparr>f_fd := of_nat i\<rparr>))"
    have "fs_open_for_process (socket_calls u) s1 ?thr b O_RDWR f = Some (s4, f)"
      using g1 nb r call s2(3) k2(3) k3(1) add fd unfolding s2_def
      by (simp add: fs_open_for_process_def s4_def)
    moreover have "k_files (io_k s4) f = Some (?F\<lparr>f_fd := of_nat i\<rparr>)" by (simp add: s4_def)
    ultimately have res: "syscall_socket s d ty pr a b u f = Some (s4, of_nat i)" using start q by simp
    have s4: "io_world s4 = io_world s3" "io_fs s4 = io_fs s3" "k_threads (io_k s4) = k_threads (io_k s3)"
        "k_current (io_k s4) = k_current (io_k s3)" "k_procs (io_k s4) (th_owner t) = Some (p\<lparr>p_fd := (p_fd p)[i := f]\<rparr>)"
        "k_files (io_k s4) f = Some (?F\<lparr>f_fd := of_nat i\<rparr>)"
      by (simp_all add: s4_def put_file_def put_proc_def)
    have files: "\<exists>F D. k_files (io_k s4) f = Some F \<and> f_node F = b \<and> nd (io_fs s4) b = Some D \<and> private_node_data D = a \<and>
            node_type D = FT_SOCKET"
      using s4(2,6) nodeD Dp by simp
    have st: "same_threads s s4" using s4(3,4) k3(1) k2 by (simp add: same_threads_def)
    have w: "io_world s4 = socket_made ?n a b ?thr d u" using s4(1) k3(3) by simp
    show ?thesis unfolding Some option.case using res i w s4(5) files st by blast
  next
    case None
    have add: "process_add_file irq p f g = (end_critical_section (begin_critical_section irq), p, g, - 1)" for irq g
      using None by (simp add: process_add_file_def)
    define s4 where "s4 = put_file (put_proc s3 (th_owner t) p (end_critical_section (begin_critical_section (k_irq (io_k s3))))) f (Some ?F)"
    have s4: "io_world s4 = io_world s3" "io_fs s4 = io_fs s3" "k_threads (io_k s4) = k_threads (io_k s3)"
        "k_current (io_k s4) = k_current (io_k s3)" "k_procs (io_k s4) (th_owner t) = Some p" "k_files (io_k s4) f = Some ?F"
      by (simp_all add: s4_def put_file_def put_proc_def)
    have cl: "socket_close (socket_made ?n a b ?thr d u) a = Some ?n"
      using q by (simp add: socket_close_def socket_made_def made_socket_def new_socket_def unixsocket_closing_def
          put_socket_def socket_disconnect_def socket_destroy_def remove1_append Let_def)
    have xs: "\<exists>y. n_sockets (socket_made ?n a b ?thr d u) a = Some y \<and> sk_node y = b"
      by (simp add: socket_made_def made_socket_def Let_def)
    have fn: "file_node s4 f = Some D" using s4 nodeD by (simp add: file_node_def)
    obtain s5 where s5: "socket_fs_close f s4 = Some s5" "io_world s5 = ?n" "io_k s5 = io_k s4"
      using fn Dp cl xs s4(1) k3(3) by (auto simp: socket_fs_close_def)
    obtain irq p' z where rm: "process_remove_file (k_irq (io_k s5)) p f = (irq, p', z)" by (metis prod_cases3)
    have close: "fs_close (socket_calls u) s4 f = Some (put_file (put_proc s5 (th_owner t) p' irq) f None)"
      using fn Dp s5 s4(5,6) rm by (simp add: fs_close_def call_close_def socket_calls_def)
    have "fs_open_for_process (socket_calls u) s1 ?thr b O_RDWR f = Some (put_file (put_proc s5 (th_owner t) p' irq) f None, 0)"
      using g1 nb r call s2(3) k2(3) k3(1) add close unfolding s2_def
      by (simp add: fs_open_for_process_def s4_def)
    then have res: "syscall_socket s d ty pr a b u f = Some (put_file (put_proc s5 (th_owner t) p' irq) f None, - EPERM)"
      using start by simp
    have w: "io_world (put_file (put_proc s5 (th_owner t) p' irq) f None) = ?n" using s5(2) by (simp add: put_file_def put_proc_def)
    have "same_threads s (put_file (put_proc s5 (th_owner t) p' irq) f None)"
      using s5(3) s4(3,4) k3(1) k2 by (simp add: same_threads_def put_file_def put_proc_def)
    then show ?thesis unfolding None option.case using res w by blast
  qed
qed
text \<open>The state of the sockets after an accept: the two sockets name each other.\<close>

definition joined :: "net_state \<Rightarrow> ptr \<Rightarrow> ptr \<Rightarrow> net_state" where
  "joined n a c = n\<lparr>n_sockets := (n_sockets n)(a := map_option (connection_update (\<lambda>_. c)) (n_sockets n a),
     c := map_option (connection_update (\<lambda>_. a)) (n_sockets n c))\<rparr>"

lemma same_threads_running:
  "same_threads s s' \<Longrightarrow> get_thread (io_k s') x = get_thread (io_k s) x"
  by (simp add: same_threads_def get_thread_def)

lemma unixsocket_accept_ok:
  assumes run: "running s t p" and x: "n_sockets (io_world s) l = Some x" "sk_opts x SO_ACCEPTCONN" "accept_queue x = c # rest"
    and dom: "0 \<le> sint (sk_domain x)" "sint (sk_domain x) < sint DOMAIN_SIZE"
    and fr: "fresh (io_world s) a b u f" and c: "c \<noteq> 0" "n_sockets (io_world s) c = Some z"
  shows "let n0 = put_socket (io_world s) l (x\<lparr>accept_queue := rest\<rparr>) in
    case find_slot (\<lambda>g. g = 0) (p_fd p) of
      Some i \<Rightarrow> \<exists>s'. unixsocket_accept s l a b u f = Some (s', Some (of_nat i)) \<and> same_threads s s' \<and>
        io_world s' = joined (socket_made n0 a b (k_current (io_k s)) (sk_domain x) u) a c
    | None \<Rightarrow> \<exists>s'. unixsocket_accept s l a b u f = Some (s', None) \<and> io_world s' = n0 \<and>
        (\<exists>t'. get_thread (io_k s') (k_current (io_k s)) = Some t' \<and> th_state t' = TS_WAITIO)"
proof -
  let ?n = "io_world s" and ?thr = "k_current (io_k s)"
  define n0 where "n0 = put_socket ?n l (x\<lparr>accept_queue := rest\<rparr>)"
  define s0 where "s0 = s\<lparr>io_k := irq_off (io_k s), io_world := n0\<rparr>"
  have s0: "io_world s0 = n0" "k_current (io_k s0) = ?thr" "k_threads (io_k s0) = k_threads (io_k s)" "k_procs (io_k s0) = k_procs (io_k s)"
    by (simp_all add: s0_def irq_off_def)
  have run0: "running s0 t p" using run s0 by (simp add: running_def get_thread_def)
  have al: "a \<noteq> l" using fr x(1) by (auto simp: fresh_def)
  have ac: "a \<noteq> c" using fr c(2) by (auto simp: fresh_def)
  have fr0: "fresh (io_world s0) a b u f" using fr al s0(1) by (auto simp: fresh_def n0_def put_socket_def)
  have head: "unixsocket_accept s l a b u f = (do {
       (s1, new_fd) \<leftarrow> syscall_socket s0 (sk_domain x) 1 0 a b u f;
       (s2, result) \<leftarrow> (if 0 \<le> sint new_fd \<and> sint new_fd < int ASTERISK_MAX_OPENED_FILES then do {
                  t \<leftarrow> get_thread (io_k s1) (k_current (io_k s1));
                  p \<leftarrow> k_procs (io_k s1) (th_owner t);
                  file \<leftarrow> rd (p_fd p) (unat new_fd);
                  if file = 0 then Some (s1, None)
                  else do {
                    d \<leftarrow> file_node s1 file;
                    y \<leftarrow> n_sockets (io_world s1) (private_node_data d);
                    let n1 = put_socket (io_world s1) (private_node_data d) (y\<lparr>connection := c\<rparr>);
                    z \<leftarrow> n_sockets n1 c;
                    Some (s1\<lparr>io_world := put_socket n1 c (z\<lparr>connection := private_node_data d\<rparr>)\<rparr>, Some new_fd)
                  }
                } else Some (s1, None));
       case result of Some fd \<Rightarrow> Some (s2, Some fd)
       | None \<Rightarrow> do { k' \<leftarrow> wait_in (io_k s2) (at_accept (io_world s2)); Some (s2\<lparr>io_k := k'\<rparr>, None) } })"
    using x c(1) by (simp add: unixsocket_accept_def s0_def n0_def split_def)
  show ?thesis
  proof (cases "find_slot (\<lambda>g. g = 0) (p_fd p)")
    case (Some i)
    obtain s1 where s1: "same_threads s0 s1" "syscall_socket s0 (sk_domain x) 1 0 a b u f = Some (s1, of_nat i)" "i < ASTERISK_MAX_OPENED_FILES"
        "io_world s1 = socket_made n0 a b ?thr (sk_domain x) u"
        "k_procs (io_k s1) (th_owner t) = Some (p\<lparr>p_fd := (p_fd p)[i := f]\<rparr>)"
        "\<exists>F D. k_files (io_k s1) f = Some F \<and> f_node F = b \<and> nd (io_fs s1) b = Some D \<and> private_node_data D = a \<and> node_type D = FT_SOCKET"
      using syscall_socket_ok [OF run0 dom fr0, of 1 0] unfolding Some option.case s0 by blast
    then obtain D where D: "file_node s1 f = Some D" "private_node_data D = a" by (auto simp: file_node_def)
    have g1: "get_thread (io_k s1) (k_current (io_k s1)) = Some t"
      using same_threads_running [OF s1(1)] s1(1) run0 by (simp add: same_threads_def running_def)
    have i: "unat (of_nat i :: u32) = i" "sint (of_nat i :: u32) = int i"
      using s1(3) sint_nonneg [of "of_nat i"] by (simp_all add: unat_of_nat_small ASTERISK_MAX_OPENED_FILES_def)
    have slot: "rd ((p_fd p)[i := f]) i = Some f" using run s1(3) by (simp add: rd_def running_def)
    have y: "n_sockets (io_world s1) a = Some (made_socket b ?thr (sk_domain x) u)" by (simp add: s1(4) socket_made_def)
    obtain z1 where z1: "n_sockets (io_world s1) c = Some z1" using c(2) ac by (cases "c = l") (auto simp: s1(4) socket_made_def n0_def put_socket_def)
    let ?n3 = "put_socket (put_socket (io_world s1) a (made_socket b ?thr (sk_domain x) u\<lparr>connection := c\<rparr>)) c (z1\<lparr>connection := a\<rparr>)"
    have f0: "f \<noteq> 0" using fr by (simp add: fresh_def)
    have res: "unixsocket_accept s l a b u f = Some (s1\<lparr>io_world := ?n3\<rparr>, Some (of_nat i))"
      unfolding head using s1(2,3,5) g1 i slot f0 D y z1 ac by (simp add: put_socket_def)
    have "?n3 = joined (io_world s1) a c" using y z1 ac by (simp add: joined_def put_socket_def fun_upd_twist)
    moreover have "same_threads s (s1\<lparr>io_world := ?n3\<rparr>)" using s1(1) s0 by (simp add: same_threads_def)
    ultimately show ?thesis unfolding Let_def Some option.case using res s1(4) n0_def
      by (intro exI [of _ "s1\<lparr>io_world := ?n3\<rparr>"]) simp
  next
    case None
    obtain s1 where s1: "same_threads s0 s1" "syscall_socket s0 (sk_domain x) 1 0 a b u f = Some (s1, - EPERM)" "io_world s1 = n0"
      using syscall_socket_ok [OF run0 dom fr0, of 1 0] unfolding None option.case s0 by blast
    have e: "\<not> (0 \<le> sint (- EPERM))" by (simp add: EPERM_def)
    have g1: "get_thread (io_k s1) (k_current (io_k s1)) = Some t" "k_current (io_k s1) = ?thr"
      using same_threads_running [OF s1(1)] s1(1) run0 s0 by (simp_all add: same_threads_def running_def)
    define k1 where "k1 = (put_thread (io_k s1) (thread_change_state t TS_WAITIO (at_accept n0)))\<lparr>k_irq := enable_interrupts (k_irq (io_k s1))\<rparr>"
    have w: "wait_in (io_k s1) (at_accept n0) = Some k1" using g1 by (simp add: wait_in_def k1_def)
    have res: "unixsocket_accept s l a b u f = Some (s1\<lparr>io_k := k1\<rparr>, None)"
      unfolding head using s1(2,3) e w by simp
    have ta: "th_addr t = ?thr" using get_thread_Some [of "io_k s" ?thr t] run by (simp add: running_def)
    have "get_thread k1 ?thr = get_thread (put_thread (io_k s1) (thread_change_state t TS_WAITIO (at_accept n0))) ?thr"
      by (rule get_thread_cong) (simp add: k1_def)
    also have "\<dots> = Some (thread_change_state t TS_WAITIO (at_accept n0))"
      using g1 get_thread_Some [OF g1(1)] ta by (simp add: get_put thread_change_state_def addrs_def image_iff) force
    finally have "\<exists>t'. get_thread k1 ?thr = Some t' \<and> th_state t' = TS_WAITIO" by (simp add: thread_change_state_def)
    then show ?thesis unfolding Let_def None option.case using res s1(3) n0_def
      by (intro exI [of _ "s1\<lparr>io_k := k1\<rparr>"]) simp
  qed
qed
section \<open>The invariant\<close>

definition pending :: "net_state \<Rightarrow> ptr \<Rightarrow> bool" where
  "pending n c \<longleftrightarrow> (\<exists>l x. n_sockets n l = Some x \<and> c \<in> set (accept_queue x))"

definition socket_ok :: "net_state \<Rightarrow> ptr \<Rightarrow> Socket \<Rightarrow> bool" where
  "socket_ok n a x \<longleftrightarrow> fifo_inv (buffer_in x) \<and> fifo_cap (buffer_in x) = 512000 \<and>
     0 \<le> sint (sk_domain x) \<and> sint (sk_domain x) < sint DOMAIN_SIZE \<and>
     (connection x \<noteq> 0 \<longrightarrow> (\<exists>y. n_sockets n (connection x) = Some y \<and> connection y = a)) \<and>
     (fifo_list (buffer_in x) \<noteq> [] \<longrightarrow> connection x \<noteq> 0 \<or> disconnected x) \<and>
     distinct (accept_queue x) \<and>
     (\<forall>c \<in> set (accept_queue x). \<exists>z. n_sockets n c = Some z \<and> connection z = 0)"

definition net_ok :: "net_state \<Rightarrow> bool" where
  "net_ok n \<longleftrightarrow> (\<forall>a x. n_sockets n a = Some x \<longrightarrow> a \<noteq> 0 \<and> a \<in> set (g_socket_list n) \<and> socket_ok n a x) \<and>
     (\<forall>l l' x x' c. n_sockets n l = Some x \<longrightarrow> n_sockets n l' = Some x' \<longrightarrow> c \<in> set (accept_queue x) \<longrightarrow>
        c \<in> set (accept_queue x') \<longrightarrow> l = l') \<and>
     distinct (g_socket_list n) \<and> (\<forall>a \<in> set (g_socket_list n). n_sockets n a \<noteq> None)"

lemma net_okD:
  assumes "net_ok n" and "n_sockets n a = Some x"
  shows "a \<noteq> 0" "a \<in> set (g_socket_list n)" "socket_ok n a x"
  using assms by (auto simp: net_ok_def)

lemma net_ok_queue:
  "net_ok n \<Longrightarrow> n_sockets n l = Some x \<Longrightarrow> n_sockets n l' = Some x' \<Longrightarrow> c \<in> set (accept_queue x) \<Longrightarrow>
   c \<in> set (accept_queue x') \<Longrightarrow> l = l'"
  by (auto simp: net_ok_def)

lemma net_ok_cong:
  assumes "n_sockets n' = n_sockets n" and "g_socket_list n' = g_socket_list n"
  shows "net_ok n' = net_ok n"
  using assms by (simp add: net_ok_def socket_ok_def)

text \<open>Replacing a socket by one with the same connection and the same queue.\<close>

lemma net_ok_put:
  assumes ok: "net_ok n" and x: "n_sockets n a = Some x"
    and x': "connection x' = connection x" "accept_queue x' = accept_queue x" "sk_domain x' = sk_domain x"
      "fifo_inv (buffer_in x')" "fifo_cap (buffer_in x') = 512000"
      "fifo_list (buffer_in x') \<noteq> [] \<longrightarrow> connection x \<noteq> 0 \<or> disconnected x'"
  shows "net_ok (put_socket n a x')"
proof -
  let ?n = "put_socket n a x'"
  have same: "\<exists>z'. n_sockets ?n b = Some z' \<and> connection z' = connection z \<and> accept_queue z' = accept_queue z"
    if "n_sockets n b = Some z" for b z using that x x' by (auto simp: put_socket_def)
  have orig: "\<exists>z. n_sockets n b = Some z \<and> connection z' = connection z \<and> accept_queue z' = accept_queue z \<and> sk_domain z' = sk_domain z"
    if "n_sockets ?n b = Some z'" for b z' using that x x' by (auto simp: put_socket_def split: if_splits)
  have "b \<noteq> 0 \<and> b \<in> set (g_socket_list ?n) \<and> socket_ok ?n b z'" if b: "n_sockets ?n b = Some z'" for b z'
  proof -
    obtain z where z: "n_sockets n b = Some z" "connection z' = connection z" "accept_queue z' = accept_queue z" "sk_domain z' = sk_domain z"
      using orig [OF b] by blast
    note zok = net_okD [OF ok z(1)]
    have buf: "fifo_inv (buffer_in z') \<and> fifo_cap (buffer_in z') = 512000 \<and>
        (fifo_list (buffer_in z') \<noteq> [] \<longrightarrow> connection z' \<noteq> 0 \<or> disconnected z')"
    proof (cases "b = a")
      case True
      then have "z' = x'" "z = x" using b z(1) x by (simp_all add: put_socket_def)
      then show ?thesis using x'(1,4,5,6) by simp
    next
      case False
      then have "z' = z" using b z(1) by (simp add: put_socket_def)
      then show ?thesis using zok(3) unfolding socket_ok_def by blast
    qed
    have "connection z' \<noteq> 0 \<longrightarrow> (\<exists>y. n_sockets ?n (connection z') = Some y \<and> connection y = b)"
    proof
      assume "connection z' \<noteq> 0"
      then obtain y where "n_sockets n (connection z') = Some y" "connection y = b" using zok(3) z(2) by (auto simp: socket_ok_def)
      then show "\<exists>y. n_sockets ?n (connection z') = Some y \<and> connection y = b" using same by metis
    qed
    moreover have "\<forall>c \<in> set (accept_queue z'). \<exists>w. n_sockets ?n c = Some w \<and> connection w = 0"
    proof
      fix c assume "c \<in> set (accept_queue z')"
      then obtain w where "n_sockets n c = Some w" "connection w = 0" using zok(3) z(3) by (auto simp: socket_ok_def)
      then show "\<exists>w. n_sockets ?n c = Some w \<and> connection w = 0" using same by metis
    qed
    ultimately show ?thesis using buf zok z(3,4) by (simp add: socket_ok_def put_socket_def)
  qed
  moreover have "l = l'" if "n_sockets ?n l = Some y" "n_sockets ?n l' = Some y'" "c \<in> set (accept_queue y)" "c \<in> set (accept_queue y')"
    for l l' y y' c
  proof -
    note h = that
    obtain z z' where "n_sockets n l = Some z" "accept_queue y = accept_queue z" "n_sockets n l' = Some z'" "accept_queue y' = accept_queue z'"
      using orig [OF h(1)] orig [OF h(2)] by blast
    then show ?thesis using net_ok_queue [OF ok] h(3,4) by simp
  qed
  moreover have "distinct (g_socket_list ?n)" "\<forall>b \<in> set (g_socket_list ?n). n_sockets ?n b \<noteq> None"
    using ok by (auto simp: net_ok_def put_socket_def)
  ultimately show ?thesis unfolding net_ok_def by blast
qed

text \<open>Replacing the queue of a socket by one whose new members wait nowhere else.\<close>

lemma net_ok_requeue:
  assumes ok: "net_ok n" and y: "n_sockets n l = Some y" and q: "distinct q"
    and c: "\<forall>c \<in> set q. \<exists>z. n_sockets n c = Some z \<and> connection z = 0" "\<forall>c \<in> set q. c \<in> set (accept_queue y) \<or> \<not> pending n c"
  shows "net_ok (put_socket n l (y\<lparr>accept_queue := q\<rparr>))" (is "net_ok ?n")
proof -
  have same: "\<exists>z'. n_sockets ?n b = Some z' \<and> connection z' = connection w" if "n_sockets n b = Some w" for b w
    using that y by (auto simp: put_socket_def)
  have orig: "\<exists>w. n_sockets n b = Some w \<and> connection w' = connection w \<and> buffer_in w' = buffer_in w \<and> sk_domain w' = sk_domain w \<and>
      disconnected w' = disconnected w \<and> accept_queue w' = (if b = l then q else accept_queue w)"
    if "n_sockets ?n b = Some w'" for b w' using that y by (auto simp: put_socket_def split: if_splits)
  have mine: "b = l" if "n_sockets n b = Some w" "d \<in> set (accept_queue w)" "d \<in> set q" for b w d
    using c(2) that net_ok_queue [OF ok that(1) y that(2)] by (auto simp: pending_def)
  have "b \<noteq> 0 \<and> b \<in> set (g_socket_list ?n) \<and> socket_ok ?n b w'" if b: "n_sockets ?n b = Some w'" for b w'
  proof -
    obtain w where w: "n_sockets n b = Some w" "connection w' = connection w" "buffer_in w' = buffer_in w" "sk_domain w' = sk_domain w"
        "disconnected w' = disconnected w" "accept_queue w' = (if b = l then q else accept_queue w)"
      using orig [OF b] by blast
    note wok = net_okD [OF ok w(1)]
    have "connection w' \<noteq> 0 \<longrightarrow> (\<exists>y. n_sockets ?n (connection w') = Some y \<and> connection y = b)"
    proof
      assume "connection w' \<noteq> 0"
      then obtain v where "n_sockets n (connection w') = Some v" "connection v = b" using wok(3) w(2) by (auto simp: socket_ok_def)
      then show "\<exists>y. n_sockets ?n (connection w') = Some y \<and> connection y = b" using same by metis
    qed
    moreover have "\<forall>d \<in> set (accept_queue w'). \<exists>v. n_sockets ?n d = Some v \<and> connection v = 0"
    proof
      fix d assume "d \<in> set (accept_queue w')"
      then have "d \<in> set q \<or> d \<in> set (accept_queue w)" using w(6) by (auto split: if_splits)
      then obtain v where "n_sockets n d = Some v" "connection v = 0" using wok(3) c(1) by (auto simp: socket_ok_def)
      then show "\<exists>v. n_sockets ?n d = Some v \<and> connection v = 0" using same by metis
    qed
    moreover have "distinct (accept_queue w')" using wok(3) q w(6) by (auto simp: socket_ok_def)
    ultimately show ?thesis using wok w(2,3,4,5) by (simp add: socket_ok_def put_socket_def)
  qed
  moreover have "l1 = l2" if h: "n_sockets ?n l1 = Some v1" "n_sockets ?n l2 = Some v2" "d \<in> set (accept_queue v1)" "d \<in> set (accept_queue v2)"
    for l1 l2 v1 v2 d
  proof -
    obtain w1 w2 where w: "n_sockets n l1 = Some w1" "accept_queue v1 = (if l1 = l then q else accept_queue w1)"
        "n_sockets n l2 = Some w2" "accept_queue v2 = (if l2 = l then q else accept_queue w2)"
      using orig [OF h(1)] orig [OF h(2)] by blast
    show ?thesis
    proof (cases "l1 = l \<or> l2 = l")
      case True
      then have "d \<in> set q" using h(3,4) w(2,4) by (auto split: if_splits)
      then show ?thesis using True h(3,4) w mine by (metis (no_types))
    next
      case False
      then show ?thesis using net_ok_queue [OF ok w(1,3)] w(2,4) h(3,4) by simp
    qed
  qed
  moreover have "distinct (g_socket_list ?n)" "\<forall>b \<in> set (g_socket_list ?n). n_sockets ?n b \<noteq> None"
    using ok by (auto simp: net_ok_def put_socket_def)
  ultimately show ?thesis unfolding net_ok_def by blast
qed
lemma net_ok_made:
  assumes ok: "net_ok n" and fr: "n_sockets n a = None" "a \<noteq> 0" and d: "0 \<le> sint d" "sint d < sint DOMAIN_SIZE"
  shows "net_ok (socket_made n a b t d u)" (is "net_ok ?n")
proof -
  have al: "a \<notin> set (g_socket_list n)" using ok fr(1) by (auto simp: net_ok_def)
  have n: "n_sockets ?n = (n_sockets n)(a \<mapsto> made_socket b t d u)" "g_socket_list ?n = g_socket_list n @ [a]"
    by (simp_all add: socket_made_def)
  have new: "connection (made_socket b t d u) = 0" "accept_queue (made_socket b t d u) = []" "sk_domain (made_socket b t d u) = d"
      "buffer_in (made_socket b t d u) = fifobuffer_create SOCKET_BUFFER_SIZE"
    by (simp_all add: made_socket_def new_socket_def Let_def)
  have cap: "fifo_cap (fifobuffer_create SOCKET_BUFFER_SIZE) = 512000"
    by (simp add: fifo_cap_def fifobuffer_create_def SOCKET_BUFFER_SIZE_def)
  have keep: "n_sockets ?n c = Some w" if "n_sockets n c = Some w" for c w using that fr(1) n(1) by auto
  have "x \<noteq> 0 \<and> x \<in> set (g_socket_list ?n) \<and> socket_ok ?n x w" if x: "n_sockets ?n x = Some w" for x w
  proof (cases "x = a")
    case True
    then have w: "w = made_socket b t d u" using x n(1) by simp
    show ?thesis using True fr d new cap unfolding w n(2) socket_ok_def by (simp add: fifo_inv_create fifo_list_create)
  next
    case False
    then have "n_sockets n x = Some w" using x n(1) by simp
    then show ?thesis using net_okD [OF ok, of x w] keep n(2) unfolding socket_ok_def by (auto dest!: keep)
  qed
  moreover have "l = l'" if h: "n_sockets ?n l = Some y" "n_sockets ?n l' = Some y'" "c \<in> set (accept_queue y)" "c \<in> set (accept_queue y')"
    for l l' y y' c
  proof -
    have "l \<noteq> a" "l' \<noteq> a" using h new(2) n(1) by auto
    then show ?thesis using h n(1) net_ok_queue [OF ok, of l y l' y' c] by simp
  qed
  moreover have "distinct (g_socket_list ?n)" "\<forall>b \<in> set (g_socket_list ?n). n_sockets ?n b \<noteq> None"
    using ok al n by (auto simp: net_ok_def)
  ultimately show ?thesis unfolding net_ok_def by blast
qed

lemma pending_made:
  assumes "n_sockets n a = None"
  shows "pending (socket_made n a b t d u) c = pending n c"
proof -
  have "accept_queue (made_socket b t d u) = []" by (simp add: made_socket_def new_socket_def Let_def)
  then have "(\<exists>x. n_sockets (socket_made n a b t d u) l = Some x \<and> c \<in> set (accept_queue x)) \<longleftrightarrow>
      (\<exists>x. n_sockets n l = Some x \<and> c \<in> set (accept_queue x))" for l
    using assms by (cases "l = a") (simp_all add: socket_made_def)
  then show ?thesis by (simp add: pending_def)
qed

lemma net_ok_joined:
  assumes ok: "net_ok n" and x: "n_sockets n a = Some x" "connection x = 0" "\<not> pending n a"
    and y: "n_sockets n c = Some y" "connection y = 0" "\<not> pending n c" and ac: "a \<noteq> c"
  shows "net_ok (joined n a c)" (is "net_ok ?n")
proof -
  have n: "n_sockets ?n = (n_sockets n)(a \<mapsto> x\<lparr>connection := c\<rparr>, c \<mapsto> y\<lparr>connection := a\<rparr>)" "g_socket_list ?n = g_socket_list n"
    using x y by (simp_all add: joined_def)
  have nz: "a \<noteq> 0" "c \<noteq> 0" using net_okD(1) [OF ok] x(1) y(1) by auto
  have orig: "\<exists>w. n_sockets n b = Some w \<and> buffer_in w' = buffer_in w \<and> sk_domain w' = sk_domain w \<and> disconnected w' = disconnected w \<and>
      accept_queue w' = accept_queue w \<and> connection w' = (if b = a then c else if b = c then a else connection w)"
    if "n_sockets ?n b = Some w'" for b w' using that n(1) x y ac by (auto split: if_splits)
  have same: "\<exists>w'. n_sockets ?n b = Some w' \<and> connection w' = (if b = a then c else if b = c then a else connection w)"
    if "n_sockets n b = Some w" for b w using that n(1) x y ac by auto
  have "b \<noteq> 0 \<and> b \<in> set (g_socket_list ?n) \<and> socket_ok ?n b w'" if b: "n_sockets ?n b = Some w'" for b w'
  proof -
    obtain w where w: "n_sockets n b = Some w" "buffer_in w' = buffer_in w" "sk_domain w' = sk_domain w" "disconnected w' = disconnected w"
        "accept_queue w' = accept_queue w" "connection w' = (if b = a then c else if b = c then a else connection w)"
      using orig [OF b] by blast
    note wok = net_okD [OF ok w(1)]
    have con: "connection w' \<noteq> 0 \<longrightarrow> (\<exists>v. n_sockets ?n (connection w') = Some v \<and> connection v = b)"
    proof (cases "b = a \<or> b = c")
      case True
      then show ?thesis using w(6) same [OF x(1)] same [OF y(1)] ac by auto
    next
      case False
      show ?thesis
      proof
        assume "connection w' \<noteq> 0"
        then obtain v where v: "n_sockets n (connection w) = Some v" "connection v = b" using wok(3) w(6) False by (auto simp: socket_ok_def)
        have "b \<noteq> 0" by (rule wok(1))
        then have "connection w \<noteq> a" "connection w \<noteq> c" using v x(1,2) y(1,2) by auto
        then show "\<exists>v. n_sockets ?n (connection w') = Some v \<and> connection v = b" using same [OF v(1)] v(2) w(6) False by auto
      qed
    qed
    have "\<forall>d \<in> set (accept_queue w'). \<exists>v. n_sockets ?n d = Some v \<and> connection v = 0"
    proof
      fix d assume d: "d \<in> set (accept_queue w')"
      then obtain v where v: "n_sockets n d = Some v" "connection v = 0" using wok(3) w(5) by (auto simp: socket_ok_def)
      have "d \<noteq> a" "d \<noteq> c" using d w(1,5) x(3) y(3) by (auto simp: pending_def)
      then show "\<exists>v. n_sockets ?n d = Some v \<and> connection v = 0" using same [OF v(1)] v(2) by auto
    qed
    then show ?thesis using con wok w(2-6) nz n(2) unfolding socket_ok_def by auto
  qed
  moreover have "l = l'" if h: "n_sockets ?n l = Some v" "n_sockets ?n l' = Some v'" "d \<in> set (accept_queue v)" "d \<in> set (accept_queue v')"
    for l l' v v' d
  proof -
    obtain w w' where "n_sockets n l = Some w" "accept_queue v = accept_queue w" "n_sockets n l' = Some w'" "accept_queue v' = accept_queue w'"
      using orig [OF h(1)] orig [OF h(2)] by blast
    then show ?thesis using net_ok_queue [OF ok] h(3,4) by simp
  qed
  moreover have "distinct (g_socket_list ?n)" "\<forall>b \<in> set (g_socket_list ?n). n_sockets ?n b \<noteq> None"
    using ok n by (auto simp: net_ok_def)
  ultimately show ?thesis unfolding net_ok_def by blast
qed

text \<open>The state of the sockets after one is closed: its peer, if any, is alone.\<close>

definition closed :: "net_state \<Rightarrow> ptr \<Rightarrow> Socket \<Rightarrow> ptr \<Rightarrow> Socket option" where
  "closed n a x b = (if b = a then None
     else if connection x \<noteq> 0 \<and> b = connection x then map_option (\<lambda>y. y\<lparr>connection := 0, disconnected := True\<rparr>) (n_sockets n b)
     else n_sockets n b)"

lemma socket_close_ok:
  assumes ok: "net_ok n" and x: "n_sockets n a = Some x"
  shows "\<exists>n'. socket_close n a = Some n' \<and> n_sockets n' = closed n a x \<and> g_socket_list n' = remove1 a (g_socket_list n)"
proof -
  define n1 where "n1 = (if unix_ops x then (put_socket n a (x\<lparr>custom_socket := 0\<rparr>))\<lparr>n_unix := (n_unix n)(custom_socket x := None)\<rparr> else n)"
  have n1: "(if unix_ops x then unixsocket_closing n a else Some n) = Some n1" using x by (simp add: n1_def unixsocket_closing_def)
  have s1: "n_sockets n1 b = n_sockets n b" if "b \<noteq> a" for b using that by (simp add: n1_def put_socket_def)
  have l1: "g_socket_list n1 = g_socket_list n" by (simp add: n1_def put_socket_def)
  show ?thesis
  proof (cases "connection x = 0")
    case True
    then have "socket_close n a = Some (socket_destroy n1 a)" using x n1 by (simp add: socket_close_def socket_disconnect_def)
    moreover have "n_sockets (socket_destroy n1 a) = closed n a x" using True s1 by (auto simp: socket_destroy_def closed_def)
    ultimately show ?thesis using l1 by (simp add: socket_destroy_def)
  next
    case False
    then obtain y where y: "n_sockets n (connection x) = Some y" using net_okD(3) [OF ok x] by (auto simp: socket_ok_def)
    have "\<exists>y'. n_sockets n1 (connection x) = Some y'"
      using y s1 x by (cases "connection x = a") (auto simp: n1_def put_socket_def)
    then obtain y' where y': "n_sockets n1 (connection x) = Some y'" by blast
    let ?n2 = "put_socket n1 (connection x) (y'\<lparr>connection := 0, disconnected := True\<rparr>)"
    have "socket_close n a = Some (socket_destroy ?n2 a)" using x n1 False y' by (simp add: socket_close_def socket_disconnect_def)
    moreover have "n_sockets (socket_destroy ?n2 a) = closed n a x"
    proof
      fix b show "n_sockets (socket_destroy ?n2 a) b = closed n a x b"
        using False s1 [of b] y y' by (cases "b = a"; cases "b = connection x") (auto simp: socket_destroy_def closed_def put_socket_def)
    qed
    ultimately show ?thesis using l1 by (simp add: socket_destroy_def put_socket_def)
  qed
qed

lemma net_ok_closed:
  assumes ok: "net_ok n" and x: "n_sockets n a = Some x" "\<not> pending n a"
    and n: "n_sockets n' = closed n a x" "g_socket_list n' = remove1 a (g_socket_list n)"
  shows "net_ok n'"
proof -
  have orig: "\<exists>w. n_sockets n b = Some w \<and> b \<noteq> a \<and> buffer_in w' = buffer_in w \<and> sk_domain w' = sk_domain w \<and> accept_queue w' = accept_queue w \<and>
      (if connection x \<noteq> 0 \<and> b = connection x then connection w' = 0 \<and> disconnected w' else connection w' = connection w \<and> disconnected w' = disconnected w)"
    if "n_sockets n' b = Some w'" for b w' using that unfolding n(1) closed_def by (auto split: if_splits)
  have same: "\<exists>w'. n_sockets n' b = Some w' \<and> (connection w' = connection w \<or> connection w' = 0 \<and> b = connection x)"
    if "n_sockets n b = Some w" "b \<noteq> a" for b w using that unfolding n(1) closed_def by auto
  have d: "distinct (g_socket_list n)" "\<forall>b \<in> set (g_socket_list n). n_sockets n b \<noteq> None" using ok by (auto simp: net_ok_def)
  have "b \<noteq> 0 \<and> b \<in> set (g_socket_list n') \<and> socket_ok n' b w'" if b: "n_sockets n' b = Some w'" for b w'
  proof -
    obtain w where w: "n_sockets n b = Some w" "b \<noteq> a" "buffer_in w' = buffer_in w" "sk_domain w' = sk_domain w" "accept_queue w' = accept_queue w"
        "if connection x \<noteq> 0 \<and> b = connection x then connection w' = 0 \<and> disconnected w' else connection w' = connection w \<and> disconnected w' = disconnected w"
      using orig [OF b] by blast
    note wok = net_okD [OF ok w(1)]
    have con: "connection w' \<noteq> 0 \<longrightarrow> (\<exists>v. n_sockets n' (connection w') = Some v \<and> connection v = b)"
    proof
      assume c: "connection w' \<noteq> 0"
      then have c1: "connection w' = connection w" "\<not> (connection x \<noteq> 0 \<and> b = connection x)" using w(6) by (auto split: if_splits)
      then obtain v where v: "n_sockets n (connection w) = Some v" "connection v = b" using wok(3) c by (auto simp: socket_ok_def)
      have ne: "connection w \<noteq> a" using v x(1) c1(2) wok(1) by auto
      have "connection w \<noteq> connection x"
      proof
        assume e: "connection w = connection x"
        then obtain u where "n_sockets n (connection x) = Some u" "connection u = a" using net_okD(3) [OF ok x(1)] c c1(1) by (auto simp: socket_ok_def)
        then show False using v e w(2) by simp
      qed
      then show "\<exists>v. n_sockets n' (connection w') = Some v \<and> connection v = b" using same [OF v(1) ne] v(2) c1(1) by auto
    qed
    have q: "\<forall>d \<in> set (accept_queue w'). \<exists>v. n_sockets n' d = Some v \<and> connection v = 0"
    proof
      fix d assume d: "d \<in> set (accept_queue w')"
      then obtain v where v: "n_sockets n d = Some v" "connection v = 0" using wok(3) w(5) by (auto simp: socket_ok_def)
      have "d \<noteq> a" using d w(1,5) x(2) by (auto simp: pending_def)
      then show "\<exists>v. n_sockets n' d = Some v \<and> connection v = 0" using same [OF v(1)] v(2) by auto
    qed
    have buf: "fifo_list (buffer_in w') \<noteq> [] \<longrightarrow> connection w' \<noteq> 0 \<or> disconnected w'"
      using wok(3) w(3,6) by (auto simp: socket_ok_def split: if_splits)
    have "b \<in> set (g_socket_list n')" using wok(2) w(2) d(1) n(2) by simp
    then show ?thesis using con q buf wok w(3-5) unfolding socket_ok_def by auto
  qed
  moreover have "l = l'" if h: "n_sockets n' l = Some v" "n_sockets n' l' = Some v'" "d \<in> set (accept_queue v)" "d \<in> set (accept_queue v')"
    for l l' v v' d
  proof -
    obtain w w' where "n_sockets n l = Some w" "accept_queue v = accept_queue w" "n_sockets n l' = Some w'" "accept_queue v' = accept_queue w'"
      using orig [OF h(1)] orig [OF h(2)] by blast
    then show ?thesis using net_ok_queue [OF ok] h(3,4) by simp
  qed
  moreover have "distinct (g_socket_list n')" "\<forall>b \<in> set (g_socket_list n'). n_sockets n' b \<noteq> None"
    using d n by (auto simp: closed_def)
  ultimately show ?thesis unfolding net_ok_def by blast
qed
section \<open>Reachable states\<close>

text \<open>
  Sockets in use by any threads. The two functions say, for every socket, which bytes its peers
  were told they have sent to it and which bytes it has received since it was created. A socket
  that waits in a queue to be accepted is not closed or connected again, as its thread is in
  \<^verbatim>\<open>connect\<close>; the rest of the machine may do anything to its threads, files and nodes in between.
\<close>

inductive sock_reach :: "net_machine \<Rightarrow> (ptr \<Rightarrow> u8 list) \<Rightarrow> (ptr \<Rightarrow> u8 list) \<Rightarrow> bool" where
  sock_start: "io_world s = net_initialize f g h \<Longrightarrow> sock_reach s (\<lambda>_. []) (\<lambda>_. [])"
| sock_other: "sock_reach s sent got \<Longrightarrow> io_world s' = io_world s \<Longrightarrow> sock_reach s' sent got"
| sock_lookup: "sock_reach s sent got \<Longrightarrow> get_socket s sockfd = Some (s', a, err) \<Longrightarrow> sock_reach s' sent got"
| sock_socket: "sock_reach s sent got \<Longrightarrow> running s t p \<Longrightarrow> fresh (io_world s) a b u f \<Longrightarrow>
    syscall_socket s d ty pr a b u f = Some (s', r) \<Longrightarrow> sock_reach s' (sent(a := [])) (got(a := []))"
| sock_bind: "sock_reach s sent got \<Longrightarrow> unixsocket_bind (io_world s) a nm = Some (n, r) \<Longrightarrow>
    sock_reach (s\<lparr>io_world := n\<rparr>) sent got"
| sock_listen: "sock_reach s sent got \<Longrightarrow> unixsocket_listen (io_world s) a bl = Some (n, r) \<Longrightarrow>
    sock_reach (s\<lparr>io_world := n\<rparr>) sent got"
| sock_connect: "sock_reach s sent got \<Longrightarrow> \<not> pending (io_world s) a \<Longrightarrow>
    unixsocket_connect (io_k s) (io_world s) a nm = Some (k, n, r) \<Longrightarrow> sock_reach (s\<lparr>io_k := k, io_world := n\<rparr>) sent got"
| sock_accept: "sock_reach s sent got \<Longrightarrow> running s t p \<Longrightarrow> fresh (io_world s) a b u f \<Longrightarrow>
    unixsocket_accept s l a b u f = Some (s', r) \<Longrightarrow> sock_reach s' (sent(a := [])) (got(a := []))"
| sock_send: "sock_reach s sent got \<Longrightarrow> n_sockets (io_world s) a = Some x \<Longrightarrow> unat len \<le> length buf \<Longrightarrow>
    unixsocket_send (io_k s) (io_world s) a buf len = Some (k, n, r) \<Longrightarrow>
    sock_reach (s\<lparr>io_k := k, io_world := n\<rparr>) (sent(connection x := sent (connection x) @ bytes_of r buf)) got"
| sock_recv: "sock_reach s sent got \<Longrightarrow> unat len \<le> length buf \<Longrightarrow>
    unixsocket_recv (io_k s) (io_world s) a buf len = Some (k, n, buf', r) \<Longrightarrow>
    sock_reach (s\<lparr>io_k := k, io_world := n\<rparr>) sent (got(a := got a @ bytes_of r buf'))"
| sock_close: "sock_reach s sent got \<Longrightarrow> \<not> pending (io_world s) a \<Longrightarrow> socket_close (io_world s) a = Some n \<Longrightarrow>
    sock_reach (s\<lparr>io_world := n\<rparr>) sent got"

definition streams_ok :: "net_state \<Rightarrow> (ptr \<Rightarrow> u8 list) \<Rightarrow> (ptr \<Rightarrow> u8 list) \<Rightarrow> bool" where
  "streams_ok n sent got \<longleftrightarrow> net_ok n \<and> (\<forall>a x. n_sockets n a = Some x \<longrightarrow> sent a = got a @ fifo_list (buffer_in x))"

lemma streams_put:
  assumes "streams_ok n sent got" and "n_sockets n a = Some x"
    and "connection x' = connection x" "accept_queue x' = accept_queue x" "sk_domain x' = sk_domain x"
      "buffer_in x' = buffer_in x" "disconnected x' = disconnected x"
  shows "streams_ok (put_socket n a x') sent got"
proof -
  have "socket_ok n a x" using assms(1,2) by (auto simp: streams_ok_def dest: net_okD)
  then have "net_ok (put_socket n a x')"
    using assms by (intro net_ok_put [OF _ assms(2)]) (auto simp: streams_ok_def socket_ok_def)
  then show ?thesis using assms by (auto simp: streams_ok_def put_socket_def)
qed

lemma get_socket_streams:
  assumes "get_socket s sockfd = Some (s', a, err)" and "streams_ok (io_world s) sent got"
  shows "streams_ok (io_world s') sent got"
  using assms
  by (auto simp: get_socket_def bind_eq_Some_conv split: if_splits intro!: streams_put)

lemma bind_streams:
  assumes "unixsocket_bind n a nm = Some (n', r)" and "streams_ok n sent got"
  shows "streams_ok n' sent got"
proof -
  have "n_sockets n' = n_sockets n \<and> g_socket_list n' = g_socket_list n"
    using assms(1) by (auto simp: unixsocket_bind_def bind_eq_Some_conv split: if_splits)
  then show ?thesis using assms(2) net_ok_cong [of n' n] by (auto simp: streams_ok_def)
qed

lemma listen_streams:
  assumes "unixsocket_listen n a bl = Some (n', r)" and "streams_ok n sent got"
  shows "streams_ok n' sent got"
  using assms by (auto simp: unixsocket_listen_def bind_eq_Some_conv intro!: streams_put)

lemma connect_streams:
  assumes run: "unixsocket_connect k n a nm = Some (k', n', r)" and ok: "streams_ok n sent got" and p: "\<not> pending n a"
  shows "streams_ok n' sent got"
proof (cases "n' = n")
  case False
  then obtain x l y where x: "n_sockets n a = Some x" "connection x = 0" "n_sockets n l = Some y"
      "n' = put_socket n l (y\<lparr>accept_queue := accept_queue y @ [a]\<rparr>)"
    using run by (auto simp: unixsocket_connect_def bind_eq_Some_conv split: if_splits)
  have n: "net_ok n" using ok by (simp add: streams_ok_def)
  have y: "socket_ok n l y" using net_okD [OF n x(3)] by simp
  have na: "a \<notin> set (accept_queue y)" using p x(3) by (auto simp: pending_def)
  have "net_ok n'" unfolding x(4)
  proof (rule net_ok_requeue [OF n x(3)])
    show "distinct (accept_queue y @ [a])" using y na by (simp add: socket_ok_def)
    show "\<forall>c \<in> set (accept_queue y @ [a]). \<exists>z. n_sockets n c = Some z \<and> connection z = 0" using y x(1,2) by (auto simp: socket_ok_def)
    show "\<forall>c \<in> set (accept_queue y @ [a]). c \<in> set (accept_queue y) \<or> \<not> pending n c" using p by auto
  qed
  then show ?thesis using ok x(3,4) by (auto simp: streams_ok_def put_socket_def)
qed (use ok in simp)
lemma unat_min: "unat (min x (y :: u32)) = min (unat x) (unat y)"
  by (simp add: min_def word_le_nat_alt)

text \<open>The two ways a send or a receive changes the sockets.\<close>

lemma send_effect:
  assumes run: "unixsocket_send k n a buf len = Some (k', n', r)" and ok: "net_ok n" and x: "n_sockets n a = Some x"
    and len: "unat len \<le> length buf"
  shows "n' = n \<and> bytes_of r buf = [] \<or>
    (\<exists>y q w. connection x \<noteq> 0 \<and> n_sockets n (connection x) = Some y \<and> n' = put_socket n (connection x) (y\<lparr>buffer_in := q\<rparr>) \<and>
      r = Some w \<and> fifo_inv q \<and> fifo_cap q = 512000 \<and> fifo_list q = fifo_list (buffer_in y) @ bytes_of r buf \<and> connection y = a \<and>
      0 < unat w \<and> unat w = min (512000 - length (fifo_list (buffer_in y))) (unat len) \<and> bytes_of r buf = take (unat w) buf)"
proof (cases "n' = n \<and> bytes_of r buf = []")
  case False
  then obtain y q w where y: "len \<noteq> 0" "connection x \<noteq> 0" "n_sockets n (connection x) = Some y" "0 < fifobuffer_get_free (buffer_in y)"
      "fifobuffer_enqueue (buffer_in y) buf (min (fifobuffer_get_free (buffer_in y)) len) = Some (q, w)"
      "n' = put_socket n (connection x) (y\<lparr>buffer_in := q\<rparr>)" "r = Some w"
    using run x by (auto simp: unixsocket_send_def bind_eq_Some_conv bytes_of_def Let_def split: if_splits)
  have yok: "fifo_inv (buffer_in y)" "fifo_cap (buffer_in y) = 512000" "connection y = a"
    using net_okD(3) [OF ok y(3)] net_okD(3) [OF ok x] y(2,3) by (auto simp: socket_ok_def)
  let ?m = "min (fifobuffer_get_free (buffer_in y)) len"
  have free: "unat (fifobuffer_get_free (buffer_in y)) = 512000 - length (fifo_list (buffer_in y))"
    using unat_get_free [OF yok(1)] yok(2) by simp
  have mz: "?m \<noteq> 0" using y(1,4) by (auto simp: min_def)
  have ml: "unat ?m \<le> length buf" using len by (simp add: unat_min)
  obtain q' w' where e: "fifobuffer_enqueue (buffer_in y) buf ?m = Some (q', w')" "fifo_inv q'" "fifo_cap q' = fifo_cap (buffer_in y)"
      "unat w' = min (unat ?m) (fifo_cap (buffer_in y) - length (fifo_list (buffer_in y)))"
      "fifo_list q' = fifo_list (buffer_in y) @ take (unat w') buf"
    using fifobuffer_enqueue_ok [OF yok(1) ml mz] by (auto simp: ok_iff)
  have q: "q' = q" "w' = w" using e(1) y(5) by simp_all
  have w: "unat w = min (512000 - length (fifo_list (buffer_in y))) (unat len)"
    using e(4) yok(2) free q(2) by (simp add: unat_min)
  have "0 < unat ?m" using mz by (simp add: unat_gt_0)
  then have pos: "0 < unat w" using w free by (simp add: unat_min)
  have "unat w \<le> 512000" using w by simp
  then have b: "bytes_of (Some w) buf = take (unat w) buf" by (rule bytes_of_count) simp
  show ?thesis using y yok e q w pos b by (intro disjI2 exI [of _ y] exI [of _ q] exI [of _ w]) simp
qed simp

lemma recv_effect:
  assumes run: "unixsocket_recv k n a buf len = Some (k', n', buf', r)" and ok: "net_ok n" and len: "unat len \<le> length buf"
  shows "n' = n \<and> bytes_of r buf' = [] \<or>
    (\<exists>x q w. n_sockets n a = Some x \<and> n' = put_socket n a (x\<lparr>buffer_in := q\<rparr>) \<and> r = Some w \<and> fifo_inv q \<and> fifo_cap q = 512000 \<and>
      fifo_list (buffer_in x) = bytes_of r buf' @ fifo_list q \<and> connection x \<noteq> 0 \<and>
      unat w = min (length (fifo_list (buffer_in x))) (unat len) \<and> bytes_of r buf' = take (unat w) (fifo_list (buffer_in x)))"
proof (cases "n' = n \<and> bytes_of r buf' = []")
  case False
  have z: "len \<noteq> 0" using run False by (auto simp: unixsocket_recv_def bytes_of_def)
  then obtain x where x0: "n_sockets n a = Some x"
    using run by (cases "n_sockets n a") (simp_all add: unixsocket_recv_def Let_def)
  have d: "\<not> disconnected x" using run False z x0 by (auto simp: unixsocket_recv_def Let_def bytes_of_def)
  have sz0: "0 < fifobuffer_get_size (buffer_in x)"
  proof (rule ccontr)
    assume "\<not> 0 < fifobuffer_get_size (buffer_in x)"
    then show False using run False z x0 d by (auto simp: unixsocket_recv_def Let_def bytes_of_def bind_eq_Some_conv)
  qed
  define y where "y = (if connection x = 0 then None else n_sockets n (connection x))"
  obtain q w where x: "len \<noteq> 0" "n_sockets n a = Some x" "0 < fifobuffer_get_size (buffer_in x)" "connection x \<noteq> 0"
      "fifobuffer_dequeue (buffer_in x) buf (min (fifobuffer_get_size (buffer_in x)) len) = Some (q, buf', w)"
      "n' = put_socket n a (x\<lparr>buffer_in := q\<rparr>)" "r = Some w"
  proof -
    assume hyp: "\<And>q w. \<lbrakk>len \<noteq> 0; n_sockets n a = Some x; 0 < fifobuffer_get_size (buffer_in x); connection x \<noteq> 0;
      fifobuffer_dequeue (buffer_in x) buf (min (fifobuffer_get_size (buffer_in x)) len) = Some (q, buf', w);
      n' = put_socket n a (x\<lparr>buffer_in := q\<rparr>); r = Some w\<rbrakk> \<Longrightarrow> thesis"
    have "(do { (q, b, w) \<leftarrow> fifobuffer_dequeue (buffer_in x) buf (min (fifobuffer_get_size (buffer_in x)) len);
        v \<leftarrow> y; k' \<leftarrow> resume_last (irq_off k) v (at_send n);
        Some (k', put_socket n a (x\<lparr>buffer_in := q\<rparr>), b, Some w) }) = Some (k', n', buf', r)"
      using run z x0 d sz0 by (simp add: unixsocket_recv_def Let_def y_def)
    then obtain q b w v where e: "fifobuffer_dequeue (buffer_in x) buf (min (fifobuffer_get_size (buffer_in x)) len) = Some (q, b, w)"
        "y = Some v" "n' = put_socket n a (x\<lparr>buffer_in := q\<rparr>)" "buf' = b" "r = Some w"
      by (auto simp: bind_eq_Some_conv)
    have "connection x \<noteq> 0" using e(2) by (auto simp: y_def split: if_splits)
    then show thesis using hyp [OF z x0 sz0 _ _ e(3,5)] e(1,4) by simp
  qed
  have xok: "fifo_inv (buffer_in x)" "fifo_cap (buffer_in x) = 512000" using net_okD(3) [OF ok x(2)] by (auto simp: socket_ok_def)
  let ?m = "min (fifobuffer_get_size (buffer_in x)) len"
  have sz: "unat (fifobuffer_get_size (buffer_in x)) = length (fifo_list (buffer_in x))" by (simp add: fifobuffer_get_size_def)
  have mz: "?m \<noteq> 0" using x(1,3) by (auto simp: min_def)
  have ml: "unat ?m \<le> length buf" using len by (simp add: unat_min)
  obtain q' b' w' where e: "fifobuffer_dequeue (buffer_in x) buf ?m = Some (q', b', w')" "fifo_inv q'" "fifo_cap q' = fifo_cap (buffer_in x)"
      "unat w' = min (unat ?m) (length (fifo_list (buffer_in x)))" "fifo_list q' = drop (unat w') (fifo_list (buffer_in x))"
      "b' = take (unat w') (fifo_list (buffer_in x)) @ drop (unat w') buf"
    using fifobuffer_dequeue_ok [OF xok(1) ml mz] by (auto simp: ok_iff)
  have q: "q' = q" "b' = buf'" "w' = w" using e(1) x(5) by simp_all
  have w: "unat w = min (length (fifo_list (buffer_in x))) (unat len)" using e(4) sz q(3) by (simp add: unat_min del: length_fifo_list)
  have "length (fifo_list (buffer_in x)) \<le> 512000" using fb.bounded [OF xok(1)] xok(2) by simp
  then have wl: "unat w \<le> 512000" using w by simp
  then have "bytes_of (Some w) buf' = take (unat w) buf'" by (rule bytes_of_count) simp
  also have "\<dots> = take (unat w) (fifo_list (buffer_in x))" using e(6) q w by (simp del: length_fifo_list)
  finally have b: "bytes_of (Some w) buf' = take (unat w) (fifo_list (buffer_in x))" .
  have "fifo_list (buffer_in x) = bytes_of (Some w) buf' @ fifo_list q" unfolding b e(5) [unfolded q] by simp
  then show ?thesis using x xok e q w b by (intro disjI2 exI [of _ x] exI [of _ q] exI [of _ w]) simp
qed simp

lemma send_streams:
  assumes run: "unixsocket_send k n a buf len = Some (k', n', r)" and ok: "streams_ok n sent got" and x: "n_sockets n a = Some x"
    and len: "unat len \<le> length buf"
  shows "streams_ok n' (sent(connection x := sent (connection x) @ bytes_of r buf)) got"
proof -
  have n: "net_ok n" using ok by (simp add: streams_ok_def)
  show ?thesis
  proof (cases "n' = n \<and> bytes_of r buf = []")
    case True
    then show ?thesis using ok by simp
  next
    case False
    then obtain y q where y: "connection x \<noteq> 0" "n_sockets n (connection x) = Some y" "n' = put_socket n (connection x) (y\<lparr>buffer_in := q\<rparr>)"
        "fifo_inv q" "fifo_cap q = 512000" "fifo_list q = fifo_list (buffer_in y) @ bytes_of r buf" "connection y = a"
      using send_effect [OF run n x len] by blast
    have "a \<noteq> 0" using net_okD(1) [OF n x] .
    then have "net_ok n'" unfolding y(3) using y by (intro net_ok_put [OF n y(2)]) auto
    then show ?thesis using ok y(2,3,6) by (auto simp: streams_ok_def put_socket_def)
  qed
qed

lemma recv_streams:
  assumes run: "unixsocket_recv k n a buf len = Some (k', n', buf', r)" and ok: "streams_ok n sent got" and len: "unat len \<le> length buf"
  shows "streams_ok n' sent (got(a := got a @ bytes_of r buf'))"
proof -
  have n: "net_ok n" using ok by (simp add: streams_ok_def)
  show ?thesis
  proof (cases "n' = n \<and> bytes_of r buf' = []")
    case True
    then show ?thesis using ok by simp
  next
    case False
    then obtain x q where x: "n_sockets n a = Some x" "n' = put_socket n a (x\<lparr>buffer_in := q\<rparr>)" "fifo_inv q" "fifo_cap q = 512000"
        "fifo_list (buffer_in x) = bytes_of r buf' @ fifo_list q" "connection x \<noteq> 0"
      using recv_effect [OF run n len] by blast
    have "net_ok n'" unfolding x(2) using x by (intro net_ok_put [OF n x(1)]) auto
    then show ?thesis using ok x(1,2,5) by (auto simp: streams_ok_def put_socket_def)
  qed
qed

lemma made_streams:
  assumes ok: "streams_ok n sent got" and fr: "n_sockets n a = None" "a \<noteq> 0" and d: "0 \<le> sint d" "sint d < sint DOMAIN_SIZE"
  shows "streams_ok (socket_made n a b t d u) (sent(a := [])) (got(a := []))"
proof -
  have "fifo_list (buffer_in (made_socket b t d u)) = []" by (simp add: made_socket_def new_socket_def Let_def fifo_list_create)
  then show ?thesis using ok net_ok_made [OF _ fr d, of b t u] by (auto simp: streams_ok_def) (auto simp: socket_made_def)
qed

lemma absent_streams:
  "streams_ok n sent got \<Longrightarrow> n_sockets n a = None \<Longrightarrow> streams_ok n (sent(a := [])) (got(a := []))"
  by (auto simp: streams_ok_def)

lemma socket_streams:
  assumes run: "running s t p" and fr: "fresh (io_world s) a b u f" and c: "syscall_socket s d ty pr a b u f = Some (s', r)"
    and ok: "streams_ok (io_world s) sent got"
  shows "streams_ok (io_world s') (sent(a := [])) (got(a := []))"
proof -
  have f: "n_sockets (io_world s) a = None" "a \<noteq> 0" using fr by (auto simp: fresh_def)
  show ?thesis
  proof (cases "0 \<le> sint d \<and> sint d < sint DOMAIN_SIZE")
    case False
    then have "s' = s" using c by (auto simp: syscall_socket_def)
    then show ?thesis using absent_streams [OF ok f(1)] by simp
  next
    case True
    then show ?thesis
      using syscall_socket_ok [OF run _ _ fr, of d ty pr] c made_streams [OF ok f] absent_streams [OF ok f(1)]
      by (auto split: option.splits)
  qed
qed
lemma joined_buffers:
  "n_sockets (joined n a c) b = Some y \<Longrightarrow> \<exists>z. n_sockets n b = Some z \<and> buffer_in y = buffer_in z"
  by (cases "b = c"; cases "b = a") (auto simp: joined_def)

lemma joined_streams:
  assumes "streams_ok n sent got" and "net_ok (joined n a c)"
  shows "streams_ok (joined n a c) sent got"
proof -
  have "sent b = got b @ fifo_list (buffer_in y)" if y: "n_sockets (joined n a c) b = Some y" for b y
  proof -
    obtain z where "n_sockets n b = Some z" "buffer_in y = buffer_in z" using joined_buffers [OF y] by blast
    then show ?thesis using assms(1) by (simp add: streams_ok_def)
  qed
  then show ?thesis using assms(2) by (simp add: streams_ok_def)
qed

lemma accept_streams:
  assumes run: "running s t p" and fr: "fresh (io_world s) a b u f" and c: "unixsocket_accept s l a b u f = Some (s', r)"
    and ok: "streams_ok (io_world s) sent got"
  shows "streams_ok (io_world s') (sent(a := [])) (got(a := []))"
proof -
  let ?n = "io_world s"
  have n: "net_ok ?n" using ok by (simp add: streams_ok_def)
  have f: "n_sockets ?n a = None" "a \<noteq> 0" using fr by (auto simp: fresh_def)
  obtain x where x: "n_sockets ?n l = Some x" using c by (auto simp: unixsocket_accept_def bind_eq_Some_conv)
  have xok: "socket_ok ?n l x" using net_okD(3) [OF n x] .
  show ?thesis
  proof (cases "sk_opts x SO_ACCEPTCONN \<and> accept_queue x \<noteq> []")
    case False
    then have "io_world s' = ?n" using c x by (auto simp: unixsocket_accept_def bind_eq_Some_conv split: if_splits)
    then show ?thesis using absent_streams [OF ok f(1)] by simp
  next
    case True
    then obtain e rest where q: "accept_queue x = e # rest" by (cases "accept_queue x") auto
    obtain z where z: "n_sockets ?n e = Some z" "connection z = 0" using xok q by (auto simp: socket_ok_def)
    have e0: "e \<noteq> 0" using net_okD(1) [OF n z(1)] .
    have dom: "0 \<le> sint (sk_domain x)" "sint (sk_domain x) < sint DOMAIN_SIZE" using xok by (auto simp: socket_ok_def)
    define n0 where "n0 = put_socket ?n l (x\<lparr>accept_queue := rest\<rparr>)"
    have n0: "net_ok n0" unfolding n0_def
      using xok q by (intro net_ok_requeue [OF n x]) (auto simp: socket_ok_def)
    have al: "a \<noteq> l" "a \<noteq> e" using f x z(1) by auto
    have so0: "streams_ok n0 sent got" using ok n0 x by (auto simp: streams_ok_def n0_def put_socket_def)
    have f0: "n_sockets n0 a = None" using f(1) al(1) by (simp add: n0_def put_socket_def)
    let ?m = "socket_made n0 a b (k_current (io_k s)) (sk_domain x) u"
    have eff: "io_world s' = joined ?m a e \<or> io_world s' = n0"
      using unixsocket_accept_ok [OF run x _ q dom fr e0 z(1)] True c unfolding Let_def n0_def [symmetric]
      by (auto split: option.splits)
    have "net_ok (joined ?m a e)"
    proof (rule net_ok_joined)
      show m: "net_ok ?m" by (rule net_ok_made [OF n0 f0 f(2) dom])
      show "n_sockets ?m a = Some (made_socket b (k_current (io_k s)) (sk_domain x) u)" by (simp add: socket_made_def)
      show "connection (made_socket b (k_current (io_k s)) (sk_domain x) u) = 0" by (simp add: made_socket_def new_socket_def Let_def)
      show "n_sockets ?m e = Some (if e = l then z\<lparr>accept_queue := rest\<rparr> else z)"
        using z x al by (cases "e = l") (simp_all add: socket_made_def n0_def put_socket_def)
      show "connection (if e = l then z\<lparr>accept_queue := rest\<rparr> else z) = 0" using z(2) by simp
      show "a \<noteq> e" by (rule al(2))
      have "\<not> pending n0 a"
      proof
        assume "pending n0 a"
        then obtain k y where "n_sockets n0 k = Some y" "a \<in> set (accept_queue y)" by (auto simp: pending_def)
        then have "\<exists>z. n_sockets n0 a = Some z" using net_okD(3) [OF n0] unfolding socket_ok_def by blast
        then show False using f0 by simp
      qed
      then show "\<not> pending ?m a" using pending_made [OF f0] by simp
      have "\<not> pending n0 e"
      proof
        assume "pending n0 e"
        then obtain k y where y: "n_sockets n0 k = Some y" "e \<in> set (accept_queue y)" by (auto simp: pending_def)
        show False
        proof (cases "k = l")
          case True
          then show False using y q xok by (auto simp: n0_def put_socket_def socket_ok_def)
        next
          case False
          then have "n_sockets ?n k = Some y" using y(1) by (simp add: n0_def put_socket_def)
          then show False using net_ok_queue [OF n _ x y(2)] q False by auto
        qed
      qed
      then show "\<not> pending ?m e" using pending_made [OF f0] by simp
    qed
    moreover have sm: "streams_ok ?m (sent(a := [])) (got(a := []))" by (rule made_streams [OF so0 f0 f(2) dom])
    ultimately have "streams_ok (joined ?m a e) (sent(a := [])) (got(a := []))"
      by (rule joined_streams [rotated])
    then show ?thesis using eff absent_streams [OF so0 f0] by auto
  qed
qed

lemma close_streams:
  assumes c: "socket_close n a = Some n'" and ok: "streams_ok n sent got" and p: "\<not> pending n a"
  shows "streams_ok n' sent got"
proof -
  have n: "net_ok n" using ok by (simp add: streams_ok_def)
  obtain x where x: "n_sockets n a = Some x" using c by (auto simp: socket_close_def bind_eq_Some_conv)
  have n': "n_sockets n' = closed n a x" "g_socket_list n' = remove1 a (g_socket_list n)"
    using socket_close_ok [OF n x] c by auto
  have "sent b = got b @ fifo_list (buffer_in y)" if y: "n_sockets n' b = Some y" for b y
  proof -
    obtain z where "n_sockets n b = Some z" "buffer_in y = buffer_in z"
      using y unfolding n' closed_def by (auto split: if_splits)
    then show ?thesis using ok by (simp add: streams_ok_def)
  qed
  then show ?thesis using net_ok_closed [OF n x p n'] by (simp add: streams_ok_def)
qed

lemma io_world_set: "io_world (s\<lparr>io_k := k, io_world := n\<rparr>) = n"
  by simp

lemma sock_reach_ok: "sock_reach s sent got \<Longrightarrow> streams_ok (io_world s) sent got"
proof (induction rule: sock_reach.induct)
  case (sock_start s f g h)
  then show ?case by (simp add: streams_ok_def net_ok_def net_initialize_def)
next
  case (sock_socket s sent got t p a b u f d ty pr s' r)
  from socket_streams [OF sock_socket.hyps(2,3,4) sock_socket.IH] show ?case .
next
  case (sock_accept s sent got t p a b u f l s' r)
  from accept_streams [OF sock_accept.hyps(2,3,4) sock_accept.IH] show ?case .
next
  case (sock_send s sent got a x len buf k n r)
  from send_streams [OF sock_send.hyps(4) sock_send.IH sock_send.hyps(2,3)] show ?case by (simp only: io_world_set)
next
  case (sock_recv s sent got len buf a k n buf' r)
  from recv_streams [OF sock_recv.hyps(3) sock_recv.IH sock_recv.hyps(2)] show ?case by (simp only: io_world_set)
qed (auto intro: get_socket_streams bind_streams listen_streams connect_streams close_streams)

section \<open>Properties\<close>


text \<open>
  C19: each direction of a connection is a byte stream: whatever has happened, the bytes that the peers of a
  socket were told they have sent are the bytes it has received followed by those in its buffer.
\<close>

theorem socket_stream:
  assumes "sock_reach s sent got" and "n_sockets (io_world s) a = Some x"
  shows "sent a = got a @ fifo_list (buffer_in x)"
  using sock_reach_ok [OF assms(1)] assms(2) by (simp add: streams_ok_def)
lemma resume_last_ok:
  assumes "get_thread k (last_thread x) = Some t"
  shows "\<exists>k'. resume_last k x fn = Some k' \<and> (waits_on t fn \<longrightarrow> runs k' (last_thread x)) \<and> addrs k' = addrs k"
proof (cases "waits_on t fn")
  case True
  have a: "th_addr (thread_resume t) = last_thread x" "last_thread x \<in> set (addrs k)"
    using get_thread_Some [OF assms] by (auto simp: thread_resume_def addrs_def image_iff intro!: bexI [of _ t])
  have "resume_last k x fn = Some (put_thread k (thread_resume t))" using True assms by (simp add: resume_last_def waits_on_def)
  moreover have "runs (put_thread k (thread_resume t)) (last_thread x)"
    using a by (simp add: runs_def get_put) (simp add: thread_resume_def)
  ultimately show ?thesis by (simp add: addrs_put)
next
  case False
  then show ?thesis using assms by (auto simp: resume_last_def waits_on_def)
qed



text \<open>
  C37: closing one end of a connection loses data: the bytes still in the other end's buffer cannot be
  received any more, as the next receive reports the end of the stream and leaves them there.
\<close>

theorem socket_close_loses_data:
  assumes ok: "net_ok n" and x: "n_sockets n a = Some x" "connection x = b" "b \<noteq> 0" "a \<noteq> b"
    and y: "n_sockets n b = Some y" "fifo_list (buffer_in y) \<noteq> []" and len: "len \<noteq> 0"
  shows "\<exists>n'. socket_close n a = Some n' \<and> unixsocket_recv k n' b buf len = Some (irq_off k, n', buf, Some 0) \<and>
    (\<exists>y'. n_sockets n' b = Some y' \<and> fifo_list (buffer_in y') = fifo_list (buffer_in y))"
proof -
  obtain n' where n': "socket_close n a = Some n'" "n_sockets n' = closed n a x"
    using socket_close_ok [OF ok x(1)] by blast
  have b: "n_sockets n' b = Some (y\<lparr>connection := 0, disconnected := True\<rparr>)"
    using x y(1) unfolding n'(2) by (simp add: closed_def)
  then have "unixsocket_recv k n' b buf len = Some (irq_off k, n', buf, Some 0)"
    using len by (simp add: unixsocket_recv_def Let_def)
  then show ?thesis using n'(1) b by simp
qed

text \<open>
  C38: accepting with a full descriptor table loses the client: it is taken out of the queue, the server
  goes to sleep, and the client waits for a connection that nothing will make.
\<close>

theorem socket_accept_full_table:
  assumes ok: "net_ok (io_world s)" and run: "running s t p" "0 \<notin> set (p_fd p)"
    and x: "n_sockets (io_world s) l = Some x" "sk_opts x SO_ACCEPTCONN" "accept_queue x = c # rest"
    and fr: "fresh (io_world s) a b u f"
  shows "\<exists>s'. unixsocket_accept s l a b u f = Some (s', None) \<and> \<not> pending (io_world s') c \<and>
    (\<exists>k'. unixsocket_connect_poll (io_k s') (io_world s') c = Some (k', None))"
proof -
  have xok: "socket_ok (io_world s) l x" using net_okD(3) [OF ok x(1)] .
  obtain z where z: "n_sockets (io_world s) c = Some z" "connection z = 0" using xok x(3) by (auto simp: socket_ok_def)
  have c0: "c \<noteq> 0" using net_okD(1) [OF ok z(1)] .
  have dom: "0 \<le> sint (sk_domain x)" "sint (sk_domain x) < sint DOMAIN_SIZE" using xok by (auto simp: socket_ok_def)
  have none: "find_slot (\<lambda>g. g = 0) (p_fd p) = None" using run(2) by (auto simp: find_slot_None)
  let ?n0 = "put_socket (io_world s) l (x\<lparr>accept_queue := rest\<rparr>)"
  obtain s' where s': "unixsocket_accept s l a b u f = Some (s', None)" "io_world s' = ?n0"
    using unixsocket_accept_ok [OF run(1) x dom fr c0 z(1)] none unfolding Let_def by auto
  have "\<not> pending ?n0 c"
  proof
    assume "pending ?n0 c"
    then obtain k y where y: "n_sockets ?n0 k = Some y" "c \<in> set (accept_queue y)" by (auto simp: pending_def)
    show False
    proof (cases "k = l")
      case True
      then show False using y x(3) xok by (auto simp: put_socket_def socket_ok_def)
    next
      case False
      then have "n_sockets (io_world s) k = Some y" using y(1) by (simp add: put_socket_def)
      then show False using net_ok_queue [OF ok _ x(1) y(2)] x(3) False by auto
    qed
  qed
  moreover have "\<exists>z'. n_sockets ?n0 c = Some z' \<and> connection z' = 0"
    using z x(1) by (cases "c = l") (auto simp: put_socket_def)
  then have "\<exists>k'. unixsocket_connect_poll (io_k s') ?n0 c = Some (k', None)" by (auto simp: unixsocket_connect_poll_def)
  ultimately show ?thesis using s' by auto
qed

section \<open>Witnesses\<close>

definition sample_socket :: "ptr \<Rightarrow> ptr \<Rightarrow> ptr \<Rightarrow> bool \<Rightarrow> ptr list \<Rightarrow> FifoBuffer \<Rightarrow> Socket" where
  "sample_socket thread u other listening queue q = new_socket\<lparr>sk_domain := AF_UNIX, last_thread := thread, connection := other,
     sk_opts := (\<lambda>_. listening), accept_queue := queue, custom_socket := u, unix_ops := True, buffer_in := q\<rparr>"

definition sample_net :: "Socket \<Rightarrow> Socket \<Rightarrow> net_state" where
  "sample_net x y = \<lparr>n_sockets = (\<lambda>a. if a = 0x100 then Some x else if a = 0x200 then Some y else None),
     n_unix = (\<lambda>u. if u = 0x300 then Some \<lparr>us_owner = 0x100, us_name = [115, 0]\<rparr>
                   else if u = 0x400 then Some \<lparr>us_owner = 0x200, us_name = [0]\<rparr> else None),
     g_socket_list = [0x100, 0x200], at_accept = 1, at_send = 2, at_recv = 3\<rparr>"

definition sample_machine :: "ptr \<Rightarrow> net_state \<Rightarrow> net_machine" where
  "sample_machine slot n = \<lparr>io_fs = sample_fs,
     io_k = sample_threads3\<lparr>k_procs := [1 \<mapsto> sample_process\<lparr>p_fd := replicate 20 slot\<rparr>]\<rparr>, io_world = n\<rparr>"

definition socket_bytes :: FifoBuffer where "socket_bytes = fifobuffer_create SOCKET_BUFFER_SIZE"

lemma socket_bytes_ok: "fifo_inv socket_bytes" "fifo_cap socket_bytes = 512000" "fifo_list socket_bytes = []"
  by (simp_all add: socket_bytes_def fifo_inv_create fifo_list_create)
    (simp add: fifo_cap_def fifobuffer_create_def SOCKET_BUFFER_SIZE_def)

lemma sample_running:
  "running (sample_machine slot n) (sample_thread 20 TS_RUN 0) (sample_process\<lparr>p_fd := replicate 20 slot\<rparr>)"
proof -
  have "get_thread (io_k (sample_machine slot n)) 20 = Some (sample_thread 20 TS_RUN 0)"
    using sample3_threads(2) by (simp add: sample_machine_def get_thread_def)
  moreover have "k_current (io_k (sample_machine slot n)) = 20" using sample3_ok(3) by (simp add: sample_machine_def)
  ultimately show ?thesis
    unfolding running_def by (simp add: sample_machine_def sample_thread_def ASTERISK_MAX_OPENED_FILES_def)
qed

lemma sample_socket_simps [simp]:
  "buffer_in (sample_socket t u c b qs q) = q" "connection (sample_socket t u c b qs q) = c"
  "accept_queue (sample_socket t u c b qs q) = qs" "sk_domain (sample_socket t u c b qs q) = 1"
  "last_thread (sample_socket t u c b qs q) = t" "sk_opts (sample_socket t u c b qs q) = (\<lambda>_. b)"
  "disconnected (sample_socket t u c b qs q) = False" "custom_socket (sample_socket t u c b qs q) = u"
  by (simp_all add: sample_socket_def new_socket_def AF_UNIX_def)

lemma sample_socket_queue: "(sample_socket t u c b qs q)\<lparr>accept_queue := qs'\<rparr> = sample_socket t u c b qs' q"
  by (simp add: sample_socket_def new_socket_def)

lemma sample_net_simps [simp]:
  "n_sockets (sample_net x y) 0x100 = Some x" "n_sockets (sample_net x y) 0x200 = Some y"
  "at_accept (sample_net x y) = 1"
  by (simp_all add: sample_net_def)

lemma sample_net_ok:
  assumes "fifo_inv q" and "fifo_cap q = 512000"
  shows "net_ok (sample_net (sample_socket 10 0x300 0x200 False [] socket_bytes) (sample_socket 20 0x400 0x100 False [] q))"
    and "net_ok (sample_net (sample_socket 10 0x300 0 True [] socket_bytes) (sample_socket 20 0x400 0 False [] socket_bytes))"
    and "net_ok (sample_net (sample_socket 10 0x300 0 True [0x200] socket_bytes) (sample_socket 20 0x400 0 False [] socket_bytes))"
  using assms socket_bytes_ok by (simp_all add: net_ok_def socket_ok_def sample_net_def DOMAIN_SIZE_def)

definition sample_net0 :: net_machine where "sample_net0 = sample_machine 0 (net_initialize 1 2 3)"

lemma sample_socket_reached:
  "\<exists>s x. sock_reach s ((\<lambda>_. [])(0x100 := [])) ((\<lambda>_. [])(0x100 := [])) \<and> n_sockets (io_world s) 0x100 = Some x \<and> custom_socket x = 0x400"
proof -
  have w: "io_world sample_net0 = net_initialize 1 2 3" by (simp add: sample_net0_def sample_machine_def)
  have run: "running sample_net0 (sample_thread 20 TS_RUN 0) (sample_process\<lparr>p_fd := replicate 20 0\<rparr>)"
    unfolding sample_net0_def by (rule sample_running)
  have fr: "fresh (io_world sample_net0) 0x100 0x200 0x400 0x500" unfolding w by (simp add: fresh_def net_initialize_def)
  have slot: "find_slot (\<lambda>g. g = 0) (p_fd (sample_process\<lparr>p_fd := replicate 20 0\<rparr>)) = Some 0"
    by (simp add: find_slot_Some)
  have d: "0 \<le> sint AF_UNIX" "sint AF_UNIX < sint DOMAIN_SIZE" by (simp_all add: AF_UNIX_def DOMAIN_SIZE_def)
  obtain s' where s': "syscall_socket sample_net0 AF_UNIX 1 0 0x100 0x200 0x400 0x500 = Some (s', of_nat 0)"
      "io_world s' = socket_made (io_world sample_net0) 0x100 0x200 (k_current (io_k sample_net0)) AF_UNIX 0x400"
    using syscall_socket_ok [OF run d fr, of 1 0] unfolding slot option.case by blast
  have r: "sock_reach s' ((\<lambda>_. [])(0x100 := [])) ((\<lambda>_. [])(0x100 := []))"
    by (rule sock_reach.sock_socket [OF sock_reach.sock_start [OF w] run fr s'(1)])
  have "n_sockets (io_world s') 0x100 = Some (made_socket 0x200 (k_current (io_k sample_net0)) AF_UNIX 0x400)"
    by (simp add: s'(2) socket_made_def)
  then show ?thesis using r by (auto simp: made_socket_def Let_def)
qed


theorem socket_stream_witness:
  "\<exists>s sent got x. sock_reach s sent got \<and> n_sockets (io_world s) 0x100 = Some x \<and> sent 0x100 = got 0x100 @ fifo_list (buffer_in x)"
proof -
  obtain s x where s: "sock_reach s ((\<lambda>_. [])(0x100 := [])) ((\<lambda>_. [])(0x100 := []))" "n_sockets (io_world s) 0x100 = Some x"
    using sample_socket_reached by blast
  from socket_stream [OF s] s show ?thesis by blast
qed



theorem socket_close_loses_data_witness:
  "\<exists>n n'. socket_close n 0x100 = Some n' \<and>
     unixsocket_recv sample_threads3 n' 0x200 [0] 1 = Some (irq_off sample_threads3, n', [0], Some 0)"
proof -
  have l: "unat (1 :: u32) \<le> length [7 :: u8]" "(1 :: u32) \<noteq> 0" by simp_all
  obtain q w where q: "fifobuffer_enqueue socket_bytes [7] 1 = Some (q, w)" "fifo_inv q" "fifo_cap q = 512000" "fifo_list q \<noteq> []"
    using fifobuffer_enqueue_ok [OF socket_bytes_ok(1) l] socket_bytes_ok(2,3) by (auto simp: ok_iff simp del: length_fifo_list)
  let ?x = "sample_socket 10 0x300 0x200 False [] socket_bytes" and ?y = "sample_socket 20 0x400 0x100 False [] q"
  have h: "n_sockets (sample_net ?x ?y) 0x100 = Some ?x" "connection ?x = 0x200" "(0x200 :: ptr) \<noteq> 0" "(0x100 :: ptr) \<noteq> 0x200"
      "n_sockets (sample_net ?x ?y) 0x200 = Some ?y" "fifo_list (buffer_in ?y) \<noteq> []"
    using q(4) by simp_all
  from socket_close_loses_data [OF sample_net_ok(1) [OF q(2,3)] h l(2), of sample_threads3 "[0]"] show ?thesis by blast
qed

theorem socket_accept_full_table_witness:
  "\<exists>s s'. unixsocket_accept s 0x100 0x600 0x700 0x800 0x900 = Some (s', None) \<and> \<not> pending (io_world s') 0x200"
proof -
  let ?x = "sample_socket 10 0x300 0 True [0x200] socket_bytes"
  let ?n = "sample_net ?x (sample_socket 20 0x400 0 False [] socket_bytes)"
  have w: "io_world (sample_machine 1 ?n) = ?n" by (simp add: sample_machine_def)
  have ok: "net_ok (io_world (sample_machine 1 ?n))" unfolding w by (rule sample_net_ok(3) [OF socket_bytes_ok(1,2)])
  have h: "0 \<notin> set (p_fd (sample_process\<lparr>p_fd := replicate 20 1\<rparr>))" "n_sockets (io_world (sample_machine 1 ?n)) 0x100 = Some ?x"
      "sk_opts ?x SO_ACCEPTCONN" "accept_queue ?x = 0x200 # []" "fresh (io_world (sample_machine 1 ?n)) 0x600 0x700 0x800 0x900"
    unfolding w by (simp_all add: fresh_def sample_net_def)
  from socket_accept_full_table [OF ok sample_running h] show ?thesis by blast
qed

end
