(* ===== verification/Spec2Isabelle.thy ===== *)
theory Spec2Isabelle
  imports FifoBuffer HashTable KList CommonLib Spinlock Message Vmm KHeap Terminal Process Waiting Tty Registry Pipe PathName Vfs FileTree FileOps SharedMemory Socket
begin

text \<open>
  A verification development for Asterisk, a small operating system for 32-bit PCs written in C.

  The theories follow the kernel's source files.  Machine integers are words of the C width, so
  every wrap-around is the code's own; a NULL pointer is the address 0; memory that an operation
  must not leave is a list and an access outside it is the value \<open>None\<close>, as are \<^verbatim>\<open>PANIC\<close> and a wait
  that never ends.  A theorem that says \<open>= Some ...\<close> therefore also says that the code returns and
  stays inside its objects.

  \<^item> \<open>Prelude\<close>: names for the word types, checked list access, laws of the option monad and of
    words shared by all theories.
  \<^item> \<open>FifoBuffer\<close> (\<^verbatim>\<open>fifobuffer.c\<close>): the ring buffer. It refines a bounded queue; the locale
    \<open>byte_fifo\<close> is the interface its clients use.
  \<^item> \<open>HashTable\<close> (\<^verbatim>\<open>hashtable.c\<close>): open addressing with tombstone-free probing; it refines a
    finite map of bounded size.
  \<^item> \<open>KList\<close> (\<^verbatim>\<open>list.c\<close>): doubly linked lists over an explicit store of nodes; they refine
    sequences, and the stack and the queue are built on them.
  \<^item> \<open>CommonLib\<close> (\<^verbatim>\<open>common.c\<close>): memory and string routines, number conversion, \<^verbatim>\<open>sprintf\<close>,
    critical sections and the checks of user pointers.
  \<^item> \<open>Spinlock\<close> (\<^verbatim>\<open>spinlock.c\<close>): the lock as atomic steps of any number of threads.
  \<^item> \<open>Message\<close> (\<^verbatim>\<open>message.c\<close>): message queues of threads, built from the two above.
  \<^item> \<open>Vmm\<close> (\<^verbatim>\<open>vmm.c\<close>): page frames, page directories and page tables. The tables live in simulated
    physical memory and the code reaches them through the recursive mapping, so every access is
    translated by the same walk that the processor makes.
  \<^item> \<open>KHeap\<close> (\<^verbatim>\<open>alloc.c\<close>): the kernel heap and the program break.
  \<^item> \<open>Terminal\<close> (\<^verbatim>\<open>terminal.c\<close>, \<^verbatim>\<open>vgaterminal.c\<close>): the cell buffer, the cursor and the calls to the
    display back end.
  \<^item> \<open>Process\<close> (\<^verbatim>\<open>process.c\<close>, \<^verbatim>\<open>timer.c\<close>, \<^verbatim>\<open>sleep.c\<close>, \<^verbatim>\<open>syscall_select.c\<close>): threads, signals, the
    descriptor table, the scheduler and time.
  \<^item> \<open>Waiting\<close>: how a thread sleeps on a file and is woken, shared by the files that block. A call
    that has to wait is modelled as one attempt, which puts threads to sleep and returns no
    value; the scheduler repeats it, and the theorems about two threads say what the repeated
    attempt finds.
  \<^item> \<open>Tty\<close> (\<^verbatim>\<open>ttydev.c\<close>): the terminal device, whose line discipline is compared with an editing
    function on lists.
  \<^item> \<open>Registry\<close>: the locale \<open>name_registry\<close>, the contract of a list of named objects.
  \<^item> \<open>Pipe\<close> (\<^verbatim>\<open>pipe.c\<close>): named pipes and their list, which is interpreted as a registry.
  \<^item> \<open>PathName\<close> (\<^verbatim>\<open>fs_resolve_path\<close> of \<^verbatim>\<open>fs.c\<close>): path normalisation against a reference on the list of
    components.
  \<^item> \<open>Vfs\<close> (\<^verbatim>\<open>fs.c\<close>, \<^verbatim>\<open>rootfs.c\<close>, \<^verbatim>\<open>devfs.c\<close>): the nodes of the file tree and the operations that walk it;
    \<open>FileTree\<close>: its invariant, the tree as a function from paths to nodes, and what the
    operations do to that function.
  \<^item> \<open>FileOps\<close> (\<^verbatim>\<open>fs.c\<close>): the operations on open files, which call drivers.
  \<^item> \<open>SharedMemory\<close> (\<^verbatim>\<open>sharedmemory.c\<close>): segments of page frames over \<open>Vmm\<close>, who has mapped them and
    when their frames are given back.
  \<^item> \<open>Socket\<close> (\<^verbatim>\<open>socket.c\<close>, \<^verbatim>\<open>unixsocket.c\<close>): local sockets over \<open>FileOps\<close>, \<open>KList\<close> and \<open>FifoBuffer\<close>.
    Connections stay symmetric and each direction is a byte stream in every reachable state.
\<close>

end
